(* ===== verification/Prelude.thy ===== *)
theory Prelude
  imports Main "HOL-Library.Word"
begin

section \<open>Prelude: Go's integers, strings and clocks, and shared lemmas\<close>

text \<open>
  What every component shares: Go's \<open>int64\<close> as an \<open>int\<close> with the wrap-around written
  out, \<open>strconv.FormatInt\<close> in base 10, time values, the binary search
  \<open>sort.Search\<close>, and generic lemmas about lists and maps. The collection \<open>i64_simps\<close>
  removes the wrap-around where the exact result is in range.
\<close>

named_theorems i64_simps \<open>64-bit arithmetic without wrap-around\<close>

subsection \<open>Go's int64\<close>

text \<open>
  An \<open>int64\<close> is an \<open>int\<close> in the range of \<open>i64\<close>. Every arithmetic operation of the
  source on \<open>int64\<close> values is one of \<open>add64\<close>, \<open>sub64\<close>, \<open>mul64\<close>, which reduce the exact
  result to two's complement; comparisons are those of \<open>int\<close>.
\<close>

abbreviation max_i64 :: int where "max_i64 \<equiv> 9223372036854775807"

definition i64 :: "int \<Rightarrow> bool" where
  "i64 x \<longleftrightarrow> - 9223372036854775808 \<le> x \<and> x \<le> 9223372036854775807"

definition wrap64 :: "int \<Rightarrow> int" where
  "wrap64 x = (x + 9223372036854775808) mod 18446744073709551616 - 9223372036854775808"

definition add64 :: "int \<Rightarrow> int \<Rightarrow> int" where "add64 a b = wrap64 (a + b)"
definition sub64 :: "int \<Rightarrow> int \<Rightarrow> int" where "sub64 a b = wrap64 (a - b)"
definition mul64 :: "int \<Rightarrow> int \<Rightarrow> int" where "mul64 a b = wrap64 (a * b)"

lemma i64_wrap64 [simp, intro]: "i64 (wrap64 x)"
  using pos_mod_bound [of 18446744073709551616 "x + 9223372036854775808"]
    pos_mod_sign [of 18446744073709551616 "x + 9223372036854775808"]
  unfolding i64_def wrap64_def by linarith

lemma wrap64_id [i64_simps]: "i64 x \<Longrightarrow> wrap64 x = x"
  by (simp add: i64_def wrap64_def)

lemma add64_id [i64_simps]: "i64 (a + b) \<Longrightarrow> add64 a b = a + b"
  by (simp add: add64_def wrap64_id)

lemma sub64_id [i64_simps]: "i64 (a - b) \<Longrightarrow> sub64 a b = a - b"
  by (simp add: sub64_def wrap64_id)

lemma mul64_id [i64_simps]: "i64 (a * b) \<Longrightarrow> mul64 a b = a * b"
  by (simp add: mul64_def wrap64_id)

lemma i64_ops [simp, intro]: "i64 (add64 a b)" "i64 (sub64 a b)" "i64 (mul64 a b)"
  by (simp_all add: add64_def sub64_def mul64_def)

lemma i64_nonneg: "0 \<le> x \<Longrightarrow> x \<le> max_i64 \<Longrightarrow> i64 x"
  by (simp add: i64_def)

lemma i64_0 [simp]: "i64 0"
  by (simp add: i64_def)

text \<open>
  \<open>wrap64\<close> is the value of the 64-bit word, read in two's complement: the model's
  arithmetic is that of the machine word.
\<close>

lemma wrap64_eq_sint: "wrap64 x = sint (word_of_int x :: 64 word)"
  by (simp add: wrap64_def sint_sbintrunc' signed_take_bit_eq_take_bit_shift take_bit_eq_mod)

lemma wrap64_cong:
  assumes "x mod 18446744073709551616 = y mod 18446744073709551616"
  shows "wrap64 x = wrap64 y"
  unfolding wrap64_def by (simp only: mod_add_cong [OF assms refl])

lemma wrap64_mod: "wrap64 x mod 18446744073709551616 = x mod 18446744073709551616"
proof -
  have "wrap64 x mod 18446744073709551616
      = ((x + 9223372036854775808) - 9223372036854775808) mod 18446744073709551616"
    unfolding wrap64_def by (rule mod_diff_left_eq)
  then show ?thesis by simp
qed

lemma add64_wrap: "add64 (wrap64 a) b = wrap64 (a + b)"
  unfolding add64_def by (rule wrap64_cong) (rule mod_add_cong [OF wrap64_mod refl])

text \<open>
  The step of the matching loop: after a fill by all that is left of an order, nothing is
  left of it, whatever the numbers and with wrap-around.
\<close>

lemma sub_add_sub_mod:
  fixes q f w v M :: int
  assumes "w mod M = (q - f) mod M" and "v mod M = (f + w) mod M"
  shows "(q - v) mod M = 0"
proof -
  have "(f + w) mod M = (f + (q - f)) mod M"
    by (rule mod_add_cong [OF refl assms(1)])
  with assms(2) have "v mod M = q mod M" by simp
  then have "(q - v) mod M = (q - q) mod M"
    by (rule mod_diff_cong [OF refl])
  then show ?thesis by simp
qed

lemma sub64_add64_cancel: "sub64 q (add64 f (sub64 q f)) = 0"
proof -
  have "(q - wrap64 (f + wrap64 (q - f))) mod 18446744073709551616 = 0"
    by (rule sub_add_sub_mod [OF wrap64_mod wrap64_mod])
  then have "wrap64 (q - wrap64 (f + wrap64 (q - f))) = wrap64 0"
    by (intro wrap64_cong) simp
  then show ?thesis
    by (simp only: sub64_def add64_def wrap64_id i64_0)
qed

subsection \<open>Decimal strings\<close>

text \<open>
  \<open>strconv.FormatInt(n, 10)\<close>: an optional sign and the decimal digits, most significant
  first. Identifiers of trades and events are built from it.
\<close>

fun digits :: "nat \<Rightarrow> string" where
  "digits n = (if n < 10 then [char_of (48 + n)] else digits (n div 10) @ [char_of (48 + n mod 10)])"

declare digits.simps [simp del]

definition itoa :: "int \<Rightarrow> string" where
  "itoa n = (if n < 0 then CHR ''-'' # digits (nat (- n)) else digits (nat n))"

fun digits_value :: "string \<Rightarrow> nat" where
  "digits_value s = foldl (\<lambda>v c. 10 * v + (of_char c - 48)) 0 s"

lemma of_char_digit: "n < 10 \<Longrightarrow> of_char (char_of (48 + n) :: char) = 48 + n"
  for n :: nat
  by (simp only: of_char_of) simp

lemma digits_value_digits: "digits_value (digits n) = n"
proof (induction n rule: digits.induct)
  case (1 n)
  show ?case
  proof (cases "n < 10")
    case True
    then show ?thesis by (simp add: digits.simps [of n] of_char_digit)
  next
    case False
    then have "digits_value (digits n)
        = 10 * digits_value (digits (n div 10)) + (of_char (char_of (48 + n mod 10) :: char) - 48)"
      by (simp add: digits.simps [of n])
    also have "of_char (char_of (48 + n mod 10) :: char) = 48 + n mod 10"
      by (rule of_char_digit) simp
    finally show ?thesis using 1 False by simp
  qed
qed

lemma digits_inj: "digits m = digits n \<Longrightarrow> m = n"
  by (metis digits_value_digits)

lemma itoa_inj_nonneg: "0 \<le> m \<Longrightarrow> 0 \<le> n \<Longrightarrow> itoa m = itoa n \<Longrightarrow> m = n"
  unfolding itoa_def by (auto dest!: digits_inj)

text \<open>\<open>hex.EncodeToString\<close>: two digits per byte. Identifiers of orders and engines are built from it.\<close>

definition hex_digit :: "nat \<Rightarrow> char" where
  "hex_digit n = ''0123456789abcdef'' ! n"

definition hex_EncodeToString :: "nat list \<Rightarrow> string" where
  "hex_EncodeToString bs = concat (map (\<lambda>b. [hex_digit (b div 16), hex_digit (b mod 16)]) bs)"

lemma hex_digit_inj: "m < 16 \<Longrightarrow> n < 16 \<Longrightarrow> hex_digit m = hex_digit n \<Longrightarrow> m = n"
proof -
  assume "m < 16" and "n < 16" and e: "hex_digit m = hex_digit n"
  moreover have "distinct ''0123456789abcdef''" by simp
  ultimately show "m = n" unfolding hex_digit_def by (subst (asm) nth_eq_iff_index_eq) simp_all
qed

lemma hex_EncodeToString_inj:
  assumes "\<forall>b\<in>set xs. b < 256" and "\<forall>b\<in>set ys. b < 256"
    and "hex_EncodeToString xs = hex_EncodeToString ys"
  shows "xs = ys"
  using assms
proof (induction xs arbitrary: ys)
  case Nil
  then show ?case by (cases ys) (simp_all add: hex_EncodeToString_def)
next
  case (Cons x xs)
  then obtain y zs where ys: "ys = y # zs" by (cases ys) (simp_all add: hex_EncodeToString_def)
  with Cons.prems have "x div 16 = y div 16" "x mod 16 = y mod 16"
    by (auto simp: hex_EncodeToString_def intro: hex_digit_inj)
  then have "x = y" by (metis div_mult_mod_eq)
  moreover have "xs = zs" using Cons ys by (auto simp: hex_EncodeToString_def)
  ultimately show ?case by (simp add: ys)
qed

subsection \<open>The binary search of package sort\<close>

text \<open>
  \<open>sort.Search(n, f)\<close>: the standard library halves \<open>[i, j)\<close> until it is empty. For a
  predicate that stays true once it is true, the result is the least index where it holds.
\<close>

function sort_search_loop :: "(nat \<Rightarrow> bool) \<Rightarrow> nat \<Rightarrow> nat \<Rightarrow> nat" where
  "sort_search_loop f i j =
     (if i < j then
        (let h = (i + j) div 2
         in if \<not> f h then sort_search_loop f (h + 1) j else sort_search_loop f i h)
      else i)"
  by pat_completeness auto
termination
  by (relation "measure (\<lambda>(f, i, j). j - i)") auto

declare sort_search_loop.simps [simp del]

definition sort_search :: "nat \<Rightarrow> (nat \<Rightarrow> bool) \<Rightarrow> nat" where
  "sort_search n f = sort_search_loop f 0 n"

lemma sort_search_loop_split:
  assumes mono: "\<And>k l. k \<le> l \<Longrightarrow> l < n \<Longrightarrow> f k \<Longrightarrow> f l"
  shows "i \<le> j \<Longrightarrow> j \<le> n \<Longrightarrow> \<forall>k<i. \<not> f k \<Longrightarrow> \<forall>k. j \<le> k \<and> k < n \<longrightarrow> f k \<Longrightarrow>
    sort_search_loop f i j \<le> n \<and> (\<forall>k < sort_search_loop f i j. \<not> f k)
    \<and> (\<forall>k. sort_search_loop f i j \<le> k \<and> k < n \<longrightarrow> f k)"
proof (induction "j - i" arbitrary: i j rule: less_induct)
  case less
  define h where "h = (i + j) div 2"
  show ?case
  proof (cases "i < j")
    case False
    with less.prems show ?thesis by (subst (1 2 3) sort_search_loop.simps) auto
  next
    case ij: True
    then have h: "i \<le> h" "h < j" by (simp_all add: h_def)
    show ?thesis
    proof (cases "f h")
      case True
      then have "\<forall>k. h \<le> k \<and> k < n \<longrightarrow> f k" using mono by blast
      with less.hyps [of h i] less.prems h ij True show ?thesis
        by (simp add: sort_search_loop.simps [of f i j] h_def [symmetric])
    next
      case False
      with h less.prems have "\<forall>k < h + 1. \<not> f k" using mono [of _ h] by fastforce
      with less.hyps [of j "h + 1"] less.prems h ij False show ?thesis
        by (simp add: sort_search_loop.simps [of f i j] h_def [symmetric])
    qed
  qed
qed

lemma takeWhile_length_split:
  assumes "n \<le> length xs" and "\<forall>k<n. \<not> P (xs ! k)"
    and "\<forall>k. n \<le> k \<and> k < length xs \<longrightarrow> P (xs ! k)"
  shows "length (takeWhile (\<lambda>x. \<not> P x) xs) = n"
proof -
  have "takeWhile (\<lambda>x. \<not> P x) xs = take n xs"
    using assms by (intro takeWhile_eq_take_P_nth) auto
  with assms(1) show ?thesis by simp
qed

lemma sort_search_takeWhile:
  assumes "sorted_wrt (\<lambda>x y. P x \<longrightarrow> P y) xs"
  shows "sort_search (length xs) (\<lambda>i. P (xs ! i)) = length (takeWhile (\<lambda>x. \<not> P x) xs)"
    (is "?r = _")
proof -
  have mono: "P (xs ! k) \<Longrightarrow> P (xs ! l)" if "k \<le> l" "l < length xs" for k l
    using that assms by (metis le_neq_implies_less sorted_wrt_iff_nth_less)
  have "?r \<le> length xs \<and> (\<forall>k < ?r. \<not> P (xs ! k))
      \<and> (\<forall>k. ?r \<le> k \<and> k < length xs \<longrightarrow> P (xs ! k))"
    unfolding sort_search_def
    by (rule sort_search_loop_split) (erule (2) mono, auto)
  then show ?thesis
    by (elim conjE) (rule takeWhile_length_split [symmetric])
qed

subsection \<open>Lists and maps\<close>

lemma sum_list_takeWhile_dropWhile:
  "sum_list (map f (takeWhile P xs)) + sum_list (map f (dropWhile P xs)) = sum_list (map f xs)"
  for f :: "'a \<Rightarrow> 'b :: comm_monoid_add"
  by (induction xs) (auto simp: ac_simps)

lemma sum_list_map_remove1:
  "x \<in> set xs \<Longrightarrow> sum_list (map f (remove1 x xs)) = sum_list (map f xs) - f x"
  for f :: "'a \<Rightarrow> int"
  by (induction xs) auto

lemma sum_list_map_remove1_le: "sum_list (map f (remove1 x xs)) \<le> sum_list (map f xs)"
  for f :: "'a \<Rightarrow> nat"
  by (induction xs) auto

lemma sum_list_nonneg_map: "(\<And>x. x \<in> set xs \<Longrightarrow> 0 \<le> f x) \<Longrightarrow> 0 \<le> sum_list (map f xs)"
  for f :: "'a \<Rightarrow> int"
  by (induction xs) auto

lemma member_le_sum_list_int: "x \<in> set xs \<Longrightarrow> (\<And>y. y \<in> set xs \<Longrightarrow> 0 \<le> f y) \<Longrightarrow> f x \<le> sum_list (map f xs)"
  for f :: "'a \<Rightarrow> int"
proof (induction xs)
  case (Cons a xs)
  have "0 \<le> sum_list (map f xs)" using Cons.prems by (intro sum_list_nonneg_map) auto
  moreover have "0 \<le> f a" using Cons.prems by simp
  moreover have "x = a \<or> x \<in> set xs \<and> f x \<le> sum_list (map f xs)" using Cons by auto
  ultimately show ?case by auto
qed simp

end
