(* ===== verification/Domain.thy ===== *)
theory Domain
  imports Prelude
begin

section \<open>Domain types: orders, trades, events\<close>

text \<open>
  \<open>internal/core/domain/order.go\<close>, \<open>trade.go\<close> and \<open>event.go\<close>. A Go struct is a record
  with the field names of the source behind a one-letter prefix (\<open>o\<close> for \<open>Order\<close>, \<open>t\<close>
  for \<open>Trade\<close>, \<open>e\<close> for \<open>Event\<close>); a pointer field that may be nil is an \<open>option\<close>. The
  string-typed enumerations are datatypes: \<open>Side\<close> keeps every other string as
  \<open>OtherSide\<close>, because the REST adapter converts whatever the client sent, and
  \<open>OrderStatus\<close> has the zero value \<open>StatusNone\<close> that a freshly built order carries. A
  \<open>time.Time\<close> is its distance in nanoseconds from the zero time.
\<close>

subsection \<open>Errors\<close>

text \<open>
  The sentinel errors of the packages \<open>domain\<close> and \<open>service\<close>, the context error of a
  cancelled request, an error of the infrastructure, and \<open>fmt.Errorf\<close> with two \<open>%w\<close>
  verbs, which wraps both. \<open>errors_Is\<close> is \<open>errors.Is\<close>: it searches the tree of wrapped
  errors.
\<close>

datatype goerr =
    ErrInvalidSide | ErrInvalidPrice | ErrInvalidQuantity | ErrMissingUser | ErrMissingSymbol
  | ErrOrderNotFound
  | ErrInsufficientCOP | ErrInsufficientVibranium | ErrInsufficientLocked | ErrNegativeAmount
  | ErrWalletNotFound
  | ErrInvalidBalance | ErrReservationFailed
  | ErrContext
  | ErrInfra string
  | ErrWrap goerr goerr

primrec errors_Is :: "goerr \<Rightarrow> goerr \<Rightarrow> bool" where
  "errors_Is ErrInvalidSide t = (t = ErrInvalidSide)"
| "errors_Is ErrInvalidPrice t = (t = ErrInvalidPrice)"
| "errors_Is ErrInvalidQuantity t = (t = ErrInvalidQuantity)"
| "errors_Is ErrMissingUser t = (t = ErrMissingUser)"
| "errors_Is ErrMissingSymbol t = (t = ErrMissingSymbol)"
| "errors_Is ErrOrderNotFound t = (t = ErrOrderNotFound)"
| "errors_Is ErrInsufficientCOP t = (t = ErrInsufficientCOP)"
| "errors_Is ErrInsufficientVibranium t = (t = ErrInsufficientVibranium)"
| "errors_Is ErrInsufficientLocked t = (t = ErrInsufficientLocked)"
| "errors_Is ErrNegativeAmount t = (t = ErrNegativeAmount)"
| "errors_Is ErrWalletNotFound t = (t = ErrWalletNotFound)"
| "errors_Is ErrInvalidBalance t = (t = ErrInvalidBalance)"
| "errors_Is ErrReservationFailed t = (t = ErrReservationFailed)"
| "errors_Is ErrContext t = (t = ErrContext)"
| "errors_Is (ErrInfra m) t = (t = ErrInfra m)"
| "errors_Is (ErrWrap a b) t = (t = ErrWrap a b \<or> errors_Is a t \<or> errors_Is b t)"

lemma errors_Is_refl [simp]: "errors_Is e e"
  by (cases e) simp_all

subsection \<open>Orders\<close>

datatype side = Buy | Sell | OtherSide string

definition side_Valid :: "side \<Rightarrow> bool" where
  "side_Valid s \<longleftrightarrow> s = Buy \<or> s = Sell"

definition side_Opposite :: "side \<Rightarrow> side" where
  "side_Opposite s = (if s = Buy then Sell else Buy)"

datatype order_status =
    StatusNone | StatusOpen | StatusPartiallyFilled | StatusFilled | StatusCancelled | StatusRejected

definition status_Terminal :: "order_status \<Rightarrow> bool" where
  "status_Terminal s \<longleftrightarrow> s = StatusFilled \<or> s = StatusCancelled \<or> s = StatusRejected"

type_synonym time = int

record order =
  oID :: string
  oUserID :: string
  oSymbol :: string
  oSide :: side
  oPrice :: int
  oQuantity :: int
  oStatus :: order_status
  oFilledQuantity :: int
  oSequence :: int
  oCreatedAt :: time
  oUpdatedAt :: time

definition Remaining :: "order \<Rightarrow> int" where
  "Remaining o' = sub64 (oQuantity o') (oFilledQuantity o')"

definition ReservedCOP :: "order \<Rightarrow> int" where
  "ReservedCOP o' = (if oSide o' = Buy then mul64 (oPrice o') (oQuantity o') else 0)"

definition ReservedVibranium :: "order \<Rightarrow> int" where
  "ReservedVibranium o' = (if oSide o' = Sell then oQuantity o' else 0)"

text \<open>\<open>CloneOrder\<close> copies the struct: on values it is the identity.\<close>

definition CloneOrder :: "order \<Rightarrow> order" where
  "CloneOrder o' = o'"

definition Validate :: "order \<Rightarrow> goerr option" where
  "Validate o' =
     (if \<not> side_Valid (oSide o') then Some ErrInvalidSide
      else if oUserID o' = [] then Some ErrMissingUser
      else if oSymbol o' = [] then Some ErrMissingSymbol
      else if oPrice o' \<le> 0 then Some ErrInvalidPrice
      else if oQuantity o' \<le> 0 then Some ErrInvalidQuantity
      else None)"

subsection \<open>Trades\<close>

record trade =
  tID :: string
  tSymbol :: string
  tPrice :: int
  tQuantity :: int
  tBuyOrderID :: string
  tSellOrderID :: string
  tBuyerID :: string
  tSellerID :: string
  tSequence :: int
  tExecutedAt :: time

definition Notional :: "trade \<Rightarrow> int" where
  "Notional t = mul64 (tPrice t) (tQuantity t)"

subsection \<open>Events\<close>

datatype event_type = EventOrderAccepted | EventTrade | EventOrderUpdated

record event =
  eID :: string
  eType :: event_type
  eSequence :: int
  eAt :: time
  eTrade :: "trade option"
  eOrder :: "order option"
  eReleaseCOP :: int
  eReleaseVibranium :: int

subsection \<open>What validation guarantees\<close>

text \<open>
  \<open>fits\<close> says that the fields hold machine integers and that the value of the order at
  its limit price fits one. The code never checks the second part (the README lists it as
  a known gap); the properties that depend on it say so.
\<close>

definition fits :: "order \<Rightarrow> bool" where
  "fits o' \<longleftrightarrow> oQuantity o' \<le> max_i64 \<and> oPrice o' * oQuantity o' \<le> max_i64"

definition valid_new :: "order \<Rightarrow> bool" where
  "valid_new o' \<longleftrightarrow> Validate o' = None \<and> oFilledQuantity o' = 0 \<and> fits o'"

lemma Validate_None_iff:
  "Validate o' = None \<longleftrightarrow>
     (oSide o' = Buy \<or> oSide o' = Sell) \<and> oUserID o' \<noteq> [] \<and> oSymbol o' \<noteq> []
     \<and> 0 < oPrice o' \<and> 0 < oQuantity o'"
  by (auto simp: Validate_def side_Valid_def not_le)

lemma price_le_value: "0 < p \<Longrightarrow> 0 < q \<Longrightarrow> p \<le> p * q" for p q :: int
  by (simp add: mult_le_cancel_left1)

lemma ReservedCOP_exact [i64_simps]:
  "Validate o' = None \<Longrightarrow> fits o' \<Longrightarrow> oSide o' = Buy \<Longrightarrow> ReservedCOP o' = oPrice o' * oQuantity o'"
  by (simp add: ReservedCOP_def Validate_None_iff fits_def mul64_id i64_nonneg)

end
