(* ===== verification/Wallet.thy ===== *)
theory Wallet
  imports Domain
begin

section \<open>Wallets: the available/locked ledger of one user\<close>

text \<open>
  \<open>internal/core/domain/wallet.go\<close>. A method on \<open>*Wallet\<close> mutates its receiver and
  returns an error: here it maps the wallet to the error (if any) and the wallet as it is
  afterwards. The guards come in the order of the source.
\<close>

record wallet =
  wUserID :: string
  COPAvailable :: int
  COPLocked :: int
  VibraniumAvailable :: int
  VibraniumLocked :: int

type_synonym wallet_fn = "wallet \<Rightarrow> goerr option \<times> wallet"

definition ReserveCOP :: "int \<Rightarrow> wallet_fn" where
  "ReserveCOP amount w =
     (if amount < 0 then (Some ErrNegativeAmount, w)
      else if COPAvailable w < amount then (Some ErrInsufficientCOP, w)
      else (None, w\<lparr>COPAvailable := sub64 (COPAvailable w) amount,
                    COPLocked := add64 (COPLocked w) amount\<rparr>))"

definition ReserveVibranium :: "int \<Rightarrow> wallet_fn" where
  "ReserveVibranium amount w =
     (if amount < 0 then (Some ErrNegativeAmount, w)
      else if VibraniumAvailable w < amount then (Some ErrInsufficientVibranium, w)
      else (None, w\<lparr>VibraniumAvailable := sub64 (VibraniumAvailable w) amount,
                    VibraniumLocked := add64 (VibraniumLocked w) amount\<rparr>))"

definition ReleaseCOP :: "int \<Rightarrow> wallet_fn" where
  "ReleaseCOP amount w =
     (if amount < 0 then (Some ErrNegativeAmount, w)
      else if COPLocked w < amount then (Some ErrInsufficientLocked, w)
      else (None, w\<lparr>COPLocked := sub64 (COPLocked w) amount,
                    COPAvailable := add64 (COPAvailable w) amount\<rparr>))"

definition ReleaseVibranium :: "int \<Rightarrow> wallet_fn" where
  "ReleaseVibranium amount w =
     (if amount < 0 then (Some ErrNegativeAmount, w)
      else if VibraniumLocked w < amount then (Some ErrInsufficientLocked, w)
      else (None, w\<lparr>VibraniumLocked := sub64 (VibraniumLocked w) amount,
                    VibraniumAvailable := add64 (VibraniumAvailable w) amount\<rparr>))"

definition SettleBuy :: "int \<Rightarrow> int \<Rightarrow> wallet_fn" where
  "SettleBuy spent vibranium w =
     (if spent < 0 \<or> vibranium < 0 then (Some ErrNegativeAmount, w)
      else if COPLocked w < spent then (Some ErrInsufficientLocked, w)
      else (None, w\<lparr>COPLocked := sub64 (COPLocked w) spent,
                    VibraniumAvailable := add64 (VibraniumAvailable w) vibranium\<rparr>))"

definition SettleSell :: "int \<Rightarrow> int \<Rightarrow> wallet_fn" where
  "SettleSell vibranium received w =
     (if vibranium < 0 \<or> received < 0 then (Some ErrNegativeAmount, w)
      else if VibraniumLocked w < vibranium then (Some ErrInsufficientLocked, w)
      else (None, w\<lparr>VibraniumLocked := sub64 (VibraniumLocked w) vibranium,
                    COPAvailable := add64 (COPAvailable w) received\<rparr>))"

definition TotalCOP :: "wallet \<Rightarrow> int" where
  "TotalCOP w = add64 (COPAvailable w) (COPLocked w)"

definition TotalVibranium :: "wallet \<Rightarrow> int" where
  "TotalVibranium w = add64 (VibraniumAvailable w) (VibraniumLocked w)"

lemmas wallet_ops_defs =
  ReserveCOP_def ReserveVibranium_def ReleaseCOP_def ReleaseVibranium_def SettleBuy_def SettleSell_def

subsection \<open>The wallet invariant and the exact effect of each method\<close>

text \<open>
  No balance is negative and no total leaves the range of \<open>int64\<close>. Under it the methods
  compute without wrap-around, and the four that move funds inside one wallet keep it.
\<close>

definition wallet_ok :: "wallet \<Rightarrow> bool" where
  "wallet_ok w \<longleftrightarrow> 0 \<le> COPAvailable w \<and> 0 \<le> COPLocked w
     \<and> 0 \<le> VibraniumAvailable w \<and> 0 \<le> VibraniumLocked w
     \<and> COPAvailable w + COPLocked w \<le> max_i64
     \<and> VibraniumAvailable w + VibraniumLocked w \<le> max_i64"

lemma ReserveCOP_exact [i64_simps]:
  "wallet_ok w \<Longrightarrow> 0 \<le> a \<Longrightarrow> a \<le> COPAvailable w \<Longrightarrow>
   ReserveCOP a w = (None, w\<lparr>COPAvailable := COPAvailable w - a, COPLocked := COPLocked w + a\<rparr>)"
  by (simp add: ReserveCOP_def wallet_ok_def sub64_id add64_id i64_nonneg)

lemma ReserveVibranium_exact [i64_simps]:
  "wallet_ok w \<Longrightarrow> 0 \<le> a \<Longrightarrow> a \<le> VibraniumAvailable w \<Longrightarrow>
   ReserveVibranium a w = (None, w\<lparr>VibraniumAvailable := VibraniumAvailable w - a,
     VibraniumLocked := VibraniumLocked w + a\<rparr>)"
  by (simp add: ReserveVibranium_def wallet_ok_def sub64_id add64_id i64_nonneg)

lemma ReleaseCOP_exact [i64_simps]:
  "wallet_ok w \<Longrightarrow> 0 \<le> a \<Longrightarrow> a \<le> COPLocked w \<Longrightarrow>
   ReleaseCOP a w = (None, w\<lparr>COPLocked := COPLocked w - a, COPAvailable := COPAvailable w + a\<rparr>)"
  by (simp add: ReleaseCOP_def wallet_ok_def sub64_id add64_id i64_nonneg)

lemma ReleaseVibranium_exact [i64_simps]:
  "wallet_ok w \<Longrightarrow> 0 \<le> a \<Longrightarrow> a \<le> VibraniumLocked w \<Longrightarrow>
   ReleaseVibranium a w = (None, w\<lparr>VibraniumLocked := VibraniumLocked w - a,
     VibraniumAvailable := VibraniumAvailable w + a\<rparr>)"
  by (simp add: ReleaseVibranium_def wallet_ok_def sub64_id add64_id i64_nonneg)

lemma SettleBuy_exact [i64_simps]:
  "wallet_ok w \<Longrightarrow> 0 \<le> s \<Longrightarrow> 0 \<le> v \<Longrightarrow> s \<le> COPLocked w \<Longrightarrow> VibraniumAvailable w + v \<le> max_i64 \<Longrightarrow>
   SettleBuy s v w = (None, w\<lparr>COPLocked := COPLocked w - s,
     VibraniumAvailable := VibraniumAvailable w + v\<rparr>)"
  by (simp add: SettleBuy_def wallet_ok_def sub64_id add64_id i64_nonneg)

lemma SettleSell_exact [i64_simps]:
  "wallet_ok w \<Longrightarrow> 0 \<le> v \<Longrightarrow> 0 \<le> r \<Longrightarrow> v \<le> VibraniumLocked w \<Longrightarrow> COPAvailable w + r \<le> max_i64 \<Longrightarrow>
   SettleSell v r w = (None, w\<lparr>VibraniumLocked := VibraniumLocked w - v,
     COPAvailable := COPAvailable w + r\<rparr>)"
  by (simp add: SettleSell_def wallet_ok_def sub64_id add64_id i64_nonneg)

lemma Total_exact [i64_simps]:
  "wallet_ok w \<Longrightarrow> TotalCOP w = COPAvailable w + COPLocked w"
  "wallet_ok w \<Longrightarrow> TotalVibranium w = VibraniumAvailable w + VibraniumLocked w"
  by (simp_all add: TotalCOP_def TotalVibranium_def wallet_ok_def add64_id i64_nonneg)

text \<open>The methods as commands: their names as data, so that a sequence of them is a list.\<close>

datatype wallet_op =
    OpReserveCOP int | OpReserveVibranium int | OpReleaseCOP int | OpReleaseVibranium int

primrec wallet_step :: "wallet_op \<Rightarrow> wallet_fn" where
  "wallet_step (OpReserveCOP a) = ReserveCOP a"
| "wallet_step (OpReserveVibranium a) = ReserveVibranium a"
| "wallet_step (OpReleaseCOP a) = ReleaseCOP a"
| "wallet_step (OpReleaseVibranium a) = ReleaseVibranium a"

lemma wallet_error_unchanged:
  "fst (wallet_step op w) = Some e \<Longrightarrow> snd (wallet_step op w) = w"
  by (cases op) (auto simp: wallet_ops_defs split: if_splits)

lemma wallet_ok_move_COP:
  assumes "wallet_ok w" and "- COPLocked w \<le> a" and "a \<le> COPAvailable w"
  shows "wallet_ok (w\<lparr>COPAvailable := COPAvailable w - a, COPLocked := COPLocked w + a\<rparr>)"
    and "TotalCOP (w\<lparr>COPAvailable := COPAvailable w - a, COPLocked := COPLocked w + a\<rparr>) = TotalCOP w"
  using assms by (simp_all add: wallet_ok_def TotalCOP_def add64_def)

lemma wallet_ok_move_Vibranium:
  assumes "wallet_ok w" and "- VibraniumLocked w \<le> a" and "a \<le> VibraniumAvailable w"
  shows "wallet_ok (w\<lparr>VibraniumAvailable := VibraniumAvailable w - a,
      VibraniumLocked := VibraniumLocked w + a\<rparr>)"
    and "TotalVibranium (w\<lparr>VibraniumAvailable := VibraniumAvailable w - a,
      VibraniumLocked := VibraniumLocked w + a\<rparr>) = TotalVibranium w"
  using assms by (simp_all add: wallet_ok_def TotalVibranium_def add64_def)

lemma wallet_step_ok:
  assumes "wallet_ok w"
  shows "wallet_ok (snd (wallet_step op w))
    \<and> TotalCOP (snd (wallet_step op w)) = TotalCOP w
    \<and> TotalVibranium (snd (wallet_step op w)) = TotalVibranium w"
proof (cases "fst (wallet_step op w)")
  case (Some e)
  then show ?thesis using assms by (simp add: wallet_error_unchanged)
next
  case None
  then show ?thesis
  proof (cases op)
    case (OpReserveCOP a)
    with None have "0 \<le> a" "a \<le> COPAvailable w" by (auto simp: ReserveCOP_def split: if_splits)
    with assms OpReserveCOP wallet_ok_move_COP [OF assms, of a] show ?thesis
      by (simp add: i64_simps TotalVibranium_def wallet_ok_def)
  next
    case (OpReserveVibranium a)
    with None have "0 \<le> a" "a \<le> VibraniumAvailable w"
      by (auto simp: ReserveVibranium_def split: if_splits)
    with assms OpReserveVibranium wallet_ok_move_Vibranium [OF assms, of a] show ?thesis
      by (simp add: i64_simps TotalCOP_def wallet_ok_def)
  next
    case (OpReleaseCOP a)
    with None have "0 \<le> a" "a \<le> COPLocked w" by (auto simp: ReleaseCOP_def split: if_splits)
    with assms OpReleaseCOP wallet_ok_move_COP [OF assms, of "- a"] show ?thesis
      by (simp add: i64_simps TotalVibranium_def wallet_ok_def add.commute)
  next
    case (OpReleaseVibranium a)
    with None have "0 \<le> a" "a \<le> VibraniumLocked w"
      by (auto simp: ReleaseVibranium_def split: if_splits)
    with assms OpReleaseVibranium wallet_ok_move_Vibranium [OF assms, of "- a"] show ?thesis
      by (simp add: i64_simps TotalCOP_def wallet_ok_def add.commute)
  qed
qed

end
