(* ===== verification/Ports.thy ===== *)
theory Ports
  imports Wallet
begin

section \<open>Ports: the interfaces between the core and its adapters\<close>

text \<open>
  \<open>internal/core/port/outbound.go\<close> and \<open>telemetry.go\<close>. An interface value is a record of
  its methods. A method of a store takes the context and the adapter's state and returns
  the result and the new state, so that one definition of a service serves every adapter;
  an error result is a \<open>goerr option\<close>, a result of several values a sum. What the core
  relies on is stated as one locale per interface, with a view of the adapter's state as
  the core sees it: \<open>atomic\<close>, \<open>rolled back\<close>, \<open>append-only\<close> and \<open>recognized and skipped\<close>
  in the comments of the source are its laws. A context is live or done.
\<close>

datatype ctx = CtxLive | CtxDone

text \<open>
  What one round of a \<open>select\<close> loop over a channel takes: a value, the end of the channel, or
  the end of the context. Go chooses among the cases that are ready, so a loop may still take
  values when its context is done. A list of these is a run of the loop.
\<close>

datatype 'a choice = Received 'a | Closed | Cancelled

fun received :: "'a choice list \<Rightarrow> 'a list" where
  "received (Received x # cs) = x # received cs"
| "received cs = []"

lemma received_append [simp]: "received (map Received xs @ cs) = xs @ received cs"
  by (induction xs) simp_all

subsection \<open>Observability\<close>

text \<open>Calls on the \<open>Metrics\<close> port, in the order they are made.\<close>

datatype metric =
    MOrderPlaced side order_status int
  | MOrderRejected string
  | MTradeExecuted trade
  | MSettlementApplied event_type int "goerr option"
  | MMoneySupply int int

text \<open>\<open>time.Time.Sub\<close> saturates at the range of a duration.\<close>

definition time_Sub :: "time \<Rightarrow> time \<Rightarrow> int" where
  "time_Sub a b = max (- 9223372036854775808) (min max_i64 (a - b))"

lemma time_Sub_exact [i64_simps]: "i64 (a - b) \<Longrightarrow> time_Sub a b = a - b"
  by (simp add: time_Sub_def i64_def)

subsection \<open>The interfaces as records\<close>

record 'w WalletRepository =
  wr_Get :: "ctx \<Rightarrow> string \<Rightarrow> 'w \<Rightarrow> (goerr + wallet) \<times> 'w"
  wr_Upsert :: "ctx \<Rightarrow> wallet \<Rightarrow> 'w \<Rightarrow> goerr option \<times> 'w"
  wr_Update :: "ctx \<Rightarrow> string \<Rightarrow> wallet_fn \<Rightarrow> 'w \<Rightarrow> goerr option \<times> 'w"
  wr_List :: "ctx \<Rightarrow> 'w \<Rightarrow> (goerr + wallet list) \<times> 'w"

record 'j EventJournal =
  ej_MarkProcessed :: "ctx \<Rightarrow> string \<Rightarrow> 'j \<Rightarrow> (goerr + bool) \<times> 'j"

record 't TradeRepository =
  tr_Append :: "ctx \<Rightarrow> trade \<Rightarrow> 't \<Rightarrow> goerr option \<times> 't"
  tr_Recent :: "ctx \<Rightarrow> int \<Rightarrow> 't \<Rightarrow> (goerr + trade list) \<times> 't"
  tr_Count :: "ctx \<Rightarrow> 't \<Rightarrow> (goerr + int) \<times> 't"

record 'o OrderRepository =
  or_Upsert :: "ctx \<Rightarrow> order \<Rightarrow> 'o \<Rightarrow> goerr option \<times> 'o"
  or_Get :: "ctx \<Rightarrow> string \<Rightarrow> 'o \<Rightarrow> (goerr + order option) \<times> 'o"

text \<open>\<open>Publish\<close> on a closed channel panics: \<open>None\<close>.\<close>

record 'l EventLog =
  el_Publish :: "event \<Rightarrow> 'l \<Rightarrow> 'l option"
  el_Close :: "'l \<Rightarrow> 'l option"

text \<open>
  The engine runs in this process: when its goroutine panics the process is gone and no
  call returns, which is \<open>None\<close>. \<open>'b\<close> is the type of the depth view.
\<close>

record ('e, 'b) MatchingEngine =
  me_Place :: "ctx \<Rightarrow> order \<Rightarrow> 'e \<Rightarrow> ((goerr + order) \<times> 'e) option"
  me_Cancel :: "ctx \<Rightarrow> string \<Rightarrow> 'e \<Rightarrow> ((goerr + order) \<times> 'e) option"
  me_Depth :: "ctx \<Rightarrow> int \<Rightarrow> 'e \<Rightarrow> ((goerr + 'b) \<times> 'e) option"

subsection \<open>What a wallet repository promises\<close>

text \<open>
  An update of one wallet succeeds as a whole or changes nothing, whatever the reason it
  failed for. Every adapter has to promise this much, for the functions that the core passes:
  none of them renames the wallet (a table row cannot be renamed that way).
\<close>

definition keeps_user :: "wallet_fn \<Rightarrow> bool" where
  "keeps_user f \<longleftrightarrow> (\<forall>w. wUserID (snd (f w)) = wUserID w)"

lemma keeps_user_ops [simp, intro]:
  "keeps_user (ReserveCOP a)" "keeps_user (ReserveVibranium a)" "keeps_user (ReleaseCOP a)"
  "keeps_user (ReleaseVibranium a)" "keeps_user (SettleBuy a b)" "keeps_user (SettleSell a b)"
  by (simp_all add: keeps_user_def wallet_ops_defs)

locale wallet_ledger =
  fixes repo :: "'w WalletRepository"
    and view :: "'w \<Rightarrow> string \<Rightarrow> wallet option"
  assumes update_kept: "keeps_user f \<Longrightarrow> wr_Update repo c u f s = (None, s') \<Longrightarrow>
      \<exists>w. view s u = Some w \<and> fst (f w) = None \<and> view s' = (view s)(u \<mapsto> snd (f w))"
    and update_rolled_back: "wr_Update repo c u f s = (Some e, s') \<Longrightarrow> view s' = view s"
    and upsert_applied: "wr_Upsert repo c w s = (None, s') \<Longrightarrow> view s' = (view s)(wUserID w \<mapsto> w)"
    and upsert_failed: "wr_Upsert repo c w s = (Some e, s') \<Longrightarrow> view s' = view s"
    and get_view: "view (snd (wr_Get repo c u s)) = view s"
    and list_view: "view (snd (wr_List repo c s)) = view s"
begin

lemma update_other:
  "keeps_user f \<Longrightarrow> wr_Update repo c u f s = (r, s') \<Longrightarrow> v \<noteq> u \<Longrightarrow> view s' v = view s v"
  by (cases r) (auto dest: update_kept update_rolled_back)

lemma update_preserves:
  assumes "keeps_user f" and "wr_Update repo c u f s = (r, s')" and "\<And>w. view s u = Some w \<Longrightarrow> P w"
    and "\<And>w. P w \<Longrightarrow> fst (f w) = None \<Longrightarrow> P (snd (f w))" and "view s' u = Some w'"
  shows "P w'"
proof (cases r)
  case None
  with assms(1,2) obtain w where "view s u = Some w" "fst (f w) = None" "view s' = (view s)(u \<mapsto> snd (f w))"
    using update_kept by blast
  with assms show ?thesis by auto
next
  case (Some e)
  with assms update_rolled_back show ?thesis by fastforce
qed

lemma update_domain:
  "keeps_user f \<Longrightarrow> wr_Update repo c u f s = (r, s') \<Longrightarrow> dom (view s') = dom (view s)"
  by (cases r) (auto 0 3 dest!: update_kept update_rolled_back split: if_splits)

end

text \<open>
  A ledger that takes every update whose outcome has no negative balance. A table with
  \<open>CHECK\<close> constraints can promise no more; it is enough for the core, which never makes a
  negative balance.
\<close>

definition wallet_nonneg :: "wallet \<Rightarrow> bool" where
  "wallet_nonneg w \<longleftrightarrow> 0 \<le> COPAvailable w \<and> 0 \<le> COPLocked w \<and> 0 \<le> VibraniumAvailable w \<and> 0 \<le> VibraniumLocked w"

definition apply_view :: "string \<Rightarrow> wallet_fn \<Rightarrow> (string \<Rightarrow> wallet option) \<Rightarrow> (string \<Rightarrow> wallet option)" where
  "apply_view u f v = (case v u of None \<Rightarrow> v | Some w \<Rightarrow> if fst (f w) = None then v(u \<mapsto> snd (f w)) else v)"

definition stays_nonneg :: "string \<Rightarrow> wallet_fn \<Rightarrow> (string \<Rightarrow> wallet option) \<Rightarrow> bool" where
  "stays_nonneg u f v \<longleftrightarrow> (\<forall>w. v u = Some w \<and> fst (f w) = None \<longrightarrow> wallet_nonneg (snd (f w)))"

locale sound_wallet_ledger = wallet_ledger +
  assumes update_sound: "keeps_user f \<Longrightarrow> view s u = Some w \<Longrightarrow> fst (f w) = None \<Longrightarrow> wallet_nonneg (snd (f w)) \<Longrightarrow>
      fst (wr_Update repo c u f s) = None"
begin

lemma update_view:
  assumes "keeps_user f" and "stays_nonneg u f (view s)"
  shows "view (snd (wr_Update repo c u f s)) = apply_view u f (view s)"
proof -
  obtain r s' where u: "wr_Update repo c u f s = (r, s')" by fastforce
  show ?thesis
  proof (cases r)
    case None
    with u obtain w where "view s u = Some w" "fst (f w) = None" "view s' = (view s)(u \<mapsto> snd (f w))"
      using update_kept [OF assms(1)] by blast
    with u show ?thesis by (simp add: apply_view_def)
  next
    case (Some e)
    with u have "view s' = view s" using update_rolled_back by blast
    moreover have "fst (f w) \<noteq> None" if "view s u = Some w" for w
      using update_sound [OF assms(1) that, of c] assms(2) that u Some by (auto simp: stays_nonneg_def)
    ultimately show ?thesis using u by (auto simp: apply_view_def split: option.split)
  qed
qed

end

text \<open>A ledger that does not fail by itself: the in-memory store.\<close>

locale reliable_wallet_ledger = wallet_ledger +
  assumes update_applied: "wr_Update repo c u f s = (None, s') \<Longrightarrow>
      \<exists>w. view s u = Some w \<and> fst (f w) = None \<and> view s' = (view s)(u \<mapsto> snd (f w))"
    and update_missing: "view s u = None \<Longrightarrow> wr_Update repo c u f s = (Some ErrWalletNotFound, s)"
    and update_error: "view s u = Some w \<Longrightarrow> fst (f w) = Some e \<Longrightarrow> fst (wr_Update repo c u f s) = Some e"
    and update_works: "view s u = Some w \<Longrightarrow> fst (f w) = None \<Longrightarrow> fst (wr_Update repo c u f s) = None"
    and upsert_works: "fst (wr_Upsert repo c w s) = None"
    and get_works: "fst (wr_Get repo c u s) = (case view s u of None \<Rightarrow> Inl ErrWalletNotFound | Some w \<Rightarrow> Inr w)"
begin

lemma update_exact:
  assumes "view s u = Some w"
  shows "fst (wr_Update repo c u f s) = fst (f w)"
    and "view (snd (wr_Update repo c u f s)) = (if fst (f w) = None then (view s)(u \<mapsto> snd (f w)) else view s)"
proof -
  obtain r s' where u: "wr_Update repo c u f s = (r, s')" by fastforce
  show r: "fst (wr_Update repo c u f s) = fst (f w)"
    using update_error [OF assms] update_works [OF assms] by (cases "fst (f w)") auto
  show "view (snd (wr_Update repo c u f s)) = (if fst (f w) = None then (view s)(u \<mapsto> snd (f w)) else view s)"
    using u r assms update_applied [of c u f s s'] update_rolled_back [of c u f s _ s']
    by (cases r) auto
qed

end

sublocale reliable_wallet_ledger \<subseteq> sound_wallet_ledger
  by unfold_locales (rule update_works)

subsection \<open>What the other interfaces promise\<close>

text \<open>A call that reports an error may have recorded the identifier: an answer can get lost.\<close>

locale event_journal =
  fixes journal :: "'j EventJournal" and processed :: "'j \<Rightarrow> string set"
  assumes mark_new: "ej_MarkProcessed journal c i s = (Inr True, s') \<Longrightarrow>
      i \<notin> processed s \<and> processed s' = insert i (processed s)"
    and mark_dup: "ej_MarkProcessed journal c i s = (Inr False, s') \<Longrightarrow>
      i \<in> processed s \<and> processed s' = processed s"
    and mark_failed: "ej_MarkProcessed journal c i s = (Inl e, s') \<Longrightarrow>
      processed s' = processed s \<or> processed s' = insert i (processed s)"
begin

text \<open>What turns at-least-once delivery into one effect: an identifier is new at most once.\<close>

lemma marked_is_never_new:
  "i \<in> processed s \<Longrightarrow> fst (ej_MarkProcessed journal c i s) \<noteq> Inr True"
  using mark_new by (metis prod.collapse)

lemma processed_mono: "processed s \<subseteq> processed (snd (ej_MarkProcessed journal c i s))"
  using mark_new mark_dup mark_failed
  by (cases "ej_MarkProcessed journal c i s"; cases "fst (ej_MarkProcessed journal c i s)"; cases "projr (fst (ej_MarkProcessed journal c i s))")
    fastforce+

end

text \<open>A journal that does not fail by itself.\<close>

locale reliable_journal = event_journal +
  assumes mark_total: "fst (ej_MarkProcessed journal c i s) = Inr (i \<notin> processed s)"
begin

lemma mark_processed: "processed (snd (ej_MarkProcessed journal c i s)) = insert i (processed s)"
proof -
  obtain r j where r: "ej_MarkProcessed journal c i s = (r, j)" by fastforce
  with mark_total [of c i s] have "r = Inr (i \<notin> processed s)" by simp
  with r mark_new [of c i s j] mark_dup [of c i s j] show ?thesis by (cases "i \<in> processed s") auto
qed

end

locale trade_history =
  fixes repo :: "'t TradeRepository" and history :: "'t \<Rightarrow> trade list"
  assumes append_ok: "tr_Append repo c t s = (None, s') \<Longrightarrow> history s' = history s @ [t]"
    and append_failed: "tr_Append repo c t s = (Some e, s') \<Longrightarrow> history s' = history s"
    and recent_history: "history (snd (tr_Recent repo c n s)) = history s"
    and recent_result: "fst (tr_Recent repo c n s) = Inr ts \<Longrightarrow>
      ts = (if n \<le> 0 then rev (history s) else take (nat n) (rev (history s)))"
    and count_result: "fst (tr_Count repo c s) = Inr k \<Longrightarrow> k = int (length (history s))"
begin

lemma recent_newest:
  assumes "tr_Append repo c t s = (None, s')" and "n > 0" and "fst (tr_Recent repo c n s') = Inr ts"
  shows "\<exists>ts'. ts = t # ts'"
  using append_ok [OF assms(1)] recent_result [OF assms(3)] assms(2) by (cases "nat n") auto

end

locale order_projection =
  fixes repo :: "'o OrderRepository" and view :: "'o \<Rightarrow> string \<Rightarrow> order option"
  assumes upsert_ok: "or_Upsert repo c x s = (None, s') \<Longrightarrow> view s' = (view s)(oID x \<mapsto> x)"
    and upsert_failed: "or_Upsert repo c x s = (Some e, s') \<Longrightarrow> view s' = view s"
    and get_result: "fst (or_Get repo c i s) = Inr r \<Longrightarrow> r = view s i"
    and get_view: "view (snd (or_Get repo c i s)) = view s"

locale event_sink =
  fixes elog :: "'l EventLog" and published :: "'l \<Rightarrow> event list" and closed :: "'l \<Rightarrow> bool"
  assumes publish_open: "\<not> closed s \<Longrightarrow> \<exists>s'. el_Publish elog ev s = Some s'
      \<and> published s' = published s @ [ev] \<and> \<not> closed s'"
    and publish_closed: "closed s \<Longrightarrow> el_Publish elog ev s = None"
    and close_closes: "el_Close elog s = Some s' \<Longrightarrow> closed s'"

end
