(* ===== verification/Memstore.thy ===== *)
theory Memstore
  imports Ports "HOL-Library.AList" "HOL-Library.List_Lexorder" "HOL-Library.Char_ord"
    "HOL-Library.Multiset"
begin

section \<open>The in-memory adapters\<close>

text \<open>
  \<open>internal/adapter/driven/memstore\<close> and \<open>memlog\<close>. A Go map is an association list with
  distinct keys (what is observable of it is its \<open>map_of\<close>; \<open>List\<close> sorts, so its order
  never shows). Every method holds the mutex from entry to exit: it is one step. No method
  looks at its context.
\<close>

subsection \<open>Wallets\<close>

record WalletStore =
  ws_wallets :: "(string \<times> wallet) list"

definition NewWalletStore :: WalletStore where
  "NewWalletStore = \<lparr>ws_wallets = []\<rparr>"

definition WalletStore_Get :: "ctx \<Rightarrow> string \<Rightarrow> WalletStore \<Rightarrow> (goerr + wallet) \<times> WalletStore" where
  "WalletStore_Get c u s =
     (case map_of (ws_wallets s) u of
        None \<Rightarrow> (Inl ErrWalletNotFound, s)
      | Some w \<Rightarrow> (Inr w, s))"

definition WalletStore_Upsert :: "ctx \<Rightarrow> wallet \<Rightarrow> WalletStore \<Rightarrow> goerr option \<times> WalletStore" where
  "WalletStore_Upsert c w s = (None, s\<lparr>ws_wallets := AList.update (wUserID w) w (ws_wallets s)\<rparr>)"

text \<open>
  The function runs on the stored wallet itself; when it reports an error the copy taken
  before is written back over whatever it did.
\<close>

definition WalletStore_Update :: "ctx \<Rightarrow> string \<Rightarrow> wallet_fn \<Rightarrow> WalletStore \<Rightarrow> goerr option \<times> WalletStore" where
  "WalletStore_Update c u f s =
     (case map_of (ws_wallets s) u of
        None \<Rightarrow> (Some ErrWalletNotFound, s)
      | Some w \<Rightarrow>
          (let snapshot = w;
               (err, w1) = f w;
               s1 = s\<lparr>ws_wallets := AList.update u w1 (ws_wallets s)\<rparr>
           in case err of
                Some e \<Rightarrow> (Some e, s1\<lparr>ws_wallets := AList.update u snapshot (ws_wallets s1)\<rparr>)
              | None \<Rightarrow> (None, s1)))"

definition WalletStore_List :: "ctx \<Rightarrow> WalletStore \<Rightarrow> (goerr + wallet list) \<times> WalletStore" where
  "WalletStore_List c s = (Inr (sort_key wUserID (map snd (ws_wallets s))), s)"

definition mem_wallets :: "WalletStore WalletRepository" where
  "mem_wallets = \<lparr>wr_Get = WalletStore_Get, wr_Upsert = WalletStore_Upsert,
     wr_Update = WalletStore_Update, wr_List = WalletStore_List\<rparr>"

definition ws_view :: "WalletStore \<Rightarrow> string \<Rightarrow> wallet option" where
  "ws_view s = map_of (ws_wallets s)"

lemma map_of_update: "map_of (AList.update k v xs) = (map_of xs)(k \<mapsto> v)"
  by (simp add: AList.update_conv')

lemma mem_wallets_simps [simp]:
  "wr_Get mem_wallets = WalletStore_Get" "wr_Upsert mem_wallets = WalletStore_Upsert"
  "wr_Update mem_wallets = WalletStore_Update" "wr_List mem_wallets = WalletStore_List"
  by (simp_all add: mem_wallets_def)

interpretation mem_ledger: reliable_wallet_ledger mem_wallets ws_view
  by unfold_locales
    (auto simp: WalletStore_Update_def WalletStore_Upsert_def WalletStore_Get_def WalletStore_List_def
      ws_view_def map_of_update Let_def split: option.splits prod.splits)

text \<open>
  The keys stay distinct and each wallet stays under its own user, so \<open>List\<close> returns every
  wallet once, sorted by user.
\<close>

definition ws_wf :: "WalletStore \<Rightarrow> bool" where
  "ws_wf s \<longleftrightarrow> distinct (map fst (ws_wallets s)) \<and> (\<forall>(u, w)\<in>set (ws_wallets s). wUserID w = u)"

lemma ws_wf_view: "ws_wf s \<Longrightarrow> ws_view s u = Some w \<Longrightarrow> wUserID w = u"
  by (auto simp: ws_wf_def ws_view_def dest: map_of_SomeD)

lemma ws_wf_New: "ws_wf NewWalletStore"
  by (simp add: ws_wf_def NewWalletStore_def)

lemma set_update_subset: "set (AList.update k v xs) \<subseteq> insert (k, v) (set xs)"
  by (induction xs) auto

lemma ws_wf_update:
  "ws_wf s \<Longrightarrow> wUserID w = u \<Longrightarrow> ws_wf (s\<lparr>ws_wallets := AList.update u w (ws_wallets s)\<rparr>)"
  using set_update_subset [of u w "ws_wallets s"] by (auto simp: ws_wf_def distinct_update)

lemma ws_wf_Upsert: "ws_wf s \<Longrightarrow> ws_wf (snd (WalletStore_Upsert c w s))"
  by (simp add: WalletStore_Upsert_def ws_wf_update)

lemma ws_wf_Update:
  assumes "ws_wf s" and f: "\<And>w. wUserID (snd (f w)) = wUserID w"
  shows "ws_wf (snd (WalletStore_Update c u f s))"
proof (cases "map_of (ws_wallets s) u")
  case None
  with assms show ?thesis by (simp add: WalletStore_Update_def)
next
  case (Some w)
  then have u: "wUserID w = u" using assms(1) by (auto simp: ws_wf_def dest: map_of_SomeD)
  with f [of w] have w1: "wUserID (snd (f w)) = u" by simp
  note 1 = ws_wf_update [OF assms(1) w1] and 2 = ws_wf_update [OF ws_wf_update [OF assms(1) w1] u]
  from Some 1 2 show ?thesis
    by (auto simp: WalletStore_Update_def Let_def split: prod.splits option.splits)
qed

lemma List_sorted:
  assumes "fst (WalletStore_List c s) = Inr ws" and "ws_wf s"
  shows "sorted (map wUserID ws)" and "distinct (map wUserID ws)"
    and "set ws = {w. \<exists>u. ws_view s u = Some w}"
proof -
  have ws: "ws = sort_key wUserID (map snd (ws_wallets s))" using assms(1) by (simp add: WalletStore_List_def)
  then show "sorted (map wUserID ws)" by simp
  have "map wUserID (map snd (ws_wallets s)) = map fst (ws_wallets s)"
    using assms(2) by (auto simp: ws_wf_def)
  then have "distinct (map wUserID (map snd (ws_wallets s)))"
    using assms(2) unfolding ws_wf_def by metis
  moreover have "mset (map wUserID ws) = mset (map wUserID (map snd (ws_wallets s)))"
    unfolding ws by (simp only: mset_map mset_sort)
  ultimately show "distinct (map wUserID ws)" using mset_eq_imp_distinct_iff by metis
  show "set ws = {w. \<exists>u. ws_view s u = Some w}"
    using assms(2) by (auto simp: ws ws_view_def ws_wf_def intro: map_of_is_SomeI rev_image_eqI dest: map_of_SomeD)
qed

subsection \<open>Journal\<close>

record Journal =
  jr_seen :: "string list"

definition NewJournal :: Journal where
  "NewJournal = \<lparr>jr_seen = []\<rparr>"

definition Journal_MarkProcessed :: "ctx \<Rightarrow> string \<Rightarrow> Journal \<Rightarrow> (goerr + bool) \<times> Journal" where
  "Journal_MarkProcessed c eventID j =
     (if eventID \<in> set (jr_seen j) then (Inr False, j)
      else (Inr True, j\<lparr>jr_seen := eventID # jr_seen j\<rparr>))"

definition mem_journal :: "Journal EventJournal" where
  "mem_journal = \<lparr>ej_MarkProcessed = Journal_MarkProcessed\<rparr>"

lemma mem_journal_simps [simp]: "ej_MarkProcessed mem_journal = Journal_MarkProcessed"
  by (simp add: mem_journal_def)

interpretation mem_marks: reliable_journal mem_journal "\<lambda>j. set (jr_seen j)"
  by unfold_locales (auto simp: Journal_MarkProcessed_def split: if_splits)

subsection \<open>Order projection\<close>

record OrderStore =
  os_orders :: "(string \<times> order) list"

definition NewOrderStore :: OrderStore where
  "NewOrderStore = \<lparr>os_orders = []\<rparr>"

definition OrderStore_Upsert :: "ctx \<Rightarrow> order \<Rightarrow> OrderStore \<Rightarrow> goerr option \<times> OrderStore" where
  "OrderStore_Upsert c x s = (None, s\<lparr>os_orders := AList.update (oID x) x (os_orders s)\<rparr>)"

definition OrderStore_Get :: "ctx \<Rightarrow> string \<Rightarrow> OrderStore \<Rightarrow> (goerr + order option) \<times> OrderStore" where
  "OrderStore_Get c i s = (Inr (map_of (os_orders s) i), s)"

definition mem_orders :: "OrderStore OrderRepository" where
  "mem_orders = \<lparr>or_Upsert = OrderStore_Upsert, or_Get = OrderStore_Get\<rparr>"

lemma mem_orders_simps [simp]: "or_Upsert mem_orders = OrderStore_Upsert" "or_Get mem_orders = OrderStore_Get"
  by (simp_all add: mem_orders_def)

interpretation mem_projection: order_projection mem_orders "\<lambda>s. map_of (os_orders s)"
  by unfold_locales (auto simp: OrderStore_Upsert_def OrderStore_Get_def map_of_update)

subsection \<open>Trade history\<close>

record TradeStore =
  ts_trades :: "trade list"

definition NewTradeStore :: TradeStore where
  "NewTradeStore = \<lparr>ts_trades = []\<rparr>"

definition TradeStore_Append :: "ctx \<Rightarrow> trade \<Rightarrow> TradeStore \<Rightarrow> goerr option \<times> TradeStore" where
  "TradeStore_Append c t s = (None, s\<lparr>ts_trades := ts_trades s @ [t]\<rparr>)"

text \<open>The loop \<open>for i := n - 1; i >= n-limit; i--\<close>.\<close>

function recent_loop :: "trade list \<Rightarrow> int \<Rightarrow> int \<Rightarrow> trade list \<Rightarrow> trade list" where
  "recent_loop ts i last' out =
     (if i \<ge> last' then recent_loop ts (i - 1) last' (out @ [ts ! nat i]) else out)"
  by pat_completeness auto
termination
  by (relation "measure (\<lambda>(ts, i, last', out). nat (i + 1 - last'))") auto

declare recent_loop.simps [simp del]

definition TradeStore_Recent :: "ctx \<Rightarrow> int \<Rightarrow> TradeStore \<Rightarrow> (goerr + trade list) \<times> TradeStore" where
  "TradeStore_Recent c limit s =
     (let n = int (length (ts_trades s));
          limit1 = (if limit \<le> 0 \<or> limit > n then n else limit)
      in (Inr (recent_loop (ts_trades s) (n - 1) (n - limit1) []), s))"

definition TradeStore_Count :: "ctx \<Rightarrow> TradeStore \<Rightarrow> (goerr + int) \<times> TradeStore" where
  "TradeStore_Count c s = (Inr (int (length (ts_trades s))), s)"

definition mem_trades :: "TradeStore TradeRepository" where
  "mem_trades = \<lparr>tr_Append = TradeStore_Append, tr_Recent = TradeStore_Recent, tr_Count = TradeStore_Count\<rparr>"

lemma mem_trades_simps [simp]:
  "tr_Append mem_trades = TradeStore_Append" "tr_Recent mem_trades = TradeStore_Recent"
  "tr_Count mem_trades = TradeStore_Count"
  by (simp_all add: mem_trades_def)

lemma recent_loop_eq:
  "n \<le> length ts \<Longrightarrow> k \<le> n \<Longrightarrow>
   recent_loop ts (int n - 1) (int n - int k) out = out @ take k (rev (take n ts))"
proof (induction k arbitrary: n out)
  case 0
  then show ?case by (simp add: recent_loop.simps)
next
  case (Suc k)
  then obtain m where m: "n = Suc m" by (cases n) auto
  with Suc.prems have "recent_loop ts (int n - 1) (int n - int (Suc k)) out
      = recent_loop ts (int m - 1) (int m - int k) (out @ [ts ! m])"
    by (subst recent_loop.simps) simp
  also have "\<dots> = (out @ [ts ! m]) @ take k (rev (take m ts))"
    using Suc.prems m by (intro Suc.IH) auto
  also have "\<dots> = out @ take (Suc k) (rev (take n ts))"
    using Suc.prems m by (simp add: take_Suc_conv_app_nth)
  finally show ?case .
qed

lemma TradeStore_Recent_eq:
  "fst (TradeStore_Recent c limit s)
     = Inr (if limit \<le> 0 then rev (ts_trades s) else take (nat limit) (rev (ts_trades s)))"
proof -
  let ?n = "length (ts_trades s)"
  define k where "k = (if limit \<le> 0 \<or> limit > int ?n then ?n else nat limit)"
  have "k \<le> ?n" by (auto simp: k_def)
  then have "recent_loop (ts_trades s) (int ?n - 1) (int ?n - int k) [] = take k (rev (ts_trades s))"
    using recent_loop_eq [of ?n "ts_trades s" k "[]"] by simp
  moreover have "(if limit \<le> 0 \<or> limit > int ?n then int ?n else limit) = int k"
    by (auto simp: k_def)
  ultimately show ?thesis
    by (auto simp: TradeStore_Recent_def Let_def k_def)
qed

interpretation mem_history: trade_history mem_trades ts_trades
proof
  show "fst (tr_Recent mem_trades c n s) = Inr ts \<Longrightarrow>
      ts = (if n \<le> 0 then rev (ts_trades s) else take (nat n) (rev (ts_trades s)))" for c n s ts
    using TradeStore_Recent_eq [of c n s] by simp
qed (auto simp: TradeStore_Append_def TradeStore_Count_def TradeStore_Recent_def Let_def)

subsection \<open>The event log\<close>

text \<open>
  \<open>memlog.Log\<close> is a buffered channel. Its state is what was sent and not yet received, in
  order, and whether it is closed. A full buffer makes the sender wait for the receiver; the
  waiting engine has no step then, and what is sent and received is the same, so the
  capacity only bounds how far the two drift apart.
\<close>

record Log =
  lg_cap :: int
  lg_ch :: "event list"
  lg_closed :: bool

definition NewLog :: "int \<Rightarrow> Log" where
  "NewLog buffer = \<lparr>lg_cap = (if buffer \<le> 0 then 65536 else buffer), lg_ch = [], lg_closed = False\<rparr>"

definition Log_Publish :: "event \<Rightarrow> Log \<Rightarrow> Log option" where
  "Log_Publish ev l = (if lg_closed l then None else Some (l\<lparr>lg_ch := lg_ch l @ [ev]\<rparr>))"

text \<open>Closing twice panics.\<close>

definition Log_Close :: "Log \<Rightarrow> Log option" where
  "Log_Close l = (if lg_closed l then None else Some (l\<lparr>lg_closed := True\<rparr>))"

text \<open>\<open>ev, ok := <-l.ch\<close>: \<open>None\<close> when nothing is there to receive yet.\<close>

definition Log_recv :: "Log \<Rightarrow> (event option \<times> Log) option" where
  "Log_recv l =
     (case lg_ch l of
        ev # evs \<Rightarrow> Some (Some ev, l\<lparr>lg_ch := evs\<rparr>)
      | [] \<Rightarrow> if lg_closed l then Some (None, l) else None)"

definition mem_log :: "Log EventLog" where
  "mem_log = \<lparr>el_Publish = Log_Publish, el_Close = Log_Close\<rparr>"

lemma mem_log_simps [simp]: "el_Publish mem_log = Log_Publish" "el_Close mem_log = Log_Close"
  by (simp_all add: mem_log_def)

interpretation mem_sink: event_sink mem_log lg_ch lg_closed
  by unfold_locales (auto simp: Log_Publish_def Log_Close_def split: if_splits)

end
