(* ===== verification/Trading.thy ===== *)
theory Trading
  imports Memstore
begin

section \<open>Trading: reserve, submit, compensate\<close>

text \<open>
  \<open>internal/core/service/trading.go\<close>. The service is a record of its ports; the states
  behind them and the calls on \<open>Metrics\<close> are \<open>trading_state\<close>. \<open>PlaceOrder\<close> is cut where it
  hands over to the engine: \<open>accept\<close> is everything before \<open>t.engine.Place\<close> and \<open>complete\<close>
  everything after it, so that other requests can run between them. Random bytes and clock
  readings are arguments.
\<close>

record PlaceOrderCommand =
  pcUserID :: string
  pcSide :: side
  pcPrice :: int
  pcQuantity :: int

record ('w, 'e, 'o, 'b) Trading =
  tdSymbol :: string
  tdEngine :: "('e, 'b) MatchingEngine"
  tdWallets :: "'w WalletRepository"
  tdOrders :: "'o OrderRepository"

definition NewTrading :: "string \<Rightarrow> ('e, 'b) MatchingEngine \<Rightarrow> 'w WalletRepository \<Rightarrow> 'o OrderRepository
    \<Rightarrow> ('w, 'e, 'o, 'b) Trading" where
  "NewTrading symbol engine wallets orders =
     \<lparr>tdSymbol = symbol, tdEngine = engine, tdWallets = wallets, tdOrders = orders\<rparr>"

record ('w, 'e, 'o) trading_state =
  tsWallets :: 'w
  tsEngine :: 'e
  tsOrders :: 'o
  tsMetrics :: "metric list"

text \<open>The two results of \<open>PlaceOrder\<close>: an order or nil, an error or nil.\<close>

type_synonym place_result = "order option \<times> goerr option"

definition generateID :: "string \<Rightarrow> nat list \<Rightarrow> string" where
  "generateID prefix bytes = prefix @ ''-'' @ hex_EncodeToString bytes"

definition new_order :: "string \<Rightarrow> nat list \<Rightarrow> time \<Rightarrow> PlaceOrderCommand \<Rightarrow> order" where
  "new_order symbol bytes createdAt cmd =
     \<lparr>oID = generateID ''ord'' bytes, oUserID = pcUserID cmd, oSymbol = symbol, oSide = pcSide cmd,
      oPrice = pcPrice cmd, oQuantity = pcQuantity cmd, oStatus = StatusNone, oFilledQuantity = 0,
      oSequence = 0, oCreatedAt = createdAt, oUpdatedAt = 0\<rparr>"

definition reserve_fn :: "order \<Rightarrow> wallet_fn" where
  "reserve_fn o' w = (if oSide o' = Buy then ReserveCOP (ReservedCOP o') w
     else ReserveVibranium (ReservedVibranium o') w)"

definition release_fn :: "order \<Rightarrow> wallet_fn" where
  "release_fn o' w = (if oSide o' = Buy then ReleaseCOP (ReservedCOP o') w
     else ReleaseVibranium (ReservedVibranium o') w)"

definition reserve :: "('w, 'e, 'o, 'b) Trading \<Rightarrow> ctx \<Rightarrow> order \<Rightarrow> ('w, 'e, 'o) trading_state
    \<Rightarrow> goerr option \<times> ('w, 'e, 'o) trading_state" where
  "reserve T c o' s =
     (let (err, ws) = wr_Update (tdWallets T) c (oUserID o') (reserve_fn o') (tsWallets s)
      in (err, s\<lparr>tsWallets := ws\<rparr>))"

text \<open>The context of the compensation is detached from that of the request: it is live.\<close>

definition release :: "('w, 'e, 'o, 'b) Trading \<Rightarrow> order \<Rightarrow> ('w, 'e, 'o) trading_state
    \<Rightarrow> ('w, 'e, 'o) trading_state" where
  "release T o' s = s\<lparr>tsWallets :=
     snd (wr_Update (tdWallets T) CtxLive (oUserID o') (release_fn o') (tsWallets s))\<rparr>"

definition observe :: "metric \<Rightarrow> ('w, 'e, 'o) trading_state \<Rightarrow> ('w, 'e, 'o) trading_state" where
  "observe m s = s\<lparr>tsMetrics := tsMetrics s @ [m]\<rparr>"

definition accept :: "('w, 'e, 'o, 'b) Trading \<Rightarrow> ctx \<Rightarrow> nat list \<Rightarrow> time \<Rightarrow> PlaceOrderCommand
    \<Rightarrow> ('w, 'e, 'o) trading_state \<Rightarrow> (place_result + order) \<times> ('w, 'e, 'o) trading_state" where
  "accept T c bytes createdAt cmd s =
     (let order = new_order (tdSymbol T) bytes createdAt cmd
      in case Validate order of
           Some err \<Rightarrow> (Inl (None, Some err), observe (MOrderRejected ''validation'') s)
         | None \<Rightarrow>
             (let (r, s1) = reserve T c order s
              in case r of
                   None \<Rightarrow> (Inr order, s1)
                 | Some err \<Rightarrow>
                     if errors_Is err ErrInsufficientCOP \<or> errors_Is err ErrInsufficientVibranium then
                       (Inl (Some (order\<lparr>oStatus := StatusRejected\<rparr>), Some err),
                        observe (MOrderRejected ''insufficient_funds'') s1)
                     else if errors_Is err ErrWalletNotFound then
                       (Inl (None, Some err), observe (MOrderRejected ''wallet_not_found'') s1)
                     else
                       (Inl (None, Some (ErrWrap ErrReservationFailed err)),
                        observe (MOrderRejected ''wallet_store_unavailable'') s1)))"

definition complete :: "('w, 'e, 'o, 'b) Trading \<Rightarrow> order \<Rightarrow> goerr + order \<Rightarrow> time \<Rightarrow> time
    \<Rightarrow> ('w, 'e, 'o) trading_state \<Rightarrow> place_result \<times> ('w, 'e, 'o) trading_state" where
  "complete T order r started finished s =
     (case r of
        Inl err \<Rightarrow> ((None, Some err), observe (MOrderRejected ''engine_unavailable'') (release T order s))
      | Inr result \<Rightarrow>
          ((Some result, None),
           observe (MOrderPlaced (oSide result) (oStatus result) (time_Sub finished started)) s))"

definition PlaceOrder :: "('w, 'e, 'o, 'b) Trading \<Rightarrow> ctx \<Rightarrow> nat list \<Rightarrow> (nat \<Rightarrow> time) \<Rightarrow> PlaceOrderCommand
    \<Rightarrow> ('w, 'e, 'o) trading_state \<Rightarrow> (place_result \<times> ('w, 'e, 'o) trading_state) option" where
  "PlaceOrder T c bytes now cmd s =
     (let (r, s1) = accept T c bytes (now 1) cmd s
      in case r of
           Inl res \<Rightarrow> Some (res, s1)
         | Inr order \<Rightarrow>
             map_option (\<lambda>(er, eng). complete T order er (now 0) (now 2) (s1\<lparr>tsEngine := eng\<rparr>))
               (me_Place (tdEngine T) c order (tsEngine s1)))"

definition CancelOrder :: "('w, 'e, 'o, 'b) Trading \<Rightarrow> ctx \<Rightarrow> string \<Rightarrow> ('w, 'e, 'o) trading_state
    \<Rightarrow> ((goerr + order) \<times> ('w, 'e, 'o) trading_state) option" where
  "CancelOrder T c orderID s =
     map_option (\<lambda>(r, eng). (r, s\<lparr>tsEngine := eng\<rparr>)) (me_Cancel (tdEngine T) c orderID (tsEngine s))"

definition GetOrder :: "('w, 'e, 'o, 'b) Trading \<Rightarrow> ctx \<Rightarrow> string \<Rightarrow> ('w, 'e, 'o) trading_state
    \<Rightarrow> (goerr + order option) \<times> ('w, 'e, 'o) trading_state" where
  "GetOrder T c orderID s =
     (let (r, os) = or_Get (tdOrders T) c orderID (tsOrders s) in (r, s\<lparr>tsOrders := os\<rparr>))"

subsection \<open>Reservation and compensation on one wallet\<close>

lemma reserve_fn_errors:
  assumes "Validate o' = None" and "fits o'"
  shows "fst (reserve_fn o' w) \<in> {None, Some ErrInsufficientCOP, Some ErrInsufficientVibranium}"
  using assms
  by (auto simp: reserve_fn_def ReserveCOP_def ReserveVibranium_def ReservedCOP_exact ReservedVibranium_def
      Validate_None_iff mult_less_0_iff)

lemma reserve_fn_user [simp]: "wUserID (snd (reserve_fn o' w)) = wUserID w"
  by (simp add: reserve_fn_def ReserveCOP_def ReserveVibranium_def)

lemma release_fn_user [simp]: "wUserID (snd (release_fn o' w)) = wUserID w"
  by (simp add: release_fn_def ReleaseCOP_def ReleaseVibranium_def)

text \<open>The compensation undoes the reservation exactly, also when other requests ran in between.\<close>

lemma reserve_release:
  assumes "wallet_ok w" and "Validate o' = None" and "fits o'" and "fst (reserve_fn o' w) = None"
  shows "release_fn o' (snd (reserve_fn o' w)) = (None, w)"
proof (cases "oSide o' = Buy")
  case True
  let ?a = "ReservedCOP o'"
  have a: "0 \<le> ?a" "?a \<le> COPAvailable w"
    using assms True by (auto simp: reserve_fn_def ReserveCOP_def split: if_splits)
  have r: "reserve_fn o' w = (None, w\<lparr>COPAvailable := COPAvailable w - ?a, COPLocked := COPLocked w + ?a\<rparr>)"
    using True a assms(1) by (simp add: reserve_fn_def i64_simps)
  have "wallet_ok (w\<lparr>COPAvailable := COPAvailable w - ?a, COPLocked := COPLocked w + ?a\<rparr>)"
    using assms(1) a by (intro wallet_ok_move_COP(1)) (auto simp: wallet_ok_def)
  with True a assms(1) show ?thesis
    by (simp add: r release_fn_def ReleaseCOP_exact wallet_ok_def)
next
  case False
  let ?a = "ReservedVibranium o'"
  have a: "0 \<le> ?a" "?a \<le> VibraniumAvailable w"
    using assms False by (auto simp: reserve_fn_def ReserveVibranium_def split: if_splits)
  have r: "reserve_fn o' w = (None, w\<lparr>VibraniumAvailable := VibraniumAvailable w - ?a,
      VibraniumLocked := VibraniumLocked w + ?a\<rparr>)"
    using False a assms(1) by (simp add: reserve_fn_def i64_simps)
  have "wallet_ok (w\<lparr>VibraniumAvailable := VibraniumAvailable w - ?a, VibraniumLocked := VibraniumLocked w + ?a\<rparr>)"
    using assms(1) a by (intro wallet_ok_move_Vibranium(1)) (auto simp: wallet_ok_def)
  with False a assms(1) show ?thesis
    by (simp add: r release_fn_def ReleaseVibranium_exact wallet_ok_def)
qed

subsection \<open>What the service does to the ledger\<close>

lemma accept_order:
  "accept T c bytes t cmd s = (Inr o', s1) \<Longrightarrow> o' = new_order (tdSymbol T) bytes t cmd \<and> Validate o' = None"
  by (auto simp: accept_def Let_def split: option.splits prod.splits if_splits)

lemma new_order_fields [simp]:
  "oID (new_order sy bytes t cmd) = generateID ''ord'' bytes" "oUserID (new_order sy bytes t cmd) = pcUserID cmd"
  "oSide (new_order sy bytes t cmd) = pcSide cmd" "oPrice (new_order sy bytes t cmd) = pcPrice cmd"
  "oQuantity (new_order sy bytes t cmd) = pcQuantity cmd" "oFilledQuantity (new_order sy bytes t cmd) = 0"
  "oSymbol (new_order sy bytes t cmd) = sy" "oStatus (new_order sy bytes t cmd) = StatusNone"
  by (simp_all add: new_order_def)

lemma keeps_user_reserve [simp, intro]: "keeps_user (reserve_fn o')"
  by (simp add: keeps_user_def reserve_fn_def wallet_ops_defs)

lemma keeps_user_release [simp, intro]: "keeps_user (release_fn o')"
  by (simp add: keeps_user_def release_fn_def wallet_ops_defs)

context wallet_ledger
begin

text \<open>A request that is turned down leaves every wallet as it was, whatever failed.\<close>

lemma accept_rejected:
  assumes "tdWallets T = repo" and "accept T c bytes t cmd s = (Inl res, s1)"
  shows "view (tsWallets s1) = view (tsWallets s)" and "snd res \<noteq> None"
    and "tsEngine s1 = tsEngine s" and "tsOrders s1 = tsOrders s"
  using assms(2) unfolding accept_def reserve_def observe_def Let_def assms(1)
  by (auto dest: update_rolled_back split: option.splits prod.splits if_splits)

lemma accept_accepted:
  assumes "tdWallets T = repo" and "accept T c bytes t cmd s = (Inr o', s1)"
  shows "\<exists>w. view (tsWallets s) (pcUserID cmd) = Some w \<and> fst (reserve_fn o' w) = None
    \<and> view (tsWallets s1) = (view (tsWallets s))(pcUserID cmd \<mapsto> snd (reserve_fn o' w))"
    and "tsEngine s1 = tsEngine s" and "tsOrders s1 = tsOrders s" and "tsMetrics s1 = tsMetrics s"
  using assms(2) unfolding accept_def reserve_def observe_def Let_def assms(1)
  by (auto dest!: update_kept [OF keeps_user_reserve] split: option.splits prod.splits if_splits)

end

context reliable_wallet_ledger
begin

text \<open>
  The compensation after an error of the engine puts the wallet back, if no one touched
  it meanwhile; the ledger never fails, so the order cannot stay reserved.
\<close>

lemma place_compensated:
  assumes T: "tdWallets T = repo" and acc: "accept T c bytes t cmd s = (Inr o', s1)"
    and ok: "\<And>w. view (tsWallets s) (pcUserID cmd) = Some w \<Longrightarrow> wallet_ok w" and "fits o'"
    and eng: "view (tsWallets s2) = view (tsWallets s1)"
  shows "view (tsWallets (snd (complete T o' (Inl err) t0 t2 s2))) = view (tsWallets s)"
proof -
  have o': "o' = new_order (tdSymbol T) bytes t cmd" "Validate o' = None" using accept_order [OF acc] by auto
  obtain w where w: "view (tsWallets s) (pcUserID cmd) = Some w" "fst (reserve_fn o' w) = None"
    and v1: "view (tsWallets s1) = (view (tsWallets s))(pcUserID cmd \<mapsto> snd (reserve_fn o' w))"
    using accept_accepted [OF T acc] by blast
  have v2: "view (tsWallets s2) (pcUserID cmd) = Some (snd (reserve_fn o' w))" using eng v1 by simp
  note rr = reserve_release [OF ok [OF w(1)] o'(2) \<open>fits o'\<close> w(2)]
  show ?thesis
    using update_exact(2) [OF v2, of CtxLive "release_fn o'"] rr v1 w(1) eng
    by (auto simp: complete_def release_def observe_def T o'(1))
qed

text \<open>An order whose user has a wallet that covers it is accepted.\<close>

lemma accept_works:
  assumes T: "tdWallets T = repo" and o': "o' = new_order (tdSymbol T) bytes t cmd" "Validate o' = None"
    and w: "view (tsWallets s) (oUserID o') = Some w" "fst (reserve_fn o' w) = None"
  shows "\<exists>s1. accept T c bytes t cmd s = (Inr o', s1)
    \<and> view (tsWallets s1) = (view (tsWallets s))(oUserID o' \<mapsto> snd (reserve_fn o' w))"
proof -
  obtain r ws where u: "wr_Update repo c (oUserID o') (reserve_fn o') (tsWallets s) = (r, ws)" by fastforce
  then have "r = None" "view ws = (view (tsWallets s))(oUserID o' \<mapsto> snd (reserve_fn o' w))"
    using update_exact [OF w(1), of c "reserve_fn o'"] w(2) by simp_all
  with o' u show ?thesis by (auto simp: accept_def reserve_def Let_def T)
qed

end

end
