(* ===== verification/Book.thy ===== *)
theory Book
  imports Domain
begin

section \<open>The order book as the code has it\<close>

text \<open>
  \<open>internal/core/domain/orderbook.go\<close>, operation by operation. An \<open>*Order\<close> held by the
  book is an address \<open>oref\<close> into the book's \<open>heap\<close>: the queue of a price level and the
  \<open>orders\<close> map share the object, so a fill that reaches it through the queue is seen by a
  later \<open>Cancel\<close> through the map. A level is owned by its side's map, and the key is its
  address. The order a caller passes to \<open>Place\<close> is a value until it rests; then it is
  stored at the fresh address.

  A nil dereference and an index out of range are \<open>None\<close>; that a well-formed book never
  gets there is proved in the theory of the refinement. \<open>now\<close> is the field of the struct:
  a clock whose \<open>n\<close>-th reading is \<open>bnow b n\<close>.
\<close>

type_synonym oref = nat

subsection \<open>One side of the book\<close>

record priceLevel =
  lvl_price :: int
  lvl_queue :: "oref list"

record bookSide =
  isBid :: bool
  levels :: "int \<rightharpoonup> priceLevel"
  prices :: "int list"

definition newBookSide :: "bool \<Rightarrow> bookSide" where
  "newBookSide bid = \<lparr>isBid = bid, levels = Map.empty, prices = []\<rparr>"

definition best :: "bookSide \<Rightarrow> int option" where
  "best s = (if prices s = [] then None else Some (prices s ! 0))"

text \<open>\<open>copy(dst, src)\<close> overwrites the first elements of \<open>dst\<close>, as many as both have.\<close>

definition go_copy :: "'a list \<Rightarrow> 'a list \<Rightarrow> 'a list" where
  "go_copy dst src = take (length dst) src @ drop (length src) dst"

definition insertPrice :: "int \<Rightarrow> bookSide \<Rightarrow> bookSide" where
  "insertPrice p s =
     (let ps = prices s;
          i = (if isBid s then sort_search (length ps) (\<lambda>i. ps ! i < p)
               else sort_search (length ps) (\<lambda>i. ps ! i > p));
          ps1 = ps @ [0];
          ps2 = take (i + 1) ps1 @ go_copy (drop (i + 1) ps1) (drop i ps1)
      in s\<lparr>prices := ps2[i := p]\<rparr>)"

definition side_add :: "int \<Rightarrow> oref \<Rightarrow> bookSide \<Rightarrow> bookSide" where
  "side_add price r s =
     (let s1 = (case levels s price of
                  Some lvl \<Rightarrow> s
                | None \<Rightarrow> insertPrice price
                    (s\<lparr>levels := (levels s)(price \<mapsto> \<lparr>lvl_price = price, lvl_queue = []\<rparr>)\<rparr>));
          lvl = the (levels s1 price)
      in s1\<lparr>levels := (levels s1)(price \<mapsto> lvl\<lparr>lvl_queue := lvl_queue lvl @ [r]\<rparr>)\<rparr>)"

text \<open>\<open>removePrice\<close> cuts out the first occurrence: the list function \<open>remove1\<close>.\<close>

definition removePrice :: "int \<Rightarrow> bookSide \<Rightarrow> bookSide" where
  "removePrice p s = s\<lparr>prices := remove1 p (prices s)\<rparr>"

text \<open>
  \<open>popFront(lvl)\<close> and the tail of \<open>remove\<close> both store a shorter queue in the level kept
  under key \<open>k\<close> and drop the level when the queue is empty.
\<close>

definition set_queue :: "int \<Rightarrow> priceLevel \<Rightarrow> oref list \<Rightarrow> bookSide \<Rightarrow> bookSide" where
  "set_queue k lvl q s =
     (let s1 = s\<lparr>levels := (levels s)(k \<mapsto> lvl\<lparr>lvl_queue := q\<rparr>)\<rparr>
      in if q = [] then removePrice (lvl_price lvl) (s1\<lparr>levels := (levels s1)(lvl_price lvl := None)\<rparr>)
         else s1)"

definition popFront :: "int \<Rightarrow> priceLevel \<Rightarrow> bookSide \<Rightarrow> bookSide" where
  "popFront k lvl s = set_queue k lvl (tl (lvl_queue lvl)) s"

fun queue_remove :: "(oref \<Rightarrow> order) \<Rightarrow> string \<Rightarrow> oref list \<Rightarrow> oref list option" where
  "queue_remove h i [] = None"
| "queue_remove h i (r # rs) =
     (if oID (h r) = i then Some rs else map_option ((#) r) (queue_remove h i rs))"

definition side_remove :: "(oref \<Rightarrow> order) \<Rightarrow> order \<Rightarrow> bookSide \<Rightarrow> bool \<times> bookSide" where
  "side_remove h o' s =
     (case levels s (oPrice o') of
        None \<Rightarrow> (False, s)
      | Some lvl \<Rightarrow>
          (case queue_remove h (oID o') (lvl_queue lvl) of
             None \<Rightarrow> (False, s)
           | Some q \<Rightarrow> (True, set_queue (oPrice o') lvl q s)))"

subsection \<open>The book\<close>

record OrderBook =
  bSymbol :: string
  bids :: bookSide
  asks :: bookSide
  orders :: "string \<rightharpoonup> oref"
  orderSeq :: int
  tradeSeq :: int
  bnow :: "nat \<Rightarrow> time"
  bclk :: nat
  heap :: "oref \<Rightarrow> order"
  fresh :: oref

definition zero_order :: order where
  "zero_order = \<lparr>oID = [], oUserID = [], oSymbol = [], oSide = OtherSide [], oPrice = 0,
     oQuantity = 0, oStatus = StatusNone, oFilledQuantity = 0, oSequence = 0,
     oCreatedAt = 0, oUpdatedAt = 0\<rparr>"

definition NewOrderBook :: "string \<Rightarrow> (nat \<Rightarrow> time) \<Rightarrow> OrderBook" where
  "NewOrderBook symbol now = \<lparr>bSymbol = symbol, bids = newBookSide True, asks = newBookSide False,
     orders = Map.empty, orderSeq = 0, tradeSeq = 0, bnow = now, bclk = 0,
     heap = (\<lambda>_. zero_order), fresh = 0\<rparr>"

definition tick :: "OrderBook \<Rightarrow> time \<times> OrderBook" where
  "tick b = (bnow b (bclk b), b\<lparr>bclk := Suc (bclk b)\<rparr>)"

definition crosses :: "side \<Rightarrow> int \<Rightarrow> int \<Rightarrow> bool" where
  "crosses takerSide takerPrice makerPrice =
     (if takerSide = Buy then makerPrice \<le> takerPrice else makerPrice \<ge> takerPrice)"

definition min64 :: "int \<Rightarrow> int \<Rightarrow> int" where
  "min64 a b = (if a < b then a else b)"

lemma min64_min: "min64 a b = min a b"
  by (simp add: min64_def)

record Fill =
  fTrade :: trade
  fMaker :: order

record PlaceResult =
  prTaker :: order
  prFills :: "Fill list"
  prReleaseCOP :: int

record CancelResult =
  crOrder :: order
  crReleaseCOP :: int
  crReleaseVibranium :: int

text \<open>The local variable \<open>opposite\<close> of \<open>Place\<close>: a pointer to one of the two sides.\<close>

definition opposite :: "order \<Rightarrow> OrderBook \<Rightarrow> bookSide" where
  "opposite o' b = (if oSide o' = Sell then bids b else asks b)"

definition set_opposite :: "order \<Rightarrow> bookSide \<Rightarrow> OrderBook \<Rightarrow> OrderBook" where
  "set_opposite o' s b = (if oSide o' = Sell then b\<lparr>bids := s\<rparr> else b\<lparr>asks := s\<rparr>)"

subsection \<open>Place: the matching loop\<close>

text \<open>The variables of the loop of \<open>Place\<close>: the taker, the result so far, the book.\<close>

record matching =
  mTaker :: order
  mFills :: "Fill list"
  mRelease :: int
  mBook :: OrderBook

definition mk_trade :: "OrderBook \<Rightarrow> order \<Rightarrow> order \<Rightarrow> int \<Rightarrow> time \<Rightarrow> trade" where
  "mk_trade b taker maker qty at =
     (let buy = (if oSide taker = Buy then taker else maker);
          sell = (if oSide taker = Buy then maker else taker)
      in \<lparr>tID = bSymbol b @ ''-'' @ itoa (tradeSeq b), tSymbol = bSymbol b,
          tPrice = oPrice maker, tQuantity = qty,
          tBuyOrderID = oID buy, tSellOrderID = oID sell,
          tBuyerID = oUserID buy, tSellerID = oUserID sell,
          tSequence = tradeSeq b, tExecutedAt = at\<rparr>)"

text \<open>One iteration, once the best price \<open>p\<close> is known to cross.\<close>

definition match_once :: "int \<Rightarrow> matching \<Rightarrow> matching option" where
  "match_once p m =
     (let taker = mTaker m; b = mBook m; opp = opposite taker b
      in case levels opp p of
           None \<Rightarrow> None
         | Some lvl \<Rightarrow>
             (case lvl_queue lvl of
                [] \<Rightarrow> None
              | r # _ \<Rightarrow>
                  (let maker = heap b r;
                       qty = min64 (Remaining taker) (Remaining maker);
                       execPrice = oPrice maker;
                       maker1 = maker\<lparr>oFilledQuantity := add64 (oFilledQuantity maker) qty\<rparr>;
                       taker1 = taker\<lparr>oFilledQuantity := add64 (oFilledQuantity taker) qty\<rparr>;
                       b1 = b\<lparr>tradeSeq := add64 (tradeSeq b) 1\<rparr>;
                       (at, b2) = tick b1;
                       trade = mk_trade b1 taker1 maker1 qty at;
                       release = (if oSide taker = Buy
                                  then add64 (mRelease m) (mul64 (sub64 (oPrice taker) execPrice) qty)
                                  else mRelease m);
                       (upd, b3) = tick b2;
                       maker2 = maker1\<lparr>oUpdatedAt := upd\<rparr>;
                       full = (Remaining maker2 = 0);
                       maker3 = maker2\<lparr>oStatus := (if full then StatusFilled else StatusPartiallyFilled)\<rparr>;
                       b4 = b3\<lparr>heap := (heap b3)(r := maker3)\<rparr>;
                       b5 = (if full
                             then set_opposite taker (popFront p lvl opp)
                                    (b4\<lparr>orders := (orders b4)(oID maker3 := None)\<rparr>)
                             else b4)
                   in Some \<lparr>mTaker = taker1,
                            mFills = mFills m @ [\<lparr>fTrade = trade, fMaker = CloneOrder maker3\<rparr>],
                            mRelease = release, mBook = b5\<rparr>)))"

text \<open>
  The resting orders of a side, best price first and in arrival order within a price. Each
  iteration takes one away or leaves the taker with nothing, so the loop ends on every book.
\<close>

definition level_queue :: "bookSide \<Rightarrow> int \<Rightarrow> oref list" where
  "level_queue s p = (case levels s p of None \<Rightarrow> [] | Some lvl \<Rightarrow> lvl_queue lvl)"

definition side_refs :: "bookSide \<Rightarrow> oref list" where
  "side_refs s = concat (map (level_queue s) (prices s))"

definition loop_measure :: "matching \<Rightarrow> nat" where
  "loop_measure m = length (side_refs (opposite (mTaker m) (mBook m)))
     + (if Remaining (mTaker m) > 0 then 1 else 0)"

lemma length_side_refs: "length (side_refs s) = sum_list (map (\<lambda>p. length (level_queue s p)) (prices s))"
  by (simp add: side_refs_def length_concat comp_def)

lemma set_queue_fields [simp]:
  "levels (set_queue k lvl q s) =
     (if q = [] then (levels s)(k \<mapsto> lvl\<lparr>lvl_queue := q\<rparr>, lvl_price lvl := None)
      else (levels s)(k \<mapsto> lvl\<lparr>lvl_queue := q\<rparr>))"
  "prices (set_queue k lvl q s) = (if q = [] then remove1 (lvl_price lvl) (prices s) else prices s)"
  "isBid (set_queue k lvl q s) = isBid s"
  by (simp_all add: set_queue_def removePrice_def Let_def)

lemma level_queue_set_queue_le:
  "levels s k = Some lvl \<Longrightarrow> length q \<le> length (lvl_queue lvl) \<Longrightarrow>
   length (level_queue (set_queue k lvl q s) p) \<le> length (level_queue s p)"
  by (auto simp: level_queue_def split: option.splits if_splits)

lemma popFront_shrinks:
  assumes "best s = Some p" and "levels s p = Some lvl" and "lvl_queue lvl = r # rs"
  shows "length (side_refs (popFront p lvl s)) < length (side_refs s)"
proof -
  let ?s = "popFront p lvl s" and ?f = "\<lambda>s p. length (level_queue s p)"
  obtain ps where ps: "prices s = p # ps"
    using assms(1) by (cases "prices s") (auto simp: best_def)
  have le: "?f ?s x \<le> ?f s x" for x
    using level_queue_set_queue_le [of s p lvl rs x] assms by (simp add: popFront_def)
  have lt: "?f ?s p < ?f s p"
    using assms by (auto simp: level_queue_def popFront_def)
  have "prices ?s = prices s \<or> prices ?s = remove1 (lvl_price lvl) (prices s)"
    by (simp add: popFront_def)
  then have "sum_list (map (?f ?s) (prices ?s)) \<le> sum_list (map (?f ?s) (prices s))"
    using sum_list_map_remove1_le by fastforce
  also have "\<dots> < sum_list (map (?f s) (prices s))"
    using lt sum_list_mono [of ps "?f ?s" "?f s"] le by (simp add: ps add_less_le_mono)
  finally show ?thesis by (simp add: length_side_refs)
qed

lemma Remaining_fill_taker:
  "Remaining (o'\<lparr>oFilledQuantity := add64 (oFilledQuantity o') (Remaining o')\<rparr>) = 0"
  by (simp add: Remaining_def sub64_add64_cancel)

lemma match_once_progress:
  assumes "match_once p m = Some m'" and "best (opposite (mTaker m) (mBook m)) = Some p"
    and "Remaining (mTaker m) > 0"
  shows "loop_measure m' < loop_measure m"
proof -
  let ?b = "mBook m" and ?t = "mTaker m"
  from assms(1) obtain lvl r rs where
    lvl: "levels (opposite ?t ?b) p = Some lvl" "lvl_queue lvl = r # rs"
    by (auto simp: match_once_def Let_def split: option.splits list.splits)
  let ?maker = "heap ?b r"
  let ?qty = "min64 (Remaining ?t) (Remaining ?maker)"
  have t': "mTaker m' = ?t\<lparr>oFilledQuantity := add64 (oFilledQuantity ?t) ?qty\<rparr>"
    using assms(1) lvl by (auto simp: match_once_def Let_def tick_def)
  have opp: "opposite (mTaker m') x = opposite ?t x" for x
    by (simp add: t' opposite_def)
  show ?thesis
  proof (cases "Remaining (?maker\<lparr>oFilledQuantity := add64 (oFilledQuantity ?maker) ?qty\<rparr>) = 0")
    case True
    then have "opposite ?t (mBook m') = popFront p lvl (opposite ?t ?b)"
      using assms(1) lvl
      by (auto simp: match_once_def Let_def tick_def Remaining_def opposite_def set_opposite_def)
    with popFront_shrinks [OF assms(2) lvl] assms(3) show ?thesis
      by (simp add: loop_measure_def opp)
  next
    case False
    then have "?qty = Remaining ?t"
      using Remaining_fill_taker [of ?maker] by (auto simp: min64_def split: if_splits)
    then have "Remaining (mTaker m') = 0"
      using Remaining_fill_taker [of ?t] by (simp add: t')
    moreover have "opposite ?t (mBook m') = opposite ?t ?b"
      using assms(1) lvl False
      by (auto simp: match_once_def Let_def tick_def Remaining_def opposite_def set_opposite_def)
    ultimately show ?thesis using assms(3) by (simp add: loop_measure_def opp)
  qed
qed

function match_loop :: "matching \<Rightarrow> matching option" where
  "match_loop m =
     (if Remaining (mTaker m) > 0 then
        (case best (opposite (mTaker m) (mBook m)) of
           None \<Rightarrow> Some m
         | Some p \<Rightarrow>
             if \<not> crosses (oSide (mTaker m)) (oPrice (mTaker m)) p then Some m
             else (case match_once p m of None \<Rightarrow> None | Some m' \<Rightarrow> match_loop m'))
      else Some m)"
  by pat_completeness auto
termination
  by (relation "measure loop_measure") (auto intro: match_once_progress)

declare match_loop.simps [simp del]

subsection \<open>Place: before and after the loop\<close>

text \<open>\<open>rest\<close> stores the order at a fresh address and queues the address on its side.\<close>

definition rest :: "order \<Rightarrow> OrderBook \<Rightarrow> OrderBook" where
  "rest o' b =
     (let r = fresh b;
          b1 = b\<lparr>heap := (heap b)(r := o'), fresh := Suc r, orders := (orders b)(oID o' \<mapsto> r)\<rparr>
      in if oSide o' = Buy then b1\<lparr>bids := side_add (oPrice o') r (bids b1)\<rparr>
         else b1\<lparr>asks := side_add (oPrice o') r (asks b1)\<rparr>)"

definition place_start :: "order \<Rightarrow> OrderBook \<Rightarrow> matching" where
  "place_start o' b =
     (let b1 = b\<lparr>orderSeq := add64 (orderSeq b) 1\<rparr>;
          (upd, b2) = tick b1
      in \<lparr>mTaker = o'\<lparr>oSequence := orderSeq b1, oStatus := StatusOpen, oUpdatedAt := upd\<rparr>,
          mFills = [], mRelease = 0, mBook = b2\<rparr>)"

text \<open>
  The \<open>switch\<close> and the last time stamp. The stamp is written through the pointer, so a
  resting order gets it too.
\<close>

definition place_finish :: "matching \<Rightarrow> PlaceResult \<times> OrderBook" where
  "place_finish m =
     (let o1 = mTaker m; b = mBook m;
          filled = (Remaining o1 = 0);
          o2 = o1\<lparr>oStatus := (if filled then StatusFilled
                             else if oFilledQuantity o1 > 0 then StatusPartiallyFilled
                             else StatusOpen)\<rparr>;
          b1 = (if filled then b else rest o2 b);
          (upd, b2) = tick b1;
          o3 = o2\<lparr>oUpdatedAt := upd\<rparr>;
          b3 = (if filled then b2 else b2\<lparr>heap := (heap b2)(fresh b := o3)\<rparr>)
      in (\<lparr>prTaker = o3, prFills = mFills m, prReleaseCOP = mRelease m\<rparr>, b3))"

definition Place :: "order \<Rightarrow> OrderBook \<Rightarrow> (PlaceResult \<times> OrderBook) option" where
  "Place o' b = map_option place_finish (match_loop (place_start o' b))"

subsection \<open>Cancel and Snapshot\<close>

text \<open>\<open>None\<close> is the result \<open>(CancelResult{}, false)\<close>, which leaves the book as it is.\<close>

definition Cancel :: "string \<Rightarrow> OrderBook \<Rightarrow> (CancelResult \<times> OrderBook) option" where
  "Cancel orderID b =
     (case orders b orderID of
        None \<Rightarrow> None
      | Some r \<Rightarrow>
          (let o1 = heap b r;
               remaining = Remaining o1;
               b1 = (if oSide o1 = Buy then b\<lparr>bids := snd (side_remove (heap b) o1 (bids b))\<rparr>
                     else b\<lparr>asks := snd (side_remove (heap b) o1 (asks b))\<rparr>);
               b2 = b1\<lparr>orders := (orders b1)(orderID := None)\<rparr>;
               (upd, b3) = tick b2;
               o2 = o1\<lparr>oStatus := StatusCancelled, oUpdatedAt := upd\<rparr>;
               b4 = b3\<lparr>heap := (heap b3)(r := o2)\<rparr>
           in Some (\<lparr>crOrder = o2,
                     crReleaseCOP = (if oSide o2 = Buy then mul64 remaining (oPrice o2) else 0),
                     crReleaseVibranium = (if oSide o2 = Buy then 0 else remaining)\<rparr>, b4)))"

record LevelView =
  lvPrice :: int
  lvQuantity :: int
  lvOrders :: nat

record BookSnapshot =
  snSymbol :: string
  snBids :: "LevelView list"
  snAsks :: "LevelView list"

fun levelsView_loop :: "(oref \<Rightarrow> order) \<Rightarrow> int \<Rightarrow> bookSide \<Rightarrow> nat \<Rightarrow> int list \<Rightarrow> LevelView list \<Rightarrow> LevelView list option"
  where
  "levelsView_loop h depth s i [] out = Some out"
| "levelsView_loop h depth s i (p # ps) out =
     (if depth > 0 \<and> int i \<ge> depth then Some out
      else case levels s p of
             None \<Rightarrow> None
           | Some lvl \<Rightarrow>
               levelsView_loop h depth s (i + 1) ps
                 (out @ [\<lparr>lvPrice = p,
                          lvQuantity = foldl (\<lambda>q r. add64 q (Remaining (h r))) 0 (lvl_queue lvl),
                          lvOrders = length (lvl_queue lvl)\<rparr>]))"

definition levelsView :: "(oref \<Rightarrow> order) \<Rightarrow> int \<Rightarrow> bookSide \<Rightarrow> LevelView list option" where
  "levelsView h depth s = levelsView_loop h depth s 0 (prices s) []"

definition Snapshot :: "int \<Rightarrow> OrderBook \<Rightarrow> BookSnapshot option" where
  "Snapshot depth b =
     (case levelsView (heap b) depth (bids b) of
        None \<Rightarrow> None
      | Some bs \<Rightarrow>
          (case levelsView (heap b) depth (asks b) of
             None \<Rightarrow> None
           | Some as \<Rightarrow> Some \<lparr>snSymbol = bSymbol b, snBids = bs, snAsks = as\<rparr>))"

end
