(* ===== verification/Book_Spec.thy ===== *)
theory Book_Spec
  imports Book "HOL-Library.Multiset"
begin

section \<open>The order book as a specification: two lists in price-time order\<close>

text \<open>
  What \<open>orderbook.go\<close> promises, without levels, heap, clock or machine integers: each
  side is the list of its resting orders, best price first and oldest first within a
  price. \<open>aPlace\<close> eats into the opposite list from the front; \<open>aCancel\<close> deletes an
  element. The properties of matching are proved here and carried to the code by the
  refinement.
\<close>

record aorder =
  aID :: string
  aUser :: string
  aSide :: side
  aPrice :: int
  aQty :: int
  aFilled :: int

definition arem :: "aorder \<Rightarrow> int" where
  "arem x = aQty x - aFilled x"

definition afill :: "int \<Rightarrow> aorder \<Rightarrow> aorder" where
  "afill q x = x\<lparr>aFilled := aFilled x + q\<rparr>"

lemma afill_simps [simp]:
  "aID (afill q x) = aID x" "aUser (afill q x) = aUser x" "aSide (afill q x) = aSide x"
  "aPrice (afill q x) = aPrice x" "aQty (afill q x) = aQty x" "aFilled (afill q x) = aFilled x + q"
  "arem (afill q x) = arem x - q"
  by (simp_all add: afill_def arem_def)

record abook =
  aBids :: "aorder list"
  aAsks :: "aorder list"

text \<open>A fill: the maker as it was before, and the quantity.\<close>

type_synonym afills = "(aorder \<times> int) list"

subsection \<open>Matching\<close>

text \<open>\<open>acrosses t p\<close>: the taker accepts a resting price of \<open>p\<close>.\<close>

abbreviation acrosses :: "aorder \<Rightarrow> int \<Rightarrow> bool" where
  "acrosses t p \<equiv> crosses (aSide t) (aPrice t) p"

fun amatch :: "aorder \<Rightarrow> aorder list \<Rightarrow> aorder \<times> afills \<times> aorder list" where
  "amatch t [] = (t, [], [])"
| "amatch t (m # ms) =
     (if arem t > 0 \<and> acrosses t (aPrice m) then
        (let q = min (arem t) (arem m); t1 = afill q t
         in if q = arem m then
              (let (t', fs, ms') = amatch t1 ms in (t', (m, q) # fs, ms'))
            else (t1, [(m, q)], afill q m # ms))
      else (t, [], m # ms))"

text \<open>\<open>ahead bid p q\<close>: a resting price \<open>p\<close> is served before or together with \<open>q\<close>.\<close>

definition ahead :: "bool \<Rightarrow> int \<Rightarrow> int \<Rightarrow> bool" where
  "ahead bid p q = (if bid then q \<le> p else p \<le> q)"

definition ainsert :: "bool \<Rightarrow> aorder \<Rightarrow> aorder list \<Rightarrow> aorder list" where
  "ainsert bid x xs = takeWhile (\<lambda>y. ahead bid (aPrice y) (aPrice x)) xs
     @ x # dropWhile (\<lambda>y. ahead bid (aPrice y) (aPrice x)) xs"

definition aopposite :: "aorder \<Rightarrow> abook \<Rightarrow> aorder list" where
  "aopposite t B = (if aSide t = Sell then aBids B else aAsks B)"

definition aset_opposite :: "aorder \<Rightarrow> aorder list \<Rightarrow> abook \<Rightarrow> abook" where
  "aset_opposite t xs B = (if aSide t = Sell then B\<lparr>aBids := xs\<rparr> else B\<lparr>aAsks := xs\<rparr>)"

definition arest :: "aorder \<Rightarrow> abook \<Rightarrow> abook" where
  "arest t B = (if aSide t = Buy then B\<lparr>aBids := ainsert True t (aBids B)\<rparr>
                else B\<lparr>aAsks := ainsert False t (aAsks B)\<rparr>)"

definition arelease :: "aorder \<Rightarrow> afills \<Rightarrow> int" where
  "arelease t fs = (if aSide t = Buy then (\<Sum>(m, q)\<leftarrow>fs. (aPrice t - aPrice m) * q) else 0)"

text \<open>The result: taker, fills, COP to refund, book.\<close>

definition aPlace :: "aorder \<Rightarrow> abook \<Rightarrow> aorder \<times> afills \<times> int \<times> abook" where
  "aPlace t B =
     (let (t', fs, opp') = amatch t (aopposite t B);
          B1 = aset_opposite t opp' B
      in (t', fs, arelease t fs, if arem t' = 0 then B1 else arest t' B1))"

definition aorders :: "abook \<Rightarrow> aorder list" where
  "aorders B = aBids B @ aAsks B"

definition aCancel :: "string \<Rightarrow> abook \<Rightarrow> (aorder \<times> abook) option" where
  "aCancel i B = map_option (\<lambda>x. (x, \<lparr>aBids = filter (\<lambda>y. aID y \<noteq> i) (aBids B),
       aAsks = filter (\<lambda>y. aID y \<noteq> i) (aAsks B)\<rparr>)) (find (\<lambda>x. aID x = i) (aorders B))"

subsection \<open>The invariant of the specification\<close>

definition aresting :: "bool \<Rightarrow> aorder \<Rightarrow> bool" where
  "aresting bid x \<longleftrightarrow> aSide x = (if bid then Buy else Sell) \<and> 0 < aPrice x
     \<and> 0 \<le> aFilled x \<and> aFilled x < aQty x \<and> aPrice x * aQty x \<le> max_i64"

definition aside_wf :: "bool \<Rightarrow> aorder list \<Rightarrow> bool" where
  "aside_wf bid xs \<longleftrightarrow> sorted_wrt (\<lambda>x y. ahead bid (aPrice x) (aPrice y)) xs
     \<and> (\<forall>x\<in>set xs. aresting bid x)"

definition uncrossed :: "abook \<Rightarrow> bool" where
  "uncrossed B \<longleftrightarrow> (\<forall>x\<in>set (aBids B). \<forall>y\<in>set (aAsks B). aPrice x < aPrice y)"

definition abook_wf :: "abook \<Rightarrow> bool" where
  "abook_wf B \<longleftrightarrow> aside_wf True (aBids B) \<and> aside_wf False (aAsks B) \<and> uncrossed B
     \<and> distinct (map aID (aorders B))"

definition anew :: "aorder \<Rightarrow> bool" where
  "anew t \<longleftrightarrow> (aSide t = Buy \<or> aSide t = Sell) \<and> 0 < aPrice t \<and> 0 < aQty t \<and> aFilled t = 0
     \<and> aPrice t * aQty t \<le> max_i64"

subsection \<open>What matching does\<close>

text \<open>
  One induction over \<open>amatch\<close> gives its whole contract: the fills are a prefix of the
  opposite side, all but the last of them complete; what is left of the taker is what the
  fills did not take; and the matching stops only when the taker is done or the next
  price does not cross.
\<close>

definition amatch_post :: "aorder \<Rightarrow> aorder list \<Rightarrow> aorder \<Rightarrow> afills \<Rightarrow> aorder list \<Rightarrow> bool" where
  "amatch_post t ms t' fs ms' \<longleftrightarrow>
     t' = afill (\<Sum>(m, q)\<leftarrow>fs. q) t \<and> 0 \<le> arem t'
     \<and> (\<forall>(m, q)\<in>set fs. 0 < q \<and> q \<le> arem m \<and> acrosses t (aPrice m))
     \<and> (\<exists>k. map fst fs = take k ms \<and>
          (ms' = drop k ms \<and> (\<forall>(m, q)\<in>set fs. q = arem m)
            \<and> (arem t' = 0 \<or> ms' = [] \<or> \<not> acrosses t (aPrice (hd ms')))
           \<or> fs \<noteq> [] \<and> arem t' = 0 \<and> (\<forall>(m, q)\<in>set (butlast fs). q = arem m)
            \<and> snd (last fs) < arem (fst (last fs))
            \<and> ms' = afill (snd (last fs)) (fst (last fs)) # drop k ms))"

lemma amatch_stop: "\<not> (arem t > 0 \<and> acrosses t (aPrice m)) \<Longrightarrow> amatch t (m # ms) = (t, [], m # ms)"
  by auto

lemma amatch_partial:
  "0 < arem t \<Longrightarrow> acrosses t (aPrice m) \<Longrightarrow> arem t < arem m \<Longrightarrow>
   amatch t (m # ms) = (afill (arem t) t, [(m, arem t)], afill (arem t) m # ms)"
  by (simp add: Let_def)

lemma amatch_full:
  "0 < arem t \<Longrightarrow> acrosses t (aPrice m) \<Longrightarrow> arem m \<le> arem t \<Longrightarrow>
   amatch t (m # ms) =
     (let (t', fs, ms') = amatch (afill (arem m) t) ms in (t', (m, arem m) # fs, ms'))"
  by (simp add: Let_def min_absorb2)

declare amatch.simps(2) [simp del]

lemma afill_0 [simp]: "afill 0 x = x"
  by (simp add: afill_def)

lemma afill_afill [simp]: "afill a (afill b x) = afill (a + b) x"
  by (simp add: afill_def)

lemma amatch_post_stop:
  "0 \<le> arem t \<Longrightarrow> arem t = 0 \<or> ms = [] \<or> \<not> acrosses t (aPrice (hd ms)) \<Longrightarrow> amatch_post t ms t [] ms"
  by (auto simp: amatch_post_def)

lemma amatch_post_partial:
  "0 < arem t \<Longrightarrow> acrosses t (aPrice m) \<Longrightarrow> arem t < arem m \<Longrightarrow>
   amatch_post t (m # ms) (afill (arem t) t) [(m, arem t)] (afill (arem t) m # ms)"
  unfolding amatch_post_def by (auto intro!: exI [of _ 1])

lemma amatch_post_full:
  assumes "amatch_post (afill (arem m) t) ms t' fs ms'" and "0 < arem m" and "acrosses t (aPrice m)"
  shows "amatch_post t (m # ms) t' ((m, arem m) # fs) ms'"
proof -
  from assms(1) obtain k where k: "map fst fs = take k ms"
    "ms' = drop k ms \<and> (\<forall>(m, q)\<in>set fs. q = arem m)
       \<and> (arem t' = 0 \<or> ms' = [] \<or> \<not> acrosses t (aPrice (hd ms')))
     \<or> fs \<noteq> [] \<and> arem t' = 0 \<and> (\<forall>(m, q)\<in>set (butlast fs). q = arem m)
       \<and> snd (last fs) < arem (fst (last fs))
       \<and> ms' = afill (snd (last fs)) (fst (last fs)) # drop k ms"
    by (auto simp: amatch_post_def)
  with assms show ?thesis
    unfolding amatch_post_def
    by (auto simp: add.commute intro!: exI [of _ "Suc k"])
qed

lemma amatch_correct:
  assumes "amatch t ms = (t', fs, ms')" and "0 \<le> arem t" and "\<forall>m\<in>set ms. 0 < arem m"
  shows "amatch_post t ms t' fs ms'"
  using assms
proof (induction ms arbitrary: t t' fs ms')
  case Nil
  then show ?case by (simp add: amatch_post_stop)
next
  case (Cons m ms)
  consider "\<not> (arem t > 0 \<and> acrosses t (aPrice m))"
    | "0 < arem t" "acrosses t (aPrice m)" "arem t < arem m"
    | "0 < arem t" "acrosses t (aPrice m)" "arem m \<le> arem t"
    by linarith
  then show ?case
  proof cases
    case 1
    with Cons.prems show ?thesis
      by (auto simp: amatch_stop intro!: amatch_post_stop)
  next
    case 2
    with Cons.prems(1) show ?thesis
      by (auto simp: amatch_partial intro!: amatch_post_partial)
  next
    case 3
    with Cons.prems(1) obtain fs1 where
      rec: "amatch (afill (arem m) t) ms = (t', fs1, ms')" and fs: "fs = (m, arem m) # fs1"
      by (auto simp: amatch_full split: prod.splits)
    with Cons 3 have "amatch_post (afill (arem m) t) ms t' fs1 ms'" by simp
    with Cons.prems(3) 3(2) show ?thesis unfolding fs by (intro amatch_post_full) simp_all
  qed
qed

subsection \<open>Collateral: what the resting orders of a user are worth\<close>

definition cop_of :: "string \<Rightarrow> aorder \<Rightarrow> int" where
  "cop_of u x = (if aUser x = u \<and> aSide x = Buy then aPrice x * arem x else 0)"

definition vib_of :: "string \<Rightarrow> aorder \<Rightarrow> int" where
  "vib_of u x = (if aUser x = u \<and> aSide x = Sell then arem x else 0)"

definition restingCOP :: "string \<Rightarrow> abook \<Rightarrow> int" where
  "restingCOP u B = (\<Sum>x\<leftarrow>aorders B. cop_of u x)"

definition restingVIB :: "string \<Rightarrow> abook \<Rightarrow> int" where
  "restingVIB u B = (\<Sum>x\<leftarrow>aorders B. vib_of u x)"

definition abuyer :: "aorder \<Rightarrow> aorder \<Rightarrow> string" where
  "abuyer t m = (if aSide t = Buy then aUser t else aUser m)"

definition aseller :: "aorder \<Rightarrow> aorder \<Rightarrow> string" where
  "aseller t m = (if aSide t = Buy then aUser m else aUser t)"

definition spentCOP :: "string \<Rightarrow> aorder \<Rightarrow> afills \<Rightarrow> int" where
  "spentCOP u t fs = (\<Sum>(m, q)\<leftarrow>fs. if abuyer t m = u then aPrice m * q else 0)"

definition deliveredVIB :: "string \<Rightarrow> aorder \<Rightarrow> afills \<Rightarrow> int" where
  "deliveredVIB u t fs = (\<Sum>(m, q)\<leftarrow>fs. if aseller t m = u then q else 0)"

lemma cop_of_afill: "cop_of u (afill q x) = cop_of u x - (if aUser x = u \<and> aSide x = Buy then aPrice x * q else 0)"
  by (simp add: cop_of_def algebra_simps)

lemma vib_of_afill: "vib_of u (afill q x) = vib_of u x - (if aUser x = u \<and> aSide x = Sell then q else 0)"
  by (simp add: vib_of_def)

lemma amatch_linear:
  fixes f :: "aorder \<Rightarrow> int"
  assumes whole: "\<And>x. x \<in> set ms \<Longrightarrow> f x = g x (arem x)"
    and part: "\<And>x q. f (afill q x) = f x - g x q"
    and "amatch t ms = (t', fs, ms')"
  shows "sum_list (map f ms) = sum_list (map f ms') + (\<Sum>(m, q)\<leftarrow>fs. g m q)"
  using assms(1,3)
proof (induction ms arbitrary: t t' fs ms')
  case Nil
  then show ?case by auto
next
  case (Cons m ms)
  have z: "f m = g m (arem m)" "f (afill (arem t) m) = f m - g m (arem t)"
    using Cons.prems(1) part by auto
  consider "\<not> (arem t > 0 \<and> acrosses t (aPrice m))"
    | "0 < arem t" "acrosses t (aPrice m)" "arem t < arem m"
    | "0 < arem t" "acrosses t (aPrice m)" "arem m \<le> arem t"
    by linarith
  then show ?case
  proof cases
    case 1
    with Cons.prems show ?thesis by (auto simp: amatch_stop)
  next
    case 2
    with Cons.prems z show ?thesis by (auto simp: amatch_partial)
  next
    case 3
    with Cons.prems(2) obtain fs1 where
      rec: "amatch (afill (arem m) t) ms = (t', fs1, ms')" and fs: "fs = (m, arem m) # fs1"
      by (auto simp: amatch_full split: prod.splits)
    with Cons.IH [OF _ rec] Cons.prems(1) z show ?thesis by simp
  qed
qed

lemma mset_ainsert: "mset (ainsert bid x xs) = add_mset x (mset xs)"
proof -
  have "mset xs = mset (takeWhile P xs) + mset (dropWhile P xs)" for P
    by (metis mset_append takeWhile_dropWhile_id)
  then show ?thesis by (simp add: ainsert_def)
qed

lemma set_ainsert [simp]: "set (ainsert bid x xs) = insert x (set xs)"
  by (metis mset_ainsert set_mset_add_mset_insert set_mset_mset)

lemma sum_ainsert: "sum_list (map f (ainsert bid x xs)) = f x + sum_list (map f xs)"
  for f :: "aorder \<Rightarrow> int"
proof -
  have "sum_mset (image_mset f (mset (ainsert bid x xs))) = f x + sum_mset (image_mset f (mset xs))"
    by (simp add: mset_ainsert)
  then show ?thesis by (metis mset_map sum_mset_sum_list)
qed

lemma amatch_sides:
  assumes "amatch t ms = (t', fs, ms')" and "\<forall>x\<in>set ms. aSide x = sd"
  shows "(\<forall>x\<in>set ms'. aSide x = sd) \<and> (\<forall>(m, q)\<in>set fs. m \<in> set ms)"
  using assms
proof (induction t ms arbitrary: t' fs ms' rule: amatch.induct)
  case (2 t m ms)
  then show ?case
    by (fastforce simp: amatch.simps(2) Let_def split: if_splits prod.splits)
qed auto

lemma amatch_taker:
  "amatch t ms = (t', fs, ms') \<Longrightarrow> t' = afill (\<Sum>(m, q)\<leftarrow>fs. q) t"
proof (induction t ms arbitrary: t' fs ms' rule: amatch.induct)
  case (2 t m ms)
  then show ?case
    by (fastforce simp: amatch.simps(2) Let_def split: if_splits prod.splits)
qed auto

lemma sum_list_fills_cong:
  fixes g h :: "aorder \<Rightarrow> int \<Rightarrow> int"
  shows "(\<And>m q. (m, q) \<in> set fs \<Longrightarrow> g m q = h m q) \<Longrightarrow> (\<Sum>(m, q)\<leftarrow>fs. g m q) = (\<Sum>(m, q)\<leftarrow>fs. h m q)"
  by (rule arg_cong [where f = sum_list], rule map_cong) auto

lemma sum_list_fills_0:
  fixes f :: "aorder \<Rightarrow> int"
  shows "(\<And>x. x \<in> set xs \<Longrightarrow> f x = 0) \<Longrightarrow> sum_list (map f xs) = 0"
  by (induction xs) auto

lemma sum_fills_zero [simp]: "(\<Sum>(m, q)\<leftarrow>fs. 0) = (0 :: int)"
  by (induction fs) auto

lemma release_split:
  "aSide t = Buy \<Longrightarrow> aPrice t * (\<Sum>(m, q)\<leftarrow>fs. q) = (\<Sum>(m, q)\<leftarrow>fs. aPrice m * q) + arelease t fs"
  by (induction fs) (auto simp: arelease_def algebra_simps)

lemma sum_cop_sell: "\<forall>x\<in>set xs. aSide x = Sell \<Longrightarrow> sum_list (map (cop_of u) xs) = 0"
  by (rule sum_list_fills_0) (simp add: cop_of_def)

lemma sum_vib_buy: "\<forall>x\<in>set xs. aSide x = Buy \<Longrightarrow> sum_list (map (vib_of u) xs) = 0"
  by (rule sum_list_fills_0) (simp add: vib_of_def)

lemma aPlaceE:
  assumes "aPlace t B = (t', fs, rel, B')"
  obtains ms' where "amatch t (aopposite t B) = (t', fs, ms')" and "rel = arelease t fs"
    and "B' = (if arem t' = 0 then aset_opposite t ms' B else arest t' (aset_opposite t ms' B))"
  using assms by (auto simp: aPlace_def Let_def split: prod.splits)

lemma aPlace_collateral_COP:
  assumes t: "aSide t = Buy \<or> aSide t = Sell"
    and B: "\<forall>x\<in>set (aBids B). aSide x = Buy" "\<forall>x\<in>set (aAsks B). aSide x = Sell"
    and pl: "aPlace t B = (t', fs, rel, B')"
  shows "restingCOP u B + cop_of u t
      = restingCOP u B' + spentCOP u t fs + (if aUser t = u then rel else 0)"
proof -
  obtain ms' where m: "amatch t (aopposite t B) = (t', fs, ms')"
    and rel: "rel = arelease t fs"
    and B': "B' = (if arem t' = 0 then aset_opposite t ms' B else arest t' (aset_opposite t ms' B))"
    using pl by (rule aPlaceE)
  note t' = amatch_taker [OF m]
  have z: "cop_of u t' = 0" if "arem t' = 0" using that by (simp add: cop_of_def)
  show ?thesis
  proof (cases "aSide t = Buy")
    case True
    then have opp: "aopposite t B = aAsks B" by (simp add: aopposite_def)
    have sell: "\<forall>x\<in>set ms'. aSide x = Sell" using amatch_sides [OF m] B(2) opp by simp
    have "restingCOP u B' = sum_list (map (cop_of u) (aBids B)) + cop_of u t'"
      using True t' z sell
      by (auto simp: B' restingCOP_def aorders_def aset_opposite_def arest_def sum_ainsert sum_cop_sell)
    moreover have "restingCOP u B = sum_list (map (cop_of u) (aBids B))"
      using B(2) by (simp add: restingCOP_def aorders_def sum_cop_sell)
    moreover have "cop_of u t = cop_of u t'
        + (if aUser t = u then aPrice t * (\<Sum>(m, q)\<leftarrow>fs. q) else 0)"
      using True t' by (simp add: cop_of_afill)
    ultimately show ?thesis
      using release_split [OF True, of fs] True
      by (auto simp: rel spentCOP_def abuyer_def)
  next
    case False
    with t have sell: "aSide t = Sell" by simp
    then have opp: "aopposite t B = aBids B" by (simp add: aopposite_def)
    have "sum_list (map (cop_of u) (aBids B)) = sum_list (map (cop_of u) ms')
        + (\<Sum>(m, q)\<leftarrow>fs. if aUser m = u \<and> aSide m = Buy then aPrice m * q else 0)"
      by (rule amatch_linear [OF _ cop_of_afill m [unfolded opp]]) (simp add: cop_of_def)
    moreover have "(\<Sum>(m, q)\<leftarrow>fs. if aUser m = u \<and> aSide m = Buy then aPrice m * q else 0)
        = spentCOP u t fs"
      using amatch_sides [OF m, of Buy] B(1) opp False unfolding spentCOP_def abuyer_def
      by (intro sum_list_fills_cong) fastforce
    moreover have "cop_of u t = 0" "cop_of u t' = 0" using sell t' by (simp_all add: cop_of_def)
    ultimately show ?thesis
      using sell t'
      by (auto simp: B' restingCOP_def aorders_def aset_opposite_def arest_def sum_ainsert rel
          arelease_def)
  qed
qed

lemma aPlace_collateral_VIB:
  assumes t: "aSide t = Buy \<or> aSide t = Sell"
    and B: "\<forall>x\<in>set (aBids B). aSide x = Buy" "\<forall>x\<in>set (aAsks B). aSide x = Sell"
    and pl: "aPlace t B = (t', fs, rel, B')"
  shows "restingVIB u B + vib_of u t = restingVIB u B' + deliveredVIB u t fs"
proof -
  obtain ms' where m: "amatch t (aopposite t B) = (t', fs, ms')"
    and B': "B' = (if arem t' = 0 then aset_opposite t ms' B else arest t' (aset_opposite t ms' B))"
    using pl by (rule aPlaceE)
  note t' = amatch_taker [OF m]
  have z: "vib_of u t' = 0" if "arem t' = 0" using that by (simp add: vib_of_def)
  show ?thesis
  proof (cases "aSide t = Sell")
    case True
    then have opp: "aopposite t B = aBids B" by (simp add: aopposite_def)
    have buy: "\<forall>x\<in>set ms'. aSide x = Buy" using amatch_sides [OF m] B(1) opp by simp
    have "restingVIB u B' = sum_list (map (vib_of u) (aAsks B)) + vib_of u t'"
      using True t' z buy
      by (auto simp: B' restingVIB_def aorders_def aset_opposite_def arest_def sum_ainsert sum_vib_buy)
    moreover have "restingVIB u B = sum_list (map (vib_of u) (aAsks B))"
      using B(1) by (simp add: restingVIB_def aorders_def sum_vib_buy)
    moreover have "vib_of u t = vib_of u t' + (if aUser t = u then (\<Sum>(m, q)\<leftarrow>fs. q) else 0)"
      using True t' by (simp add: vib_of_afill)
    ultimately show ?thesis
      using True by (auto simp: deliveredVIB_def aseller_def)
  next
    case False
    with t have buy: "aSide t = Buy" by simp
    then have opp: "aopposite t B = aAsks B" by (simp add: aopposite_def)
    have "sum_list (map (vib_of u) (aAsks B)) = sum_list (map (vib_of u) ms')
        + (\<Sum>(m, q)\<leftarrow>fs. if aUser m = u \<and> aSide m = Sell then q else 0)"
      by (rule amatch_linear [OF _ vib_of_afill m [unfolded opp]]) (simp add: vib_of_def)
    moreover have "(\<Sum>(m, q)\<leftarrow>fs. if aUser m = u \<and> aSide m = Sell then q else 0)
        = deliveredVIB u t fs"
      using amatch_sides [OF m, of Sell] B(2) opp buy unfolding deliveredVIB_def aseller_def
      by (intro sum_list_fills_cong) fastforce
    moreover have "vib_of u t = 0" "vib_of u t' = 0" using buy t' by (simp_all add: vib_of_def)
    ultimately show ?thesis
      using buy t'
      by (auto simp: B' restingVIB_def aorders_def aset_opposite_def arest_def sum_ainsert)
  qed
qed

subsection \<open>Place and Cancel keep the invariant\<close>

abbreviation akey :: "aorder \<Rightarrow> string \<times> int" where
  "akey x \<equiv> (aID x, aPrice x)"

lemma amatch_suffix:
  "amatch t ms = (t', fs, ms') \<Longrightarrow> \<exists>k. map akey ms' = drop k (map akey ms)"
proof (induction ms arbitrary: t t' fs ms')
  case (Cons m ms)
  consider "\<not> (arem t > 0 \<and> acrosses t (aPrice m))"
    | "0 < arem t" "acrosses t (aPrice m)" "arem t < arem m"
    | "0 < arem t" "acrosses t (aPrice m)" "arem m \<le> arem t"
    by linarith
  then show ?case
  proof cases
    case 1
    with Cons.prems show ?thesis by (auto simp: amatch_stop intro: exI [of _ 0])
  next
    case 2
    with Cons.prems show ?thesis by (auto simp: amatch_partial intro: exI [of _ 0])
  next
    case 3
    with Cons show ?thesis
      by (fastforce simp: amatch_full split: prod.splits intro: exI [of _ "Suc k" for k])
  qed
qed auto

lemma amatch_resting:
  "amatch t ms = (t', fs, ms') \<Longrightarrow> \<forall>x\<in>set ms. aresting bid x \<Longrightarrow> \<forall>x\<in>set ms'. aresting bid x"
proof (induction ms arbitrary: t t' fs ms')
  case (Cons m ms)
  consider "\<not> (arem t > 0 \<and> acrosses t (aPrice m))"
    | "0 < arem t" "acrosses t (aPrice m)" "arem t < arem m"
    | "0 < arem t" "acrosses t (aPrice m)" "arem m \<le> arem t"
    by linarith
  then show ?case
  proof cases
    case 1
    with Cons.prems show ?thesis by (auto simp: amatch_stop)
  next
    case 2
    with Cons.prems show ?thesis by (auto simp: amatch_partial aresting_def arem_def)
  next
    case 3
    with Cons show ?thesis by (fastforce simp: amatch_full split: prod.splits)
  qed
qed auto

lemma sorted_wrt_akey:
  "sorted_wrt (\<lambda>x y. ahead bid (aPrice x) (aPrice y)) xs
    = sorted_wrt (\<lambda>a b. ahead bid (snd a) (snd b)) (map akey xs)"
  by (simp add: sorted_wrt_map)

lemma aside_wf_match:
  assumes "amatch t ms = (t', fs, ms')" and "aside_wf bid ms"
  shows "aside_wf bid ms'"
proof -
  obtain k where "map akey ms' = drop k (map akey ms)" using amatch_suffix [OF assms(1)] ..
  then have "sorted_wrt (\<lambda>x y. ahead bid (aPrice x) (aPrice y)) ms'"
    using assms(2) by (simp only: aside_wf_def sorted_wrt_akey) (simp add: sorted_wrt_drop)
  moreover have "\<forall>x\<in>set ms'. aresting bid x"
    using amatch_resting [OF assms(1)] assms(2) by (simp add: aside_wf_def)
  ultimately show ?thesis by (simp add: aside_wf_def)
qed

lemma ahead_total: "\<not> ahead bid p q \<Longrightarrow> ahead bid q p"
  by (auto simp: ahead_def split: if_splits)

lemma ahead_trans: "ahead bid p q \<Longrightarrow> ahead bid q r \<Longrightarrow> ahead bid p r"
  by (auto simp: ahead_def split: if_splits)

lemma sorted_dropWhile_behind:
  assumes "sorted_wrt (\<lambda>x y. ahead bid (aPrice x) (aPrice y)) xs"
    and "y \<in> set (dropWhile (\<lambda>y. ahead bid (aPrice y) p) xs)"
  shows "ahead bid p (aPrice y)"
  using assms
  by (induction xs) (auto split: if_splits intro: ahead_total ahead_trans)

lemma sorted_ainsert:
  assumes "sorted_wrt (\<lambda>x y. ahead bid (aPrice x) (aPrice y)) xs"
  shows "sorted_wrt (\<lambda>x y. ahead bid (aPrice x) (aPrice y)) (ainsert bid x xs)"
proof -
  let ?P = "\<lambda>y. ahead bid (aPrice y) (aPrice x)" and ?R = "\<lambda>x y. ahead bid (aPrice x) (aPrice y)"
  have split: "sorted_wrt ?R (takeWhile ?P xs @ dropWhile ?P xs)" using assms by simp
  have before: "\<forall>y\<in>set (takeWhile ?P xs). ?R y x" by (auto dest: set_takeWhileD)
  have after: "\<forall>y\<in>set (dropWhile ?P xs). ?R x y" using sorted_dropWhile_behind [OF assms] by blast
  from split before after show ?thesis
    unfolding ainsert_def by (simp add: sorted_wrt_append) (blast intro: ahead_trans)
qed

lemma aside_wf_ainsert: "aside_wf bid xs \<Longrightarrow> aresting bid x \<Longrightarrow> aside_wf bid (ainsert bid x xs)"
  by (simp add: aside_wf_def sorted_ainsert)

lemma aside_wf_filter: "aside_wf bid xs \<Longrightarrow> aside_wf bid (filter P xs)"
  by (simp add: aside_wf_def sorted_wrt_filter)

lemma amatch_prices: "amatch t ms = (t', fs, ms') \<Longrightarrow> set (map aPrice ms') \<subseteq> set (map aPrice ms)"
proof -
  assume "amatch t ms = (t', fs, ms')"
  then obtain k where "map akey ms' = drop k (map akey ms)" using amatch_suffix by blast
  then have "map snd (map akey ms') = drop k (map snd (map akey ms))" by (simp add: drop_map)
  then show ?thesis by (metis (no_types, lifting) comp_def list.map_comp map_eq_conv set_drop_subset snd_conv)
qed

lemma amatch_done:
  assumes "amatch t ms = (t', fs, ms')" and "0 \<le> arem t" and "aside_wf bid ms" and "arem t' \<noteq> 0"
    and "bid = (aSide t = Sell)" and "aSide t = Buy \<or> aSide t = Sell"
    and "y \<in> set ms'"
  shows "\<not> acrosses t (aPrice y)"
proof -
  have "\<forall>m\<in>set ms. 0 < arem m" using assms(3) by (auto simp: aside_wf_def aresting_def arem_def)
  from amatch_correct [OF assms(1,2) this] assms(4,7)
  have hd: "\<not> acrosses t (aPrice (hd ms'))" by (auto simp: amatch_post_def)
  from aside_wf_match [OF assms(1,3)] assms(7) have "y = hd ms' \<or> ahead bid (aPrice (hd ms')) (aPrice y)"
    by (cases ms') (auto simp: aside_wf_def)
  with hd assms(5,6) show ?thesis by (auto simp: crosses_def ahead_def split: if_splits)
qed

lemma anew_resting: "anew t \<Longrightarrow> arem t' \<noteq> 0 \<Longrightarrow> t' = afill n t \<Longrightarrow> 0 \<le> n \<Longrightarrow> 0 \<le> arem t' \<Longrightarrow>
    aresting (aSide t = Buy) t'"
  by (auto simp: anew_def aresting_def arem_def)

lemma amatch_filled:
  assumes "amatch t ms = (t', fs, ms')" and "0 \<le> arem t" and "\<forall>m\<in>set ms. 0 < arem m"
  shows "0 \<le> (\<Sum>(m, q)\<leftarrow>fs. q)" and "0 \<le> arem t'"
proof -
  from amatch_correct [OF assms] have p: "0 \<le> arem t'" "\<forall>(m, q)\<in>set fs. 0 < q"
    by (auto simp: amatch_post_def)
  then show "0 \<le> arem t'" by simp
  show "0 \<le> (\<Sum>(m, q)\<leftarrow>fs. q)" using p(2) by (intro sum_list_nonneg_map) auto
qed

lemma distinct_ids_Place:
  assumes "amatch t ms = (t', fs, ms')" and "distinct (map aID (xs @ ms))"
  shows "distinct (map aID (xs @ ms'))" and "set (map aID ms') \<subseteq> set (map aID ms)"
proof -
  obtain k where "map akey ms' = drop k (map akey ms)" using amatch_suffix [OF assms(1)] ..
  then have "map fst (map akey ms') = drop k (map fst (map akey ms))" by (simp add: drop_map)
  then have k: "map aID ms' = drop k (map aID ms)" by (simp add: comp_def)
  then show "set (map aID ms') \<subseteq> set (map aID ms)" by (simp add: set_drop_subset del: set_map)
  with assms(2) k show "distinct (map aID (xs @ ms'))" by (auto simp del: set_map)
qed

lemma aside_wf_arem: "aside_wf bid xs \<Longrightarrow> \<forall>x\<in>set xs. 0 < arem x"
  by (auto simp: aside_wf_def aresting_def arem_def)

lemma uncrossed_prices:
  "uncrossed B \<longleftrightarrow> (\<forall>p\<in>set (map aPrice (aBids B)). \<forall>q\<in>set (map aPrice (aAsks B)). p < q)"
  by (simp add: uncrossed_def)

lemma distinct_ids_ainsert:
  "distinct (map aID (ainsert bid x xs @ ys)) \<longleftrightarrow>
     aID x \<notin> set (map aID (xs @ ys)) \<and> distinct (map aID (xs @ ys))"
proof -
  have "distinct (map aID (ainsert bid x xs @ ys)) = distinct (map aID (x # xs @ ys))"
    by (intro mset_eq_imp_distinct_iff) (simp add: mset_ainsert)
  then show ?thesis by simp
qed

lemma distinct_append_swap: "distinct (xs @ ys) = distinct (ys @ xs)"
  by (auto simp: Int_commute)

lemma aPlace_wf:
  assumes B: "abook_wf B" and t: "anew t" and fresh: "aID t \<notin> set (map aID (aorders B))"
    and pl: "aPlace t B = (t', fs, rel, B')"
  shows "abook_wf B'"
proof -
  obtain ms' where m: "amatch t (aopposite t B) = (t', fs, ms')"
    and B': "B' = (if arem t' = 0 then aset_opposite t ms' B else arest t' (aset_opposite t ms' B))"
    using pl by (rule aPlaceE)
  let ?bid = "aSide t = Sell"
  have sd: "aSide t = Buy \<or> aSide t = Sell" and pos: "0 \<le> arem t"
    using t by (auto simp: anew_def arem_def)
  have opp: "aside_wf ?bid (aopposite t B)"
    using B sd by (auto simp: aopposite_def abook_wf_def)
  note t' = amatch_taker [OF m] and fill = amatch_filled [OF m pos aside_wf_arem [OF opp]]
  note ms' = aside_wf_match [OF m opp] and prices = amatch_prices [OF m]
  have rest: "aresting (aSide t = Buy) t'" if "arem t' \<noteq> 0"
    using anew_resting [OF t that t' fill(1,2)] .
  have stops: "\<not> acrosses t (aPrice y)" if "arem t' \<noteq> 0" "y \<in> set ms'" for y
    using amatch_done [OF m pos opp that(1) refl sd that(2)] .
  have keep [simp]: "aSide t' = aSide t" "aPrice t' = aPrice t" "aID t' = aID t" by (simp_all add: t')
  show ?thesis
  proof (cases "aSide t = Buy")
    case True
    then have o1: "aopposite t B = aAsks B" by (simp add: aopposite_def)
    have ids: "distinct (map aID (aBids B @ ms'))" "set (map aID ms') \<subseteq> set (map aID (aAsks B))"
      using distinct_ids_Place [OF m, of "aBids B"] B by (simp_all add: abook_wf_def aorders_def o1 del: set_map)
    have unc: "\<forall>p\<in>set (map aPrice (aBids B)). \<forall>q\<in>set (map aPrice ms'). p < q"
      using B prices by (auto simp: abook_wf_def uncrossed_prices o1 simp del: set_map)
    show ?thesis
    proof (cases "arem t' = 0")
      case True
      with \<open>aSide t = Buy\<close> B ms' ids(1) unc show ?thesis
        by (simp add: B' aset_opposite_def abook_wf_def aorders_def uncrossed_prices)
    next
      case False
      have "\<forall>y\<in>set ms'. aPrice t < aPrice y" using stops [OF False] \<open>aSide t = Buy\<close> by (auto simp: crosses_def not_le)
      moreover have "aside_wf True (ainsert True t' (aBids B))"
        using B rest [OF False] \<open>aSide t = Buy\<close> by (simp add: abook_wf_def aside_wf_ainsert)
      moreover have "distinct (map aID (ainsert True t' (aBids B) @ ms'))"
        unfolding distinct_ids_ainsert using ids fresh by (auto simp: aorders_def)
      ultimately show ?thesis
        using \<open>aSide t = Buy\<close> False ms' unc
        by (simp add: B' aset_opposite_def arest_def abook_wf_def aorders_def uncrossed_prices)
    qed
  next
    case sell: False
    then have o1: "aopposite t B = aBids B" using sd by (auto simp: aopposite_def)
    have ids: "distinct (map aID (aAsks B @ ms'))" "set (map aID ms') \<subseteq> set (map aID (aBids B))"
      using distinct_ids_Place [OF m, of "aAsks B"] B
      by (simp_all add: abook_wf_def aorders_def o1 distinct_append_swap Int_commute del: set_map)
    have unc: "\<forall>p\<in>set (map aPrice ms'). \<forall>q\<in>set (map aPrice (aAsks B)). p < q"
      using B prices by (auto simp: abook_wf_def uncrossed_prices o1 simp del: set_map)
    show ?thesis
    proof (cases "arem t' = 0")
      case True
      with sell sd B ms' ids(1) unc show ?thesis
        by (auto simp: B' aset_opposite_def abook_wf_def aorders_def uncrossed_prices)
    next
      case False
      have "\<forall>y\<in>set ms'. aPrice y < aPrice t" using stops [OF False] sell by (auto simp: crosses_def not_le)
      moreover have "aside_wf False (ainsert False t' (aAsks B))"
        using B rest [OF False] sell by (simp add: abook_wf_def aside_wf_ainsert)
      moreover have "distinct (map aID (ainsert False t' (aAsks B) @ ms'))"
        unfolding distinct_ids_ainsert using ids fresh by (auto simp: aorders_def)
      ultimately show ?thesis
        using sell sd False ms' unc
        by (auto simp: B' aset_opposite_def arest_def abook_wf_def aorders_def uncrossed_prices)
    qed
  qed
qed

lemma aCancel_wf:
  assumes "abook_wf B" and "aCancel i B = Some (x, B')"
  shows "abook_wf B'"
proof -
  have "aorders B' = filter (\<lambda>y. aID y \<noteq> i) (aorders B)" using assms(2) by (auto simp: aCancel_def aorders_def)
  then have "distinct (map aID (aorders B'))" using assms(1) by (simp add: abook_wf_def distinct_map_filter)
  then show ?thesis
    using assms by (auto simp: abook_wf_def aCancel_def uncrossed_def aside_wf_filter)
qed

lemma sum_list_filter_id:
  fixes f :: "aorder \<Rightarrow> int"
  shows "distinct (map aID xs) \<Longrightarrow> find (\<lambda>x. aID x = i) xs = Some x \<Longrightarrow>
    sum_list (map f (filter (\<lambda>y. aID y \<noteq> i) xs)) = sum_list (map f xs) - f x"
proof (induction xs)
  case (Cons y ys)
  have "aID y \<notin> aID ` set ys \<Longrightarrow> filter (\<lambda>z. aID z \<noteq> aID y) ys = ys"
    by (intro filter_True) (metis imageI)
  with Cons show ?case by (auto split: if_splits)
qed simp

lemma aCancel_collateral:
  assumes "abook_wf B" and "aCancel i B = Some (x, B')"
  shows "restingCOP u B = restingCOP u B' + cop_of u x" and "restingVIB u B = restingVIB u B' + vib_of u x"
    and "x \<in> set (aorders B)" and "aID x = i"
proof -
  have d: "distinct (map aID (aorders B))" and f: "find (\<lambda>x. aID x = i) (aorders B) = Some x"
    and B': "aorders B' = filter (\<lambda>y. aID y \<noteq> i) (aorders B)"
    using assms by (auto simp: abook_wf_def aCancel_def aorders_def)
  from sum_list_filter_id [OF d f] B'
  show "restingCOP u B = restingCOP u B' + cop_of u x" "restingVIB u B = restingVIB u B' + vib_of u x"
    by (simp_all add: restingCOP_def restingVIB_def)
  from f show "x \<in> set (aorders B)" "aID x = i" by (auto simp: find_Some_iff)
qed
end
