(* ===== verification/Book_Side.thy ===== *)
theory Book_Side
  imports Book_Spec
begin

section \<open>One side of the book is a price-time queue\<close>

text \<open>
  The contract between matching and a side of the book (\<open>bookSide\<close> in \<open>orderbook.go\<close>) as a
  locale: what the queue returns first, where an order is inserted, what the best one leaves
  behind. Then the proof that the sorted slice of prices, the map of levels and their queues
  implement it, for the bids and for the asks, and that \<open>remove\<close> takes out one order.
\<close>

subsection \<open>The price-time queue: one side of the book\<close>

definition before :: "bool \<Rightarrow> int \<Rightarrow> int \<Rightarrow> bool" where
  "before bid p q = (if bid then q < p else p < q)"

definition side_wf :: "bool \<Rightarrow> (oref \<Rightarrow> int) \<Rightarrow> bookSide \<Rightarrow> bool" where
  "side_wf bid pr s \<longleftrightarrow> isBid s = bid \<and> sorted_wrt (before bid) (prices s)
     \<and> set (prices s) = dom (levels s)
     \<and> (\<forall>p lvl. levels s p = Some lvl \<longrightarrow>
          lvl_price lvl = p \<and> lvl_queue lvl \<noteq> [] \<and> (\<forall>r\<in>set (lvl_queue lvl). pr r = p))"

locale price_time_queue =
  fixes refs :: "'s \<Rightarrow> oref list"
    and first :: "'s \<Rightarrow> int option"
    and add :: "int \<Rightarrow> oref \<Rightarrow> 's \<Rightarrow> 's"
    and pop :: "'s \<Rightarrow> 's"
    and new :: 's
    and price :: "oref \<Rightarrow> int"
    and ranks :: "int \<Rightarrow> int \<Rightarrow> bool"
    and inv :: "'s \<Rightarrow> bool"
  assumes ranks_total: "ranks p q \<or> ranks q p"
    and ranks_trans: "ranks p q \<Longrightarrow> ranks q p' \<Longrightarrow> ranks p p'"
    and ranks_antisym: "ranks p q \<Longrightarrow> ranks q p \<Longrightarrow> p = q"
    and new_refs: "refs new = []"
    and new_inv: "inv new"
    and first_refs: "inv s \<Longrightarrow> first s = (case refs s of [] \<Rightarrow> None | r # _ \<Rightarrow> Some (price r))"
    and add_refs: "inv s \<Longrightarrow> price r = p \<Longrightarrow>
      refs (add p r s) = takeWhile (\<lambda>x. ranks (price x) p) (refs s)
        @ r # dropWhile (\<lambda>x. ranks (price x) p) (refs s)"
    and add_inv: "inv s \<Longrightarrow> price r = p \<Longrightarrow> inv (add p r s)"
    and pop_refs: "inv s \<Longrightarrow> refs s \<noteq> [] \<Longrightarrow> refs (pop s) = tl (refs s)"
    and pop_inv: "inv s \<Longrightarrow> refs s \<noteq> [] \<Longrightarrow> inv (pop s)"
    and refs_sorted: "inv s \<Longrightarrow> sorted_wrt (\<lambda>x y. ranks (price x) (price y)) (refs s)"
begin

lemma first_best:
  assumes "inv s" and "r \<in> set (refs s)"
  shows "\<exists>p. first s = Some p \<and> ranks p (price r)"
  using first_refs [OF assms(1)] refs_sorted [OF assms(1)] assms(2) ranks_total
  by (cases "refs s") auto

text \<open>A new order waits behind every order that is at least as good: FIFO within a price.\<close>

lemma add_behind:
  assumes "inv s" and "price r = p"
  shows "filter (\<lambda>x. price x = p) (refs (add p r s)) = filter (\<lambda>x. price x = p) (refs s) @ [r]"
proof -
  let ?P = "\<lambda>x. ranks (price x) p"
  have none: "filter (\<lambda>x. price x = p) (dropWhile ?P (refs s)) = []"
  proof -
    have behind: "\<not> ranks (price x) p" if x: "x \<in> set (dropWhile ?P (refs s))" for x
    proof -
      obtain y ys where d: "dropWhile ?P (refs s) = y # ys" using x
        by (cases "dropWhile ?P (refs s)") (auto simp del: dropWhile_eq_Nil_conv)
      have "\<not> ?P y" using d hd_dropWhile [of ?P "refs s"] by simp
      have "sorted_wrt (\<lambda>x y. ranks (price x) (price y)) (y # ys)"
        using refs_sorted [OF assms(1)] d by (metis sorted_wrt_append takeWhile_dropWhile_id)
      then have "x = y \<or> ranks (price y) (price x)" using x unfolding d by auto
      with \<open>\<not> ?P y\<close> show ?thesis by (blast intro: ranks_trans)
    qed
    have "ranks p p" using ranks_total by blast
    with behind show ?thesis unfolding filter_empty_conv by blast
  qed
  have "filter (\<lambda>x. price x = p) (refs s)
      = filter (\<lambda>x. price x = p) (takeWhile ?P (refs s)) @ filter (\<lambda>x. price x = p) (dropWhile ?P (refs s))"
    by (metis filter_append takeWhile_dropWhile_id)
  with none assms show ?thesis by (simp add: add_refs)
qed

lemma drain_order: "inv s \<Longrightarrow> n \<le> length (refs s) \<Longrightarrow> refs ((pop ^^ n) s) = drop n (refs s) \<and> inv ((pop ^^ n) s)"
proof (induction n)
  case (Suc n)
  then have "refs ((pop ^^ n) s) \<noteq> []" by simp
  with Suc pop_refs pop_inv show ?case by (simp add: drop_Suc tl_drop)
qed simp

end

subsection \<open>The side of the code is a price-time queue\<close>

lemma ahead_before: "ahead bid p q \<longleftrightarrow> before bid p q \<or> p = q"
  by (auto simp: ahead_def before_def)

lemma before_irrefl [simp]: "\<not> before bid p p"
  by (simp add: before_def)

lemma before_asym: "before bid p q \<Longrightarrow> \<not> before bid q p"
  by (simp add: before_def split: if_splits)

lemma not_ahead: "\<not> ahead bid p q \<longleftrightarrow> before bid q p"
  by (auto simp: ahead_def before_def)

lemma before_sorted_distinct: "sorted_wrt (before bid) ps \<Longrightarrow> distinct ps"
  by (induction ps) auto

lemma side_wfD:
  assumes "side_wf bid pr s"
  shows "isBid s = bid" "sorted_wrt (before bid) (prices s)" "set (prices s) = dom (levels s)"
    "distinct (prices s)"
    "levels s p = Some lvl \<Longrightarrow> lvl_price lvl = p"
    "levels s p = Some lvl \<Longrightarrow> lvl_queue lvl \<noteq> []"
    "levels s p = Some lvl \<Longrightarrow> r \<in> set (lvl_queue lvl) \<Longrightarrow> pr r = p"
  using assms before_sorted_distinct by (auto simp: side_wf_def)

lemma side_wf_new [simp]: "side_wf bid pr (newBookSide bid)" "side_refs (newBookSide bid) = []"
  by (simp_all add: side_wf_def newBookSide_def side_refs_def)

lemma side_refs_price:
  assumes "side_wf bid pr s"
  shows "r \<in> set (side_refs s) \<longleftrightarrow> (\<exists>lvl. levels s (pr r) = Some lvl \<and> r \<in> set (lvl_queue lvl))"
proof
  assume "r \<in> set (side_refs s)"
  then obtain p where "r \<in> set (level_queue s p)" by (auto simp: side_refs_def)
  then obtain lvl where "levels s p = Some lvl" "r \<in> set (lvl_queue lvl)"
    by (cases "levels s p") (auto simp: level_queue_def)
  with side_wfD(7) [OF assms] show "\<exists>lvl. levels s (pr r) = Some lvl \<and> r \<in> set (lvl_queue lvl)"
    by fastforce
next
  assume "\<exists>lvl. levels s (pr r) = Some lvl \<and> r \<in> set (lvl_queue lvl)"
  then obtain lvl where l: "levels s (pr r) = Some lvl" "r \<in> set (lvl_queue lvl)" by blast
  then have "pr r \<in> set (prices s)" using side_wfD(3) [OF assms] by auto
  with l show "r \<in> set (side_refs s)"
    by (simp add: side_refs_def) (rule bexI [of _ "pr r"], simp_all add: level_queue_def)
qed

lemma side_wf_cong:
  assumes "side_wf bid pr s" and "\<And>r. r \<in> set (side_refs s) \<Longrightarrow> pr' r = pr r"
  shows "side_wf bid pr' s"
proof -
  have "pr' r = p" if "levels s p = Some lvl" "r \<in> set (lvl_queue lvl)" for p lvl r
    using that side_wfD(7) [OF assms(1) that] assms(2) [of r] side_refs_price [OF assms(1), of r] by auto
  then show ?thesis using assms(1) by (auto simp: side_wf_def)
qed

lemma side_refs_Cons:
  assumes "side_wf bid pr s" and "prices s = p # ps"
  obtains lvl r q where "levels s p = Some lvl" and "lvl_queue lvl = r # q" and "pr r = p"
    and "side_refs s = r # q @ concat (map (level_queue s) ps)"
proof -
  from side_wfD(3) [OF assms(1)] assms(2) obtain lvl where l: "levels s p = Some lvl" by (cases "levels s p") auto
  with side_wfD(6) [OF assms(1)] obtain r q where "lvl_queue lvl = r # q" by (meson neq_Nil_conv)
  with l assms side_wfD(7) [OF assms(1) l] show thesis
    by (intro that) (auto simp: side_refs_def level_queue_def)
qed

lemma best_refs:
  assumes "side_wf bid pr s"
  shows "best s = (case side_refs s of [] \<Rightarrow> None | r # _ \<Rightarrow> Some (pr r))"
proof (cases "prices s")
  case Nil
  then show ?thesis by (simp add: best_def side_refs_def)
next
  case (Cons p ps)
  then show ?thesis by (rule side_refs_Cons [OF assms]) (auto simp: best_def Cons)
qed

lemma sorted_wrt_remove1: "sorted_wrt P xs \<Longrightarrow> sorted_wrt P (remove1 x xs)"
  by (induction xs) (auto dest: notin_set_remove1 set_remove1_subset [THEN subsetD])

text \<open>Storing a shorter queue in a level: both \<open>popFront\<close> and \<open>remove\<close>.\<close>

lemma set_queue_wf:
  assumes wf: "side_wf bid pr s" and l: "levels s k = Some lvl" and q: "set q \<subseteq> set (lvl_queue lvl)"
  shows "side_wf bid pr (set_queue k lvl q s)"
    and "side_refs (set_queue k lvl q s)
      = concat (map (\<lambda>p. if p = k then q else level_queue s p) (prices s))"
proof -
  note [simp] = side_wfD(5) [OF wf l]
  have k: "k \<in> set (prices s)" using side_wfD(3) [OF wf] l by auto
  show "side_wf bid pr (set_queue k lvl q s)"
    using wf q l side_wfD(4) [OF wf]
    unfolding side_wf_def by (auto simp: sorted_wrt_remove1 split: if_splits)
  show "side_refs (set_queue k lvl q s)
      = concat (map (\<lambda>p. if p = k then q else level_queue s p) (prices s))"
  proof (cases "q = []")
    case False
    then show ?thesis
      by (auto simp: side_refs_def level_queue_def intro!: arg_cong [where f = concat])
  next
    case True
    obtain xs ys where ps: "prices s = xs @ k # ys" using k by (meson split_list)
    with side_wfD(4) [OF wf] have "k \<notin> set xs" "k \<notin> set ys" by auto
    with True ps show ?thesis
      by (auto simp: side_refs_def level_queue_def remove1_append
          intro!: arg_cong2 [where f = "(@)"] arg_cong [where f = concat])
  qed
qed

lemma popFront_refs:
  assumes wf: "side_wf bid pr s" and r: "side_refs s = r # rs"
  obtains lvl where "levels s (pr r) = Some lvl" and "hd (lvl_queue lvl) = r" and "lvl_queue lvl \<noteq> []"
    and "side_refs (popFront (pr r) lvl s) = rs" and "side_wf bid pr (popFront (pr r) lvl s)"
proof -
  from r obtain p ps where ps: "prices s = p # ps" by (cases "prices s") (auto simp: side_refs_def)
  then obtain lvl r' q where l: "levels s p = Some lvl" "lvl_queue lvl = r' # q" "pr r' = p"
    and refs: "side_refs s = r' # q @ concat (map (level_queue s) ps)"
    by (rule side_refs_Cons [OF wf])
  from refs r have r': "r' = r" "rs = q @ concat (map (level_queue s) ps)" by auto
  have notin: "p \<notin> set ps" using side_wfD(4) [OF wf] ps by simp
  have "side_refs (popFront p lvl s)
      = concat (map (\<lambda>x. if x = p then q else level_queue s x) (prices s))"
    using set_queue_wf(2) [OF wf l(1), of q] by (auto simp: popFront_def l(2))
  with notin have "side_refs (popFront p lvl s) = rs"
    by (auto simp: ps r' intro!: arg_cong [where f = concat])
  moreover have "side_wf bid pr (popFront p lvl s)"
    unfolding popFront_def by (rule set_queue_wf(1) [OF wf l(1)]) (auto simp: l(2))
  ultimately show thesis using l r' by (intro that) auto
qed

lemma before_trans: "before bid p q \<Longrightarrow> before bid q r \<Longrightarrow> before bid p r"
  by (simp add: before_def split: if_splits)

lemma before_total: "p \<noteq> q \<Longrightarrow> \<not> before bid p q \<Longrightarrow> before bid q p"
  by (auto simp: before_def split: if_splits)

text \<open>The slice manipulation of \<open>insertPrice\<close> is an insertion at position \<open>i\<close>.\<close>

lemma slice_insert:
  assumes "i \<le> length ps"
  shows "(take (i + 1) (ps @ [a]) @ go_copy (drop (i + 1) (ps @ [a])) (drop i (ps @ [a])))[i := p]
    = take i ps @ p # drop i ps"
proof (cases "i = length ps")
  case True
  then show ?thesis by (simp add: go_copy_def)
next
  case False
  with assms have lt: "i < length ps" by simp
  have "go_copy (drop (i + 1) (ps @ [a])) (drop i (ps @ [a])) = drop i ps"
    using lt by (simp add: go_copy_def)
  moreover have "take (i + 1) (ps @ [a]) = take i ps @ [ps ! i]"
    using lt by (simp add: take_Suc_conv_app_nth)
  ultimately show ?thesis using lt by (simp add: list_update_append)
qed

lemma insertPrice_prices:
  assumes "sorted_wrt (before bid) (prices s)" and "isBid s = bid"
  shows "prices (insertPrice p s) = takeWhile (\<lambda>x. \<not> before bid p x) (prices s)
      @ p # dropWhile (\<lambda>x. \<not> before bid p x) (prices s)"
proof -
  let ?i = "length (takeWhile (\<lambda>x. \<not> before bid p x) (prices s))"
  have "sorted_wrt (\<lambda>x y. before bid p x \<longrightarrow> before bid p y) (prices s)"
    by (rule sorted_wrt_mono_rel [OF _ assms(1)]) (blast intro: before_trans)
  from sort_search_takeWhile [OF this]
  have i: "(if isBid s then sort_search (length (prices s)) (\<lambda>i. prices s ! i < p)
      else sort_search (length (prices s)) (\<lambda>i. prices s ! i > p)) = ?i"
    by (cases bid) (simp_all add: assms(2) before_def)
  have "?i \<le> length (prices s)" by (rule length_takeWhile_le)
  note e = slice_insert [OF this, of 0 p]
  show ?thesis
    by (simp only: insertPrice_def i Let_def e takeWhile_eq_take [symmetric] dropWhile_eq_drop [symmetric])
      simp
qed

lemma insertPrice_fields [simp]:
  "isBid (insertPrice p s) = isBid s" "levels (insertPrice p s) = levels s"
  by (simp_all add: insertPrice_def Let_def)

lemma takeWhile_dropWhile_append:
  assumes "\<forall>a\<in>set A. P a" and "\<forall>b\<in>set B. \<not> P b"
  shows "takeWhile P (A @ B) = A" and "dropWhile P (A @ B) = B"
  using assms by (cases B; simp)+

text \<open>The prices before \<open>p\<close> and those behind it, with \<open>p\<close> between them if it is there.\<close>

lemma prices_split_Some:
  assumes "side_wf bid pr s" and "levels s p = Some lvl"
  obtains xs ys where "prices s = xs @ p # ys"
    and "\<forall>x\<in>set xs. before bid x p" and "\<forall>y\<in>set ys. before bid p y"
proof -
  have "p \<in> set (prices s)" using side_wfD(3) [OF assms(1)] assms(2) by auto
  then obtain xs ys where ps: "prices s = xs @ p # ys" by (meson split_list)
  with side_wfD(2) [OF assms(1)] have "\<forall>x\<in>set xs. before bid x p" "\<forall>y\<in>set ys. before bid p y"
    by (auto simp: sorted_wrt_append)
  with ps show thesis by (rule that)
qed

lemma prices_split_None:
  assumes "side_wf bid pr s" and "levels s p = None"
  shows "\<forall>x\<in>set (takeWhile (\<lambda>x. \<not> before bid p x) (prices s)). before bid x p"
    and "\<forall>y\<in>set (dropWhile (\<lambda>x. \<not> before bid p x) (prices s)). before bid p y" (is "\<forall>y\<in>set ?ys. _")
proof -
  have notin: "p \<notin> set (prices s)" using side_wfD(3) [OF assms(1)] assms(2) by auto
  then show "\<forall>x\<in>set (takeWhile (\<lambda>x. \<not> before bid p x) (prices s)). before bid x p"
    by (auto dest!: set_takeWhileD intro: before_total)
  show "\<forall>y\<in>set ?ys. before bid p y"
  proof (cases ?ys)
    case Nil
    show ?thesis unfolding Nil by simp
  next
    case (Cons y zs)
    then have "before bid p y" using hd_dropWhile [of "\<lambda>x. \<not> before bid p x" "prices s"] by simp
    moreover have "sorted_wrt (before bid) (y # zs)"
      using side_wfD(2) [OF assms(1)] Cons by (metis sorted_wrt_append takeWhile_dropWhile_id)
    ultimately show ?thesis unfolding Cons by (auto intro: before_trans)
  qed
qed

lemma level_queue_price:
  "side_wf bid pr s \<Longrightarrow> r \<in> set (level_queue s p) \<Longrightarrow> pr r = p"
  using side_wfD(7) by (cases "levels s p") (fastforce simp: level_queue_def)+

lemma refs_split_around:
  assumes wf: "side_wf bid pr s"
    and xs: "\<forall>x\<in>set xs. before bid x p" and ys: "\<forall>y\<in>set ys. before bid p y"
    and mid: "\<forall>x\<in>set mid. pr x = p"
    and refs: "side_refs s = concat (map (level_queue s) xs) @ mid @ concat (map (level_queue s) ys)"
  shows "takeWhile (\<lambda>x. ahead bid (pr x) p) (side_refs s) = concat (map (level_queue s) xs) @ mid"
    and "dropWhile (\<lambda>x. ahead bid (pr x) p) (side_refs s) = concat (map (level_queue s) ys)"
proof -
  let ?A = "concat (map (level_queue s) xs) @ mid" and ?B = "concat (map (level_queue s) ys)"
  have A: "\<forall>a\<in>set ?A. ahead bid (pr a) p"
    using xs mid by (auto simp: ahead_before dest: level_queue_price [OF wf])
  have B: "\<forall>b\<in>set ?B. \<not> ahead bid (pr b) p"
    using ys by (auto simp: not_ahead dest: level_queue_price [OF wf])
  have r: "side_refs s = ?A @ ?B" by (simp add: refs)
  show "takeWhile (\<lambda>x. ahead bid (pr x) p) (side_refs s) = ?A"
    "dropWhile (\<lambda>x. ahead bid (pr x) p) (side_refs s) = ?B"
    unfolding r by (rule takeWhile_dropWhile_append [OF A B])+
qed

lemma level_queue_add:
  "level_queue (side_add p r s) x = (if x = p then level_queue s p @ [r] else level_queue s x)"
  by (auto simp: side_add_def Let_def level_queue_def split: option.splits)

lemma map_level_queue_add:
  "p \<notin> set xs \<Longrightarrow> map (level_queue (side_add p r s)) xs = map (level_queue s) xs"
  by (induction xs) (auto simp: level_queue_add)

lemma side_add_fields:
  "isBid (side_add p r s) = isBid s"
  "levels s p = Some lvl \<Longrightarrow> prices (side_add p r s) = prices s"
  "levels s p = None \<Longrightarrow> prices (side_add p r s) = prices (insertPrice p s)"
  "levels (side_add p r s) = (levels s)(p \<mapsto>
     (case levels s p of None \<Rightarrow> \<lparr>lvl_price = p, lvl_queue = [r]\<rparr>
      | Some lvl \<Rightarrow> lvl\<lparr>lvl_queue := lvl_queue lvl @ [r]\<rparr>))"
  by (auto simp: side_add_def Let_def insertPrice_def split: option.splits)

lemma side_add_prices:
  assumes wf: "side_wf bid pr s"
  obtains xs ys where "prices (side_add p r s) = xs @ p # ys"
    and "\<forall>x\<in>set xs. before bid x p" and "\<forall>y\<in>set ys. before bid p y"
    and "side_refs s = concat (map (level_queue s) xs) @ level_queue s p @ concat (map (level_queue s) ys)"
    and "set (prices (side_add p r s)) = insert p (set (prices s))"
    and "sorted_wrt (before bid) (xs @ ys)"
proof (cases "levels s p")
  case (Some lvl)
  then obtain xs ys where ps: "prices s = xs @ p # ys"
    "\<forall>x\<in>set xs. before bid x p" "\<forall>y\<in>set ys. before bid p y"
    by (rule prices_split_Some [OF wf])
  have "sorted_wrt (before bid) (xs @ ys)"
    using side_wfD(2) [OF wf] by (simp add: ps(1) sorted_wrt_append)
  then show thesis
    by (intro that [of xs ys]) (use ps Some in \<open>simp_all add: side_add_fields side_refs_def\<close>)
next
  case None
  let ?xs = "takeWhile (\<lambda>x. \<not> before bid p x) (prices s)"
  let ?ys = "dropWhile (\<lambda>x. \<not> before bid p x) (prices s)"
  have ps: "prices (side_add p r s) = ?xs @ p # ?ys"
    using insertPrice_prices [OF side_wfD(2) [OF wf] side_wfD(1) [OF wf]] None by (simp add: side_add_fields)
  have e: "prices s = ?xs @ ?ys" by simp
  show thesis
  proof (rule that [OF ps prices_split_None [OF wf None]])
    show "side_refs s = concat (map (level_queue s) ?xs) @ level_queue s p @ concat (map (level_queue s) ?ys)"
      using None unfolding side_refs_def by (subst e) (simp add: level_queue_def del: takeWhile_dropWhile_id)
    show "set (prices (side_add p r s)) = insert p (set (prices s))"
      unfolding ps by (subst (3) e) (simp del: takeWhile_dropWhile_id)
    show "sorted_wrt (before bid) (?xs @ ?ys)" using side_wfD(2) [OF wf] by simp
  qed
qed

lemma side_add_refs:
  assumes wf: "side_wf bid pr s" and r: "pr r = p"
  shows "side_refs (side_add p r s) = takeWhile (\<lambda>x. ahead bid (pr x) p) (side_refs s)
      @ r # dropWhile (\<lambda>x. ahead bid (pr x) p) (side_refs s)"
    and "side_wf bid pr (side_add p r s)"
proof -
  obtain xs ys where ps: "prices (side_add p r s) = xs @ p # ys"
    and xs: "\<forall>x\<in>set xs. before bid x p" and ys: "\<forall>y\<in>set ys. before bid p y"
    and refs: "side_refs s = concat (map (level_queue s) xs) @ level_queue s p @ concat (map (level_queue s) ys)"
    and set: "set (prices (side_add p r s)) = insert p (set (prices s))"
    and sorted: "sorted_wrt (before bid) (xs @ ys)"
    by (rule side_add_prices [OF wf])
  have notin: "p \<notin> set xs" "p \<notin> set ys" using xs ys by auto
  have mid: "\<forall>x\<in>set (level_queue s p). pr x = p" using level_queue_price [OF wf] by blast
  show "side_refs (side_add p r s) = takeWhile (\<lambda>x. ahead bid (pr x) p) (side_refs s)
      @ r # dropWhile (\<lambda>x. ahead bid (pr x) p) (side_refs s)"
    unfolding refs_split_around [OF wf xs ys mid refs]
    using notin by (simp add: side_refs_def ps level_queue_add map_level_queue_add)
  have "sorted_wrt (before bid) (xs @ p # ys)"
    using sorted xs ys by (simp add: sorted_wrt_append)
  then show "side_wf bid pr (side_add p r s)"
    using wf r set unfolding side_wf_def
    by (auto simp: side_add_fields ps split: option.splits)
qed

text \<open>The references of a side come best price first.\<close>

lemma concat_sorted_wrt:
  assumes "sorted_wrt R ps" and "\<And>p x. p \<in> set ps \<Longrightarrow> x \<in> set (f p) \<Longrightarrow> pr x = p"
    and "\<And>p q. R p q \<Longrightarrow> Q p q" and "\<And>p. Q p p"
  shows "sorted_wrt (\<lambda>x y. Q (pr x) (pr y)) (concat (map f ps))"
  using assms(1,2)
proof (induction ps)
  case (Cons p ps)
  have "\<forall>x\<in>set (f p). pr x = p" using Cons.prems(2) by auto
  then have "sorted_wrt (\<lambda>x y. Q (pr x) (pr y)) (f p)"
    by (simp add: sorted_wrt_iff_nth_less assms(4))
  moreover have "\<forall>x\<in>set (f p). \<forall>y\<in>set (concat (map f ps)). Q (pr x) (pr y)"
    using Cons.prems assms(3) by fastforce
  ultimately show ?case using Cons by (simp add: sorted_wrt_append)
qed simp

lemma ahead_refl [simp]: "ahead bid p p"
  by (simp add: ahead_def)

lemma side_refs_sorted:
  assumes "side_wf bid pr s"
  shows "sorted_wrt (\<lambda>x y. ahead bid (pr x) (pr y)) (side_refs s)"
  unfolding side_refs_def
  by (rule concat_sorted_wrt [OF side_wfD(2) [OF assms] level_queue_price [OF assms]])
    (auto simp: ahead_before)

text \<open>\<open>popFront\<close> at the best level, as the matching loop calls it.\<close>

definition pop_best :: "bookSide \<Rightarrow> bookSide" where
  "pop_best s = (case best s of None \<Rightarrow> s | Some p \<Rightarrow> popFront p (the (levels s p)) s)"

lemma pop_best_refs:
  assumes wf: "side_wf bid pr s" and "side_refs s \<noteq> []"
  shows "side_refs (pop_best s) = tl (side_refs s)" and "side_wf bid pr (pop_best s)"
proof -
  obtain r rs where r: "side_refs s = r # rs" using assms(2) by (meson neq_Nil_conv)
  then obtain lvl where lvl: "levels s (pr r) = Some lvl"
    "side_refs (popFront (pr r) lvl s) = rs" "side_wf bid pr (popFront (pr r) lvl s)"
    by (rule popFront_refs [OF wf])
  have "pop_best s = popFront (pr r) lvl s" using best_refs [OF wf] r lvl(1) by (simp add: pop_best_def)
  with r lvl show "side_refs (pop_best s) = tl (side_refs s)" "side_wf bid pr (pop_best s)" by simp_all
qed

lemma side_is_price_time_queue:
  "price_time_queue side_refs best side_add pop_best (newBookSide bid) pr (ahead bid) (side_wf bid pr)"
proof
  fix p q p' :: int
  show "ahead bid p q \<or> ahead bid q p" using ahead_total by blast
  show "ahead bid p q \<Longrightarrow> ahead bid q p' \<Longrightarrow> ahead bid p p'" by (rule ahead_trans)
  show "ahead bid p q \<Longrightarrow> ahead bid q p \<Longrightarrow> p = q" by (simp add: ahead_def split: if_splits)
qed (simp_all add: best_refs side_add_refs pop_best_refs side_refs_sorted)

interpretation bid_side: price_time_queue side_refs best side_add pop_best "newBookSide True" pr "ahead True" "side_wf True pr"
  for pr :: "oref \<Rightarrow> int"
  by (rule side_is_price_time_queue)

interpretation ask_side: price_time_queue side_refs best side_add pop_best "newBookSide False" pr "ahead False" "side_wf False pr"
  for pr :: "oref \<Rightarrow> int"
  by (rule side_is_price_time_queue)

subsection \<open>remove takes one order out\<close>

lemma queue_remove_remove1:
  assumes "inj_on (\<lambda>r. oID (h r)) (set q)" and "r \<in> set q"
  shows "queue_remove h (oID (h r)) q = Some (remove1 r q)"
  using assms by (induction q) (auto simp: inj_on_def)

lemma remove1_concat_map:
  assumes "distinct ps" and "k \<in> set ps" and "r \<in> set (f k)" and "\<And>p. p \<in> set ps \<Longrightarrow> r \<in> set (f p) \<Longrightarrow> p = k"
  shows "concat (map (\<lambda>p. if p = k then remove1 r (f k) else f p) ps) = remove1 r (concat (map f ps))"
  using assms
proof (induction ps)
  case (Cons p ps)
  show ?case
  proof (cases "p = k")
    case True
    then have "k \<notin> set ps" using Cons.prems(1) by simp
    then have "map (\<lambda>p. if p = k then remove1 r (f k) else f p) ps = map f ps"
      by (intro map_cong) auto
    then have "concat (map (\<lambda>p. if p = k then remove1 r (f k) else f p) ps) = concat (map f ps)"
      by (rule arg_cong)
    with True Cons.prems(3) show ?thesis by (simp add: remove1_append del: map_eq_conv)
  next
    case False
    then have "r \<notin> set (f p)" using Cons.prems(4) [of p] by auto
    moreover have "concat (map (\<lambda>p. if p = k then remove1 r (f k) else f p) ps)
        = remove1 r (concat (map f ps))"
      using False Cons.prems by (intro Cons.IH) auto
    ultimately show ?thesis using False by (simp add: remove1_append)
  qed
qed simp

lemma side_remove_refs:
  assumes wf: "side_wf bid pr s" and r: "r \<in> set (side_refs s)"
    and inj: "inj_on (\<lambda>r. oID (h r)) (set (side_refs s))" and pr: "pr r = oPrice (h r)"
  shows "fst (side_remove h (h r) s)"
    and "side_refs (snd (side_remove h (h r) s)) = remove1 r (side_refs s)"
    and "side_wf bid pr (snd (side_remove h (h r) s))"
proof -
  obtain lvl where lvl: "levels s (pr r) = Some lvl" "r \<in> set (lvl_queue lvl)"
    using side_refs_price [OF wf] r by blast
  then have k: "pr r \<in> set (prices s)" using side_wfD(3) [OF wf] by auto
  have lq: "level_queue s (pr r) = lvl_queue lvl" using lvl by (simp add: level_queue_def)
  have "set (lvl_queue lvl) \<subseteq> set (side_refs s)" using k lq by (auto simp: side_refs_def)
  then have "inj_on (\<lambda>r. oID (h r)) (set (lvl_queue lvl))" using inj by (rule inj_on_subset [rotated])
  from queue_remove_remove1 [OF this lvl(2)] have e: "side_remove h (h r) s = (True, set_queue (pr r) lvl (remove1 r (lvl_queue lvl)) s)"
    using lvl pr by (simp add: side_remove_def)
  have sub: "set (remove1 r (lvl_queue lvl)) \<subseteq> set (lvl_queue lvl)" by (rule set_remove1_subset)
  show "fst (side_remove h (h r) s)" by (simp add: e)
  show "side_wf bid pr (snd (side_remove h (h r) s))"
    using set_queue_wf(1) [OF wf lvl(1) sub] by (simp add: e)
  have "side_refs (snd (side_remove h (h r) s))
      = concat (map (\<lambda>p. if p = pr r then remove1 r (level_queue s (pr r)) else level_queue s p) (prices s))"
    unfolding e snd_conv set_queue_wf(2) [OF wf lvl(1) sub] lq ..
  also have "\<dots> = remove1 r (side_refs s)"
    unfolding side_refs_def
    by (rule remove1_concat_map [OF side_wfD(4) [OF wf] k])
      (simp_all add: lq lvl(2) level_queue_price [OF wf])
  finally show "side_refs (snd (side_remove h (h r) s)) = remove1 r (side_refs s)" .
qed

end
