(* ===== verification/Book_Refine.thy ===== *)
theory Book_Refine
  imports Book_Side
begin

section \<open>The code of the book implements the specification\<close>

text \<open>
  The representation invariant \<open>book_wf\<close> of \<open>OrderBook\<close> and its abstraction \<open>absB\<close>: read
  each side through the heap in queue order. \<open>Place\<close> and \<open>Cancel\<close> of the code are then
  \<open>aPlace\<close> and \<open>aCancel\<close> on the abstract book, with no panic and no wrap-around.
\<close>

subsection \<open>Abstraction and representation invariant\<close>

definition absO :: "order \<Rightarrow> aorder" where
  "absO o' = \<lparr>aID = oID o', aUser = oUserID o', aSide = oSide o', aPrice = oPrice o',
     aQty = oQuantity o', aFilled = oFilledQuantity o'\<rparr>"

lemma absO_simps [simp]:
  "aID (absO o') = oID o'" "aUser (absO o') = oUserID o'" "aSide (absO o') = oSide o'"
  "aPrice (absO o') = oPrice o'" "aQty (absO o') = oQuantity o'" "aFilled (absO o') = oFilledQuantity o'"
  "arem (absO o') = oQuantity o' - oFilledQuantity o'"
  by (simp_all add: absO_def arem_def)

lemma absO_update [simp]:
  "absO (o'\<lparr>oStatus := st\<rparr>) = absO o'" "absO (o'\<lparr>oSequence := n\<rparr>) = absO o'"
  "absO (o'\<lparr>oUpdatedAt := at\<rparr>) = absO o'" "absO (o'\<lparr>oCreatedAt := at\<rparr>) = absO o'"
  "absO (o'\<lparr>oFilledQuantity := oFilledQuantity o' + q\<rparr>) = afill q (absO o')"
  by (simp_all add: absO_def afill_def)

definition book_refs :: "OrderBook \<Rightarrow> oref list" where
  "book_refs b = side_refs (bids b) @ side_refs (asks b)"

definition absB :: "OrderBook \<Rightarrow> abook" where
  "absB b = \<lparr>aBids = map (\<lambda>r. absO (heap b r)) (side_refs (bids b)),
             aAsks = map (\<lambda>r. absO (heap b r)) (side_refs (asks b))\<rparr>"

definition resting_ok :: "bool \<Rightarrow> order \<Rightarrow> bool" where
  "resting_ok bid o' \<longleftrightarrow> aresting bid (absO o')
     \<and> oStatus o' = (if oFilledQuantity o' = 0 then StatusOpen else StatusPartiallyFilled)"

definition book_core :: "OrderBook \<Rightarrow> bool" where
  "book_core b \<longleftrightarrow>
     side_wf True (\<lambda>r. oPrice (heap b r)) (bids b)
     \<and> side_wf False (\<lambda>r. oPrice (heap b r)) (asks b)
     \<and> (\<forall>r\<in>set (side_refs (bids b)). resting_ok True (heap b r))
     \<and> (\<forall>r\<in>set (side_refs (asks b)). resting_ok False (heap b r))
     \<and> (\<forall>r\<in>set (book_refs b). r < fresh b)
     \<and> distinct (map (\<lambda>r. oID (heap b r)) (book_refs b))
     \<and> (\<forall>i r. orders b i = Some r \<longleftrightarrow> r \<in> set (book_refs b) \<and> oID (heap b r) = i)"

definition book_wf :: "OrderBook \<Rightarrow> bool" where
  "book_wf b \<longleftrightarrow> book_core b \<and> uncrossed (absB b)"

lemma aorders_absB: "aorders (absB b) = map (\<lambda>r. absO (heap b r)) (book_refs b)"
  by (simp add: aorders_def absB_def book_refs_def)

lemma book_core_ids:
  "book_core b \<Longrightarrow> distinct (book_refs b)"
  "book_core b \<Longrightarrow> inj_on (\<lambda>r. oID (heap b r)) (set (book_refs b))"
  unfolding book_core_def by (auto simp only: distinct_map)

lemma aside_wf_abs:
  assumes "side_wf bid (\<lambda>r. oPrice (h r)) s" and "\<forall>r\<in>set (side_refs s). resting_ok bid (h r)"
  shows "aside_wf bid (map (\<lambda>r. absO (h r)) (side_refs s))"
  using side_refs_sorted [OF assms(1)] assms(2)
  by (auto simp: aside_wf_def sorted_wrt_map resting_ok_def)

lemma book_wf_abs: "book_wf b \<Longrightarrow> abook_wf (absB b)"
  unfolding abook_wf_def aorders_absB
  by (auto simp: book_wf_def book_core_def absB_def comp_def intro!: aside_wf_abs)

lemma book_wf_iff: "book_wf b \<longleftrightarrow> book_core b \<and> abook_wf (absB b)"
  using book_wf_abs by (auto simp: book_wf_def abook_wf_def)

lemma book_wf_New: "book_wf (NewOrderBook symbol now)"
  by (simp add: book_wf_def book_core_def NewOrderBook_def book_refs_def uncrossed_def absB_def)

subsection \<open>Changes of the book that keep it well formed\<close>

lemma side_wf_heap_upd:
  "side_wf bid (\<lambda>r. oPrice (h r)) s \<Longrightarrow> r \<notin> set (side_refs s) \<or> oPrice o' = oPrice (h r) \<Longrightarrow>
   side_wf bid (\<lambda>x. oPrice ((h(r := o')) x)) s"
  by (erule side_wf_cong) auto

lemma book_core_cong:
  assumes core: "book_core b" and same: "bids b' = bids b" "asks b' = asks b" "orders b' = orders b"
    and fresh: "fresh b \<le> fresh b'" and heap: "\<And>r. r \<in> set (book_refs b) \<Longrightarrow> heap b' r = heap b r"
  shows "book_core b'"
proof -
  have refs: "book_refs b' = book_refs b" by (simp add: book_refs_def same)
  have h: "heap b' r = heap b r" if "r \<in> set (side_refs (bids b)) \<or> r \<in> set (side_refs (asks b))" for r
    using heap that by (auto simp: book_refs_def)
  have "map (\<lambda>r. oID (heap b' r)) (book_refs b') = map (\<lambda>r. oID (heap b r)) (book_refs b)"
    using heap by (simp add: refs)
  then have ids: "distinct (map (\<lambda>r. oID (heap b' r)) (book_refs b))"
    using core by (simp add: refs book_core_def del: map_eq_conv)
  have sides: "side_wf True (\<lambda>r. oPrice (heap b' r)) (bids b)" "side_wf False (\<lambda>r. oPrice (heap b' r)) (asks b)"
    using core h by (auto simp: book_core_def elim!: side_wf_cong)
  have ord: "\<forall>i r. orders b i = Some r \<longleftrightarrow> r \<in> set (book_refs b) \<and> oID (heap b' r) = i"
    using core heap by (auto simp: book_core_def)
  have less: "\<forall>r\<in>set (book_refs b). r < fresh b'"
    using core fresh by (auto simp: book_core_def)
  have ok: "\<forall>r\<in>set (side_refs (bids b)). resting_ok True (heap b' r)"
    "\<forall>r\<in>set (side_refs (asks b)). resting_ok False (heap b' r)"
    using core h by (simp_all add: book_core_def)
  show ?thesis
    unfolding book_core_def refs same using ids sides ord less ok by blast
qed

lemma book_core_heap_upd:
  assumes core: "book_core b" and r: "r \<in> set (book_refs b)"
    and o': "oID o' = oID (heap b r)" "oPrice o' = oPrice (heap b r)"
      "resting_ok (r \<in> set (side_refs (bids b))) o'"
  shows "book_core (b\<lparr>heap := (heap b)(r := o')\<rparr>)"
proof -
  have "distinct (book_refs b)" using book_core_ids(1) [OF core] .
  then have other: "r \<notin> set (side_refs (asks b)) \<or> r \<notin> set (side_refs (bids b))"
    by (auto simp: book_refs_def)
  have ids: "oID (((heap b)(r := o')) x) = oID (heap b x)" for x using o'(1) by simp
  show ?thesis
    using core o' other unfolding book_core_def book_refs_def
    by (auto simp: ids side_wf_heap_upd simp del: fun_upd_apply) (auto split: if_splits)
qed

text \<open>Taking the order \<open>r\<close> out of its side and out of the map.\<close>

definition drop_ref :: "oref \<Rightarrow> OrderBook \<Rightarrow> OrderBook \<Rightarrow> bool" where
  "drop_ref r b b' \<longleftrightarrow> heap b' = heap b \<and> fresh b' = fresh b
     \<and> orders b' = (orders b)(oID (heap b r) := None)
     \<and> side_wf True (\<lambda>r. oPrice (heap b r)) (bids b') \<and> side_wf False (\<lambda>r. oPrice (heap b r)) (asks b')
     \<and> side_refs (bids b') = remove1 r (side_refs (bids b))
     \<and> side_refs (asks b') = remove1 r (side_refs (asks b))"

lemma book_core_drop_ref:
  assumes core: "book_core b" and r: "r \<in> set (book_refs b)" and d: "drop_ref r b b'"
  shows "book_core b'" and "set (book_refs b') = set (book_refs b) - {r}"
proof -
  have dist: "distinct (side_refs (bids b))" "distinct (side_refs (asks b))"
    using book_core_ids(1) [OF core] by (auto simp: book_refs_def)
  show refs: "set (book_refs b') = set (book_refs b) - {r}"
    using d dist by (auto simp: drop_ref_def book_refs_def)
  have inj: "oID (heap b x) = oID (heap b r) \<longleftrightarrow> x = r" if "x \<in> set (book_refs b)" for x
    using book_core_ids(2) [OF core] that r by (auto simp: inj_on_def)
  have ord: "orders b' i = Some x \<longleftrightarrow> x \<in> set (book_refs b') \<and> oID (heap b' x) = i" for i x
    using core d inj unfolding refs by (auto simp: drop_ref_def book_core_def)
  have "distinct (map (\<lambda>x. oID (heap b' x)) (book_refs b'))"
    unfolding distinct_map
  proof
    show "distinct (book_refs b')"
      using d book_core_ids(1) [OF core] by (auto simp: drop_ref_def book_refs_def dest: set_remove1_subset [THEN subsetD])
    show "inj_on (\<lambda>x. oID (heap b' x)) (set (book_refs b'))"
      using book_core_ids(2) [OF core] d unfolding refs drop_ref_def by (auto intro: inj_on_subset)
  qed
  with ord refs core d dist show "book_core b'"
    unfolding book_core_def by (auto simp: drop_ref_def)
qed

subsection \<open>One iteration of the matching loop\<close>

definition taker_ok :: "order \<Rightarrow> bool" where
  "taker_ok t \<longleftrightarrow> (oSide t = Buy \<or> oSide t = Sell) \<and> 0 < oPrice t \<and> 0 \<le> oFilledQuantity t
     \<and> oFilledQuantity t \<le> oQuantity t \<and> oPrice t * oQuantity t \<le> max_i64"

definition match_wf :: "matching \<Rightarrow> bool" where
  "match_wf m \<longleftrightarrow> book_core (mBook m) \<and> taker_ok (mTaker m) \<and> 0 \<le> mRelease m
     \<and> mRelease m \<le> oPrice (mTaker m) * oFilledQuantity (mTaker m)"

definition own :: "order \<Rightarrow> OrderBook \<Rightarrow> bookSide" where
  "own t b = (if oSide t = Sell then asks b else bids b)"

definition absOpp :: "order \<Rightarrow> OrderBook \<Rightarrow> aorder list" where
  "absOpp t b = map (\<lambda>r. absO (heap b r)) (side_refs (opposite t b))"

text \<open>A fill of the code as one of the specification: the maker before it, and the quantity.\<close>

definition afill_of :: "Fill \<Rightarrow> aorder \<times> int" where
  "afill_of f = (afill (- tQuantity (fTrade f)) (absO (fMaker f)), tQuantity (fTrade f))"

definition fill_ok :: "order \<Rightarrow> string \<Rightarrow> Fill \<Rightarrow> bool" where
  "fill_ok t symb f \<longleftrightarrow>
     (let tr = fTrade f; mk = fMaker f; buy = (if oSide t = Buy then t else mk);
          sell = (if oSide t = Buy then mk else t)
      in tPrice tr = oPrice mk \<and> tSymbol tr = symb \<and> tID tr = symb @ ''-'' @ itoa (tSequence tr)
         \<and> tBuyOrderID tr = oID buy \<and> tBuyerID tr = oUserID buy
         \<and> tSellOrderID tr = oID sell \<and> tSellerID tr = oUserID sell
         \<and> oStatus mk = (if oFilledQuantity mk = oQuantity mk then StatusFilled else StatusPartiallyFilled))"

text \<open>What some iterations of the loop do, with the fills \<open>fs\<close>.\<close>

definition match_rel :: "matching \<Rightarrow> matching \<Rightarrow> afills \<Rightarrow> bool" where
  "match_rel m m' fs \<longleftrightarrow>
     (let t = mTaker m; b = mBook m; b' = mBook m'
      in mTaker m' = t\<lparr>oFilledQuantity := oFilledQuantity t + (\<Sum>(x, q)\<leftarrow>fs. q)\<rparr>
         \<and> (\<exists>new. mFills m' = mFills m @ new \<and> map afill_of new = fs \<and> (\<forall>f\<in>set new. fill_ok t (bSymbol b) f))
         \<and> mRelease m' = mRelease m + arelease (absO t) fs
         \<and> own t b' = own t b \<and> (\<forall>r. r \<notin> set (side_refs (opposite t b)) \<longrightarrow> heap b' r = heap b r)
         \<and> set (side_refs (opposite t b')) \<subseteq> set (side_refs (opposite t b))
         \<and> fresh b' = fresh b \<and> orderSeq b' = orderSeq b \<and> bSymbol b' = bSymbol b \<and> bnow b' = bnow b)"

lemma fill_ok_taker: "fill_ok (t\<lparr>oFilledQuantity := n\<rparr>) symb f = fill_ok t symb f"
  by (simp add: fill_ok_def Let_def)

lemma opposite_filled [simp]:
  "opposite (t\<lparr>oFilledQuantity := n\<rparr>) b = opposite t b" "own (t\<lparr>oFilledQuantity := n\<rparr>) b = own t b"
  by (simp_all add: opposite_def own_def)

lemma match_rel_refl: "match_rel m m []"
  by (simp add: match_rel_def Let_def arelease_def)

lemma arelease_Cons:
  "arelease (absO (t\<lparr>oFilledQuantity := n\<rparr>)) fs = arelease (absO t) fs"
  "arelease (absO t) ((x, q) # fs) = (if oSide t = Buy then (oPrice t - aPrice x) * q else 0) + arelease (absO t) fs"
  by (simp_all add: arelease_def)

lemma match_rel_trans:
  assumes 1: "match_rel m m1 [(x, q)]" and 2: "match_rel m1 m2 fs"
  shows "match_rel m m2 ((x, q) # fs)"
proof -
  let ?t = "mTaker m" and ?b = "mBook m"
  from 1 have t1: "mTaker m1 = ?t\<lparr>oFilledQuantity := oFilledQuantity ?t + q\<rparr>"
    by (simp add: match_rel_def Let_def)
  from 1 obtain new1 where n1: "mFills m1 = mFills m @ new1" "map afill_of new1 = [(x, q)]"
    "\<forall>f\<in>set new1. fill_ok ?t (bSymbol ?b) f"
    by (auto simp: match_rel_def Let_def)
  from 1 2 obtain new2 where n2: "mFills m2 = mFills m1 @ new2" "map afill_of new2 = fs"
    "\<forall>f\<in>set new2. fill_ok ?t (bSymbol ?b) f"
    unfolding match_rel_def Let_def t1 fill_ok_taker by force
  have "\<exists>new. mFills m2 = mFills m @ new \<and> map afill_of new = (x, q) # fs \<and> (\<forall>f\<in>set new. fill_ok ?t (bSymbol ?b) f)"
    by (rule exI [of _ "new1 @ new2"]) (use n1 n2 in auto)
  moreover have "mRelease m2 = mRelease m + arelease (absO ?t) ((x, q) # fs)"
    using 1 2 unfolding match_rel_def Let_def t1 arelease_Cons by (simp add: arelease_def)
  moreover have "\<forall>r. r \<notin> set (side_refs (opposite ?t ?b)) \<longrightarrow> heap (mBook m2) r = heap ?b r"
    "set (side_refs (opposite ?t (mBook m2))) \<subseteq> set (side_refs (opposite ?t ?b))"
    using 1 2 unfolding match_rel_def Let_def t1 by auto
  moreover have "mTaker m2 = ?t\<lparr>oFilledQuantity := oFilledQuantity ?t + (\<Sum>(x, q)\<leftarrow>(x, q) # fs. q)\<rparr>"
    using 2 unfolding match_rel_def Let_def t1 by (elim conjE) simp
  moreover have "own ?t (mBook m2) = own ?t ?b" "fresh (mBook m2) = fresh ?b"
    "orderSeq (mBook m2) = orderSeq ?b" "bSymbol (mBook m2) = bSymbol ?b" "bnow (mBook m2) = bnow ?b"
    using 1 2 unfolding match_rel_def Let_def t1 by auto
  ultimately show ?thesis
    unfolding match_rel_def Let_def by blast
qed

lemma Remaining_exact [i64_simps]:
  "0 \<le> oFilledQuantity o' \<Longrightarrow> oFilledQuantity o' \<le> oQuantity o' \<Longrightarrow> oQuantity o' \<le> max_i64 \<Longrightarrow>
   Remaining o' = oQuantity o' - oFilledQuantity o'"
  by (simp add: Remaining_def sub64_id i64_nonneg)

lemma qty_le_value: "0 < p \<Longrightarrow> 0 \<le> q \<Longrightarrow> q \<le> p * q" for p q :: int
  by (simp add: mult_le_cancel_right1)

lemma taker_ok_bounds:
  assumes "taker_ok t"
  shows "oQuantity t \<le> max_i64" "oPrice t * oFilledQuantity t \<le> max_i64"
    "Remaining t = arem (absO t)"
proof -
  have q: "0 < oPrice t" "0 \<le> oFilledQuantity t" "oFilledQuantity t \<le> oQuantity t" "oPrice t * oQuantity t \<le> max_i64"
    using assms by (auto simp: taker_ok_def)
  then show "oQuantity t \<le> max_i64" using qty_le_value [of "oPrice t" "oQuantity t"] by linarith
  with q show "Remaining t = arem (absO t)" by (simp add: i64_simps)
  have "oPrice t * oFilledQuantity t \<le> oPrice t * oQuantity t" using q by (intro mult_left_mono) auto
  with q show "oPrice t * oFilledQuantity t \<le> max_i64" by linarith
qed

lemma resting_ok_bounds:
  assumes "resting_ok bid o'"
  shows "oQuantity o' \<le> max_i64" "0 \<le> oFilledQuantity o'" "oFilledQuantity o' < oQuantity o'" "0 < oPrice o'"
    "oPrice o' * oQuantity o' \<le> max_i64" "Remaining o' = arem (absO o')" "oSide o' = (if bid then Buy else Sell)"
proof -
  show q: "0 \<le> oFilledQuantity o'" "oFilledQuantity o' < oQuantity o'" "0 < oPrice o'"
    "oPrice o' * oQuantity o' \<le> max_i64" "oSide o' = (if bid then Buy else Sell)"
    using assms by (auto simp: resting_ok_def aresting_def)
  then show "oQuantity o' \<le> max_i64" using qty_le_value [of "oPrice o'" "oQuantity o'"] by linarith
  with q show "Remaining o' = arem (absO o')" by (simp add: i64_simps)
qed

lemma match_once_fields:
  fixes m :: matching
  defines "t \<equiv> mTaker m" and "b \<equiv> mBook m"
  assumes lvl: "levels (opposite t b) p = Some lvl" "lvl_queue lvl = r # q"
    and n: "n = min (Remaining t) (Remaining (heap b r))"
    and ex: "add64 (oFilledQuantity t) n = oFilledQuantity t + n"
      "add64 (oFilledQuantity (heap b r)) n = oFilledQuantity (heap b r) + n"
    and full: "full \<longleftrightarrow> Remaining ((heap b r)\<lparr>oFilledQuantity := oFilledQuantity (heap b r) + n\<rparr>) = 0"
  obtains m' f mk where "match_once p m = Some m'"
    and "mTaker m' = t\<lparr>oFilledQuantity := oFilledQuantity t + n\<rparr>"
    and "mFills m' = mFills m @ [f]" and "tQuantity (fTrade f) = n" and "fMaker f = mk"
    and "absO mk = afill n (absO (heap b r))"
    and "oStatus mk = (if full then StatusFilled else StatusPartiallyFilled)"
    and "full = (oFilledQuantity mk = oQuantity mk) \<longrightarrow> fill_ok t (bSymbol b) f"
    and "mRelease m' = (if oSide t = Buy
        then add64 (mRelease m) (mul64 (sub64 (oPrice t) (oPrice (heap b r))) n) else mRelease m)"
    and "heap (mBook m') = (heap b)(r := mk)"
    and "opposite t (mBook m') = (if full then popFront p lvl (opposite t b) else opposite t b)"
    and "own t (mBook m') = own t b"
    and "orders (mBook m') = (if full then (orders b)(oID (heap b r) := None) else orders b)"
    and "fresh (mBook m') = fresh b" "orderSeq (mBook m') = orderSeq b"
      "bSymbol (mBook m') = bSymbol b" "bnow (mBook m') = bnow b"
proof -
  have e: "Remaining ((heap b r)\<lparr>oFilledQuantity := oFilledQuantity (heap b r) + n, oUpdatedAt := at\<rparr>) = 0 \<longleftrightarrow> full" for at
    using full by (simp add: Remaining_def)
  let ?mk = "(heap b r)\<lparr>oFilledQuantity := oFilledQuantity (heap b r) + n,
    oUpdatedAt := bnow b (Suc (bclk b)), oStatus := (if full then StatusFilled else StatusPartiallyFilled)\<rparr>"
  let ?t = "t\<lparr>oFilledQuantity := oFilledQuantity t + n\<rparr>"
  let ?b1 = "b\<lparr>tradeSeq := add64 (tradeSeq b) 1\<rparr>"
  let ?f = "\<lparr>fTrade = mk_trade ?b1 ?t ((heap b r)\<lparr>oFilledQuantity := oFilledQuantity (heap b r) + n\<rparr>) n (bnow b (bclk b)),
    fMaker = ?mk\<rparr>"
  let ?b4 = "b\<lparr>tradeSeq := add64 (tradeSeq b) 1, bclk := Suc (Suc (bclk b)), heap := (heap b)(r := ?mk)\<rparr>"
  let ?b5 = "if full then set_opposite t (popFront p lvl (opposite t b))
      (?b4\<lparr>orders := (orders b)(oID (heap b r) := None)\<rparr>) else ?b4"
  let ?rel = "if oSide t = Buy
        then add64 (mRelease m) (mul64 (sub64 (oPrice t) (oPrice (heap b r))) n) else mRelease m"
  have so: "set_opposite (t\<lparr>oFilledQuantity := k\<rparr>) s x = set_opposite t s x" for k s x
    by (simp add: set_opposite_def)
  have m': "match_once p m = Some \<lparr>mTaker = ?t, mFills = mFills m @ [?f], mRelease = ?rel, mBook = ?b5\<rparr>"
    by (simp add: match_once_def Let_def tick_def min64_min CloneOrder_def e so
        t_def [symmetric] b_def [symmetric] lvl ex n [symmetric])
  have abs: "absO ?mk = afill n (absO (heap b r))" by (simp add: absO_def afill_def)
  have ok: "full = (oFilledQuantity ?mk = oQuantity ?mk) \<longrightarrow> fill_ok t (bSymbol b) ?f"
    by (simp add: fill_ok_def Let_def mk_trade_def)
  have tq: "tQuantity (mk_trade x y z n at) = n" for x y z at
    by (simp add: mk_trade_def Let_def)
  have st: "oStatus ?mk = (if full then StatusFilled else StatusPartiallyFilled)"
    by simp
  have opp: "opposite t ?b5 = (if full then popFront p lvl (opposite t b) else opposite t b)"
    "own t ?b5 = own t b"
    by (simp_all add: opposite_def own_def set_opposite_def)
  have fr: "heap ?b5 = (heap b)(r := ?mk)"
    "orders ?b5 = (if full then (orders b)(oID (heap b r) := None) else orders b)"
    "fresh ?b5 = fresh b" "orderSeq ?b5 = orderSeq b" "bSymbol ?b5 = bSymbol b" "bnow ?b5 = bnow b"
    by (simp_all add: set_opposite_def)
  show thesis
    by (rule that [OF m', of ?f ?mk])
      (rule ok | simp only: matching.simps opp fr abs tq st Fill.simps)+
qed

lemma opposite_resting:
  assumes "book_core b" and "oSide t = Buy \<or> oSide t = Sell"
  shows "side_wf (oSide t = Sell) (\<lambda>r. oPrice (heap b r)) (opposite t b)"
    and "r \<in> set (side_refs (opposite t b)) \<Longrightarrow> resting_ok (oSide t = Sell) (heap b r)"
    and "r \<in> set (side_refs (opposite t b)) \<Longrightarrow> r \<in> set (book_refs b)"
    and "r \<in> set (side_refs (opposite t b)) \<Longrightarrow> r \<in> set (side_refs (bids b)) \<longleftrightarrow> oSide t = Sell"
    and "distinct (side_refs (opposite t b))"
proof -
  have d: "distinct (book_refs b)" using book_core_ids(1) [OF assms(1)] .
  show "side_wf (oSide t = Sell) (\<lambda>r. oPrice (heap b r)) (opposite t b)"
    "r \<in> set (side_refs (opposite t b)) \<Longrightarrow> resting_ok (oSide t = Sell) (heap b r)"
    "r \<in> set (side_refs (opposite t b)) \<Longrightarrow> r \<in> set (book_refs b)"
    using assms by (auto simp: opposite_def book_core_def book_refs_def)
  show "r \<in> set (side_refs (opposite t b)) \<Longrightarrow> r \<in> set (side_refs (bids b)) \<longleftrightarrow> oSide t = Sell"
    "distinct (side_refs (opposite t b))"
    using d by (auto simp: opposite_def book_refs_def)
qed

text \<open>The book after a complete fill of the best order: it is gone from its side and from the map.\<close>

lemma book_core_pop:
  assumes core: "book_core b" and t: "oSide t = Buy \<or> oSide t = Sell"
    and refs: "side_refs (opposite t b) = r # rs" and s: "side_refs s = rs"
      "side_wf (oSide t = Sell) (\<lambda>r. oPrice (heap b r)) s"
    and b': "opposite t b' = s" "own t b' = own t b" "orders b' = (orders b)(oID (heap b r) := None)"
      "fresh b' = fresh b" "heap b' = (heap b)(r := mk)"
  shows "book_core b'" and "r \<notin> set (book_refs b')"
proof -
  let ?b1 = "b'\<lparr>heap := heap b\<rparr>"
  note r = opposite_resting [OF core t]
  have rin: "r \<in> set (book_refs b)" and d: "distinct (book_refs b)"
    using r(3) book_core_ids(1) [OF core] by (simp_all add: refs)
  have "drop_ref r b ?b1"
  proof (cases "oSide t = Sell")
    case True
    then have "r \<notin> set (side_refs (asks b))" "side_refs (bids b) = r # rs"
      using refs d by (auto simp: opposite_def book_refs_def)
    with True s b' core show ?thesis
      by (simp add: drop_ref_def opposite_def own_def remove1_idem book_core_def)
  next
    case False
    then have "r \<notin> set (side_refs (bids b))" "side_refs (asks b) = r # rs"
      using refs d by (auto simp: opposite_def book_refs_def)
    with False s b' core show ?thesis
      by (simp add: drop_ref_def opposite_def own_def remove1_idem book_core_def)
  qed
  from book_core_drop_ref [OF core rin this]
  have 1: "book_core ?b1" "set (book_refs ?b1) = set (book_refs b) - {r}" .
  moreover have "book_refs ?b1 = book_refs b'" by (simp add: book_refs_def)
  ultimately show "r \<notin> set (book_refs b')" by simp
  with 1 \<open>book_refs ?b1 = book_refs b'\<close> show "book_core b'"
    by (intro book_core_cong [OF 1(1)]) (auto simp: b')
qed

text \<open>The bounds of one fill.\<close>

lemma release_bounds:
  fixes p e n R F :: int
  assumes "0 < e" and "e \<le> p" and "0 < n" and "0 \<le> R" and "R \<le> p * F" and "p * (F + n) \<le> max_i64"
  shows "add64 R (mul64 (sub64 p e) n) = R + (p - e) * n" and "0 \<le> R + (p - e) * n"
    and "R + (p - e) * n \<le> p * (F + n)"
proof -
  have 0: "0 \<le> (p - e) * n" "0 \<le> e * n" using assms by auto
  have e: "(p - e) * n = p * n - e * n" by (simp add: algebra_simps)
  have pn: "p * (F + n) = p * F + p * n" by (simp add: algebra_simps)
  have "p - e \<le> (p - e) * n" using assms by (simp add: mult_le_cancel_left1)
  have le: "(p - e) * n \<le> p * n" using 0 e by linarith
  have pn': "p * n \<le> max_i64" using assms 0 pn by linarith
  show "0 \<le> R + (p - e) * n" using 0 assms by linarith
  show le2: "R + (p - e) * n \<le> p * (F + n)" using le pn assms by linarith
  have "sub64 p e = p - e"
    using assms \<open>p - e \<le> (p - e) * n\<close> le pn' by (intro sub64_id i64_nonneg) linarith+
  moreover have "mul64 (p - e) n = (p - e) * n"
    using 0 le pn' by (intro mul64_id i64_nonneg) linarith+
  moreover have "add64 R ((p - e) * n) = R + (p - e) * n"
    using 0 assms le2 by (intro add64_id i64_nonneg) linarith+
  ultimately show "add64 R (mul64 (sub64 p e) n) = R + (p - e) * n" by simp
qed

lemma match_step:
  fixes m :: matching
  defines "t \<equiv> mTaker m" and "b \<equiv> mBook m"
  assumes wf: "match_wf m" and refs: "side_refs (opposite t b) = r # rs"
    and pos: "0 < arem (absO t)" and cross: "crosses (oSide t) (oPrice t) (oPrice (heap b r))"
    and n: "n = min (arem (absO t)) (arem (absO (heap b r)))"
  obtains m' where "match_once (oPrice (heap b r)) m = Some m'" and "match_wf m'"
    and "match_rel m m' [(absO (heap b r), n)]"
    and "absOpp t (mBook m') = (if n = arem (absO (heap b r)) then map (\<lambda>r. absO (heap b r)) rs
        else afill n (absO (heap b r)) # map (\<lambda>r. absO (heap b r)) rs)"
proof -
  have core: "book_core b" and tk: "taker_ok t" and t: "oSide t = Buy \<or> oSide t = Sell"
    and rel: "0 \<le> mRelease m" "mRelease m \<le> oPrice t * oFilledQuantity t"
    using wf by (auto simp: match_wf_def taker_ok_def t_def b_def)
  note opp = opposite_resting [OF core t]
  have mk: "resting_ok (oSide t = Sell) (heap b r)" using opp(2) by (simp add: refs)
  note mkb = resting_ok_bounds [OF mk] and tkb = taker_ok_bounds [OF tk]
  have tkf: "0 \<le> oFilledQuantity t" "oPrice t * oQuantity t \<le> max_i64" using tk by (auto simp: taker_ok_def)
  have n0: "0 < n" "n \<le> arem (absO t)" "n \<le> arem (absO (heap b r))" using n pos mkb by auto
  have nn: "n = min (Remaining t) (Remaining (heap b r))" by (simp only: n tkb mkb)
  obtain lvl where lvl: "levels (opposite t b) (oPrice (heap b r)) = Some lvl"
    "hd (lvl_queue lvl) = r" "lvl_queue lvl \<noteq> []"
    "side_refs (popFront (oPrice (heap b r)) lvl (opposite t b)) = rs"
    "side_wf (oSide t = Sell) (\<lambda>r. oPrice (heap b r)) (popFront (oPrice (heap b r)) lvl (opposite t b))"
    using popFront_refs [OF opp(1) refs] .
  then obtain q where q: "lvl_queue lvl = r # q" by (cases "lvl_queue lvl") auto
  have ex: "add64 (oFilledQuantity t) n = oFilledQuantity t + n"
    "add64 (oFilledQuantity (heap b r)) n = oFilledQuantity (heap b r) + n"
    using n0 tkb mkb tkf by (auto intro!: add64_id i64_nonneg)
  define full where "full \<longleftrightarrow> n = arem (absO (heap b r))"
  have full: "full \<longleftrightarrow> Remaining ((heap b r)\<lparr>oFilledQuantity := oFilledQuantity (heap b r) + n\<rparr>) = 0"
    using n0 mkb by (auto simp: full_def i64_simps)
  obtain m' f mk where m': "match_once (oPrice (heap b r)) m = Some m'"
    "mTaker m' = t\<lparr>oFilledQuantity := oFilledQuantity t + n\<rparr>"
    "mFills m' = mFills m @ [f]" "tQuantity (fTrade f) = n" "fMaker f = mk"
    "absO mk = afill n (absO (heap b r))"
    "oStatus mk = (if full then StatusFilled else StatusPartiallyFilled)"
    and ok: "full = (oFilledQuantity mk = oQuantity mk) \<longrightarrow> fill_ok t (bSymbol b) f"
    and rel': "mRelease m' = (if oSide t = Buy
        then add64 (mRelease m) (mul64 (sub64 (oPrice t) (oPrice (heap b r))) n) else mRelease m)"
    and b': "heap (mBook m') = (heap b)(r := mk)"
    "opposite t (mBook m') = (if full then popFront (oPrice (heap b r)) lvl (opposite t b) else opposite t b)"
    "own t (mBook m') = own t b"
    "orders (mBook m') = (if full then (orders b)(oID (heap b r) := None) else orders b)"
    "fresh (mBook m') = fresh b" "orderSeq (mBook m') = orderSeq b"
      "bSymbol (mBook m') = bSymbol b" "bnow (mBook m') = bnow b"
    by (rule match_once_fields [OF lvl(1) [unfolded t_def b_def] q nn [unfolded t_def b_def]
        ex [unfolded t_def b_def] full [unfolded t_def b_def], folded t_def b_def])
  have mka: "oID mk = oID (heap b r)" "oPrice mk = oPrice (heap b r)" "oSide mk = oSide (heap b r)"
    "oQuantity mk = oQuantity (heap b r)" "oFilledQuantity mk = oFilledQuantity (heap b r) + n"
    using arg_cong [OF m'(6), of aID] arg_cong [OF m'(6), of aPrice] arg_cong [OF m'(6), of aSide]
      arg_cong [OF m'(6), of aQty] arg_cong [OF m'(6), of aFilled] by simp_all
  have fok: "fill_ok t (bSymbol b) f" using mka n0 by (intro ok [rule_format]) (auto simp: full_def)
  have af: "afill_of f = (absO (heap b r), n)" by (simp add: afill_of_def m')
  have d: "r \<notin> set rs" using opp(5) refs by simp
  have refs': "side_refs (opposite t (mBook m')) = (if full then rs else r # rs)"
    using lvl refs by (simp add: b')
  have core': "book_core (mBook m')"
  proof (cases full)
    case True
    with b' lvl show ?thesis by (intro book_core_pop(1) [OF core t refs]) auto
  next
    case False
    have "resting_ok (r \<in> set (side_refs (bids b))) mk"
      using mk opp(4) refs False n0 mkb m'(7)
      by (auto simp: resting_ok_def aresting_def mka full_def m'(6))
    with mka opp(3) refs have "book_core (b\<lparr>heap := (heap b)(r := mk)\<rparr>)"
      by (intro book_core_heap_upd [OF core]) auto
    then show ?thesis
      by (rule book_core_cong) (use b' False t in \<open>auto simp: opposite_def own_def split: if_splits\<close>)
  qed
  have rel_eq: "mRelease m' = mRelease m + (if oSide t = Buy then (oPrice t - oPrice (heap b r)) * n else 0)"
    and rel_b: "0 \<le> mRelease m'" "mRelease m' \<le> oPrice t * (oFilledQuantity t + n)"
  proof -
    have p: "0 < oPrice t" using tk by (simp add: taker_ok_def)
    have "oPrice t * (oFilledQuantity t + n) \<le> oPrice t * oQuantity t" using n0 p by (intro mult_left_mono) auto
    then have le: "oPrice t * (oFilledQuantity t + n) \<le> max_i64" using tkf by linarith
    have m: "oPrice t * oFilledQuantity t \<le> oPrice t * (oFilledQuantity t + n)" using n0 p by simp
    have e: "oSide t = Buy \<Longrightarrow> oPrice (heap b r) \<le> oPrice t" using cross by (simp add: crosses_def)
    note rb = release_bounds [OF mkb(4) e n0(1) rel le]
    from rb(1) show "mRelease m' = mRelease m + (if oSide t = Buy then (oPrice t - oPrice (heap b r)) * n else 0)"
      by (simp add: rel')
    then show "0 \<le> mRelease m'" "mRelease m' \<le> oPrice t * (oFilledQuantity t + n)"
      using rb(2,3) rel m by (auto simp: not_less)
  qed
  have "match_wf m'"
    using core' tk n0 rel_b by (auto simp: match_wf_def taker_ok_def m')
  moreover have "match_rel m m' [(absO (heap b r), n)]"
  proof -
    have "\<exists>new. mFills m' = mFills m @ new \<and> map afill_of new = [(absO (heap b r), n)]
        \<and> (\<forall>f\<in>set new. fill_ok t (bSymbol b) f)"
      by (rule exI [of _ "[f]"]) (simp add: m' af fok)
    moreover have "set (side_refs (opposite t (mBook m'))) \<subseteq> set (side_refs (opposite t b))"
      by (auto simp: refs' refs)
    ultimately show ?thesis
      unfolding match_rel_def Let_def t_def [symmetric] b_def [symmetric]
      by (simp add: m'(2) b' rel_eq arelease_def refs)
  qed
  moreover have "absOpp t (mBook m') = (if n = arem (absO (heap b r)) then map (\<lambda>r. absO (heap b r)) rs
        else afill n (absO (heap b r)) # map (\<lambda>r. absO (heap b r)) rs)"
    unfolding absOpp_def refs' b'(1) full_def using d by (auto simp: m'(6))
  ultimately show thesis using m'(1) by (intro that)
qed

subsection \<open>The loop\<close>

lemma match_rel_taker:
  "match_rel m m' fs \<Longrightarrow> mTaker m' = (mTaker m)\<lparr>oFilledQuantity := oFilledQuantity (mTaker m) + (\<Sum>(x, q)\<leftarrow>fs. q)\<rparr>"
  by (simp add: match_rel_def Let_def)

lemma match_loop_stop:
  "\<not> Remaining (mTaker m) > 0 \<Longrightarrow> match_loop m = Some m"
  "best (opposite (mTaker m) (mBook m)) = None \<Longrightarrow> match_loop m = Some m"
  "best (opposite (mTaker m) (mBook m)) = Some p \<Longrightarrow> \<not> crosses (oSide (mTaker m)) (oPrice (mTaker m)) p \<Longrightarrow> match_loop m = Some m"
  by (simp_all add: match_loop.simps [of m])

lemma match_loop_step:
  "0 < Remaining (mTaker m) \<Longrightarrow> best (opposite (mTaker m) (mBook m)) = Some p \<Longrightarrow>
   crosses (oSide (mTaker m)) (oPrice (mTaker m)) p \<Longrightarrow> match_once p m = Some m' \<Longrightarrow>
   match_loop m = match_loop m'"
  by (simp add: match_loop.simps [of m])

lemma match_loop_sim:
  assumes "match_wf m" and "amatch (absO (mTaker m)) (absOpp (mTaker m) (mBook m)) = (t', fs, ms')"
  shows "\<exists>m'. match_loop m = Some m' \<and> match_wf m' \<and> match_rel m m' fs
    \<and> absOpp (mTaker m) (mBook m') = ms'"
  using assms
proof (induction "length (absOpp (mTaker m) (mBook m))" arbitrary: m t' fs ms' rule: less_induct)
  case less
  let ?t = "mTaker m" and ?b = "mBook m"
  have core: "book_core ?b" and tk: "taker_ok ?t" and t: "oSide ?t = Buy \<or> oSide ?t = Sell"
    using less.prems(1) by (auto simp: match_wf_def taker_ok_def)
  note rem = taker_ok_bounds(3) [OF tk] and wf = opposite_resting(1) [OF core t]
  show ?case
  proof (cases "side_refs (opposite ?t ?b)")
    case Nil
    with less.prems best_refs [OF wf] show ?thesis
      by (auto simp: match_loop_stop absOpp_def match_rel_refl)
  next
    case (Cons r rs)
    let ?mk = "heap ?b r" and ?rs = "map (\<lambda>r. absO (heap ?b r)) rs"
    have opp: "absOpp ?t ?b = absO ?mk # ?rs" by (simp add: absOpp_def Cons)
    have best: "best (opposite ?t ?b) = Some (oPrice ?mk)" using best_refs [OF wf] by (simp add: Cons)
    consider (stop) "\<not> (arem (absO ?t) > 0 \<and> crosses (oSide ?t) (oPrice ?t) (oPrice ?mk))"
      | (partial) "0 < arem (absO ?t)" "crosses (oSide ?t) (oPrice ?t) (oPrice ?mk)" "arem (absO ?t) < arem (absO ?mk)"
      | (full) "0 < arem (absO ?t)" "crosses (oSide ?t) (oPrice ?t) (oPrice ?mk)" "arem (absO ?mk) \<le> arem (absO ?t)"
      by linarith
    then show ?thesis
    proof cases
      case stop
      then have "match_loop m = Some m" using match_loop_stop(1,3) best rem by metis
      with stop less.prems opp match_rel_refl show ?thesis by (auto simp: amatch_stop)
    next
      case partial
      then have fs: "fs = [(absO ?mk, arem (absO ?t))]" "ms' = afill (arem (absO ?t)) (absO ?mk) # ?rs"
        using less.prems(2) by (auto simp: opp amatch_partial)
      obtain m' where m': "match_once (oPrice ?mk) m = Some m'" "match_wf m'" "match_rel m m' fs"
        "absOpp ?t (mBook m') = ms'"
        by (rule match_step [OF less.prems(1) Cons partial(1,2) refl])
          (use partial in \<open>simp add: fs\<close>)
      have "Remaining (mTaker m') = 0"
        using m'(2) match_rel_taker [OF m'(3)]
        by (subst taker_ok_bounds(3)) (auto simp: match_wf_def fs)
      then have "match_loop m' = Some m'" by (intro match_loop_stop(1)) simp
      with match_loop_step [OF _ best partial(2) m'(1)] partial(1) m' show ?thesis by (simp add: rem)
    next
      case full
      obtain fs1 where rec: "amatch (afill (arem (absO ?mk)) (absO ?t)) ?rs = (t', fs1, ms')"
        and fs: "fs = (absO ?mk, arem (absO ?mk)) # fs1"
        using less.prems(2) full unfolding opp by (auto simp: amatch_full split: prod.splits)
      obtain m1 where m1: "match_once (oPrice ?mk) m = Some m1" "match_wf m1"
        "match_rel m m1 [(absO ?mk, arem (absO ?mk))]" "absOpp ?t (mBook m1) = ?rs"
        by (rule match_step [OF less.prems(1) Cons full(1,2) refl]) (use full in \<open>simp add: min_absorb2\<close>)
      have t1: "mTaker m1 = ?t\<lparr>oFilledQuantity := oFilledQuantity ?t + arem (absO ?mk)\<rparr>"
        using match_rel_taker [OF m1(3)] by simp
      have opp1: "absOpp (mTaker m1) x = absOpp ?t x" for x by (simp add: t1 absOpp_def)
      have "length (absOpp (mTaker m1) (mBook m1)) < length (absOpp ?t ?b)"
        unfolding opp1 by (simp only: m1(4) opp) simp
      moreover have "amatch (absO (mTaker m1)) (absOpp (mTaker m1) (mBook m1)) = (t', fs1, ms')"
        unfolding opp1 m1(4) using rec by (simp add: t1)
      ultimately obtain m2 where m2: "match_loop m1 = Some m2" "match_wf m2" "match_rel m1 m2 fs1"
        "absOpp ?t (mBook m2) = ms'"
        using less.hyps [OF _ m1(2)] unfolding opp1 by blast
      from match_rel_trans [OF m1(3) m2(3)] have "match_rel m m2 fs" by (simp add: fs)
      with match_loop_step [OF _ best full(2) m1(1)] full(1) m2 show ?thesis by (simp add: rem)
    qed
  qed
qed

subsection \<open>Place\<close>

lemma match_wf_start:
  assumes "book_core b" and "valid_new o'"
  shows "match_wf (place_start o' b)" "absO (mTaker (place_start o' b)) = absO o'"
    "absOpp (mTaker (place_start o' b)) (mBook (place_start o' b)) = absOpp o' b"
    "mFills (place_start o' b) = []" "mRelease (place_start o' b) = 0"
proof -
  have "book_core (mBook (place_start o' b))"
    using assms(1) by (rule book_core_cong) (simp_all add: place_start_def Let_def tick_def)
  then show "match_wf (place_start o' b)"
    using assms(2)
    by (auto simp: match_wf_def place_start_def Let_def tick_def taker_ok_def valid_new_def Validate_None_iff fits_def)
qed (simp_all add: place_start_def Let_def tick_def absO_def absOpp_def opposite_def)

lemma absB_sides:
  assumes "oSide t = Buy \<or> oSide t = Sell"
  shows "absOpp t b = aopposite (absO t) (absB b)"
  using assms by (auto simp: absOpp_def opposite_def aopposite_def absB_def)

text \<open>\<open>rest\<close>: the order takes its place behind all that are at least as good.\<close>

lemma rest_side:
  fixes o' :: order
  assumes wf: "side_wf bid (\<lambda>r. oPrice (h r)) s" and r: "r \<notin> set (side_refs s)"
  defines "h' \<equiv> h(r := o')"
  shows "side_wf bid (\<lambda>r. oPrice (h' r)) (side_add (oPrice o') r s)"
    and "map (\<lambda>r. absO (h' r)) (side_refs (side_add (oPrice o') r s))
      = ainsert bid (absO o') (map (\<lambda>r. absO (h r)) (side_refs s))"
    and "set (side_refs (side_add (oPrice o') r s)) = insert r (set (side_refs s))"
proof -
  have wf': "side_wf bid (\<lambda>r. oPrice (h' r)) s"
    unfolding h'_def by (rule side_wf_heap_upd [OF wf]) (simp add: r)
  have pr: "oPrice (h' r) = oPrice o'" by (simp add: h'_def)
  note add = side_add_refs [OF wf', of r, OF pr]
  have old: "absO (h' x) = absO (h x)" "oPrice (h' x) = oPrice (h x)" if "x \<in> set (side_refs s)" for x
    using that r by (auto simp: h'_def)
  let ?P = "\<lambda>x. ahead bid (oPrice (h' x)) (oPrice o')"
  have "map (\<lambda>r. absO (h' r)) xs = map (\<lambda>r. absO (h r)) xs" if "set xs \<subseteq> set (side_refs s)" for xs
    using that old by auto
  note m = this
  have tw: "set (takeWhile ?P (side_refs s)) \<subseteq> set (side_refs s)" "set (dropWhile ?P (side_refs s)) \<subseteq> set (side_refs s)"
    by (auto dest: set_takeWhileD set_dropWhileD)
  have eqP: "takeWhile ?P (side_refs s) = takeWhile (\<lambda>x. ahead bid (oPrice (h x)) (oPrice o')) (side_refs s)"
    "dropWhile ?P (side_refs s) = dropWhile (\<lambda>x. ahead bid (oPrice (h x)) (oPrice o')) (side_refs s)"
    using old by (auto intro!: takeWhile_cong dropWhile_cong)
  show "side_wf bid (\<lambda>r. oPrice (h' r)) (side_add (oPrice o') r s)" by (rule add(2))
  show "map (\<lambda>r. absO (h' r)) (side_refs (side_add (oPrice o') r s))
      = ainsert bid (absO o') (map (\<lambda>r. absO (h r)) (side_refs s))"
    unfolding add(1) ainsert_def takeWhile_map dropWhile_map
    using m [OF tw(1)] m [OF tw(2)] by (simp add: eqP comp_def) (simp add: h'_def)
  have "set (takeWhile ?P (side_refs s)) \<union> set (dropWhile ?P (side_refs s)) = set (side_refs s)"
    by (metis set_append takeWhile_dropWhile_id)
  then show "set (side_refs (side_add (oPrice o') r s)) = insert r (set (side_refs s))"
    unfolding add(1) by auto
qed

lemma rest_abs:
  assumes core: "book_core b" and side: "oSide o' = Buy \<or> oSide o' = Sell"
  shows "absB (rest o' b) = arest (absO o') (absB b)"
    and "set (book_refs (rest o' b)) = insert (fresh b) (set (book_refs b))"
proof -
  have r: "fresh b \<notin> set (side_refs (bids b))" "fresh b \<notin> set (side_refs (asks b))"
    using core by (auto simp: book_core_def book_refs_def)
  have wf: "side_wf True (\<lambda>r. oPrice (heap b r)) (bids b)" "side_wf False (\<lambda>r. oPrice (heap b r)) (asks b)"
    using core by (auto simp: book_core_def)
  note B = rest_side [OF wf(1) r(1), of o'] and A = rest_side [OF wf(2) r(2), of o']
  have keep: "map (\<lambda>x. absO (((heap b)(fresh b := o')) x)) (side_refs (bids b)) = map (\<lambda>x. absO (heap b x)) (side_refs (bids b))"
    "map (\<lambda>x. absO (((heap b)(fresh b := o')) x)) (side_refs (asks b)) = map (\<lambda>x. absO (heap b x)) (side_refs (asks b))"
    using r by auto
  show "absB (rest o' b) = arest (absO o') (absB b)"
    unfolding absB_def arest_def rest_def Let_def using B(2) A(2) keep side by auto
  show "set (book_refs (rest o' b)) = insert (fresh b) (set (book_refs b))"
    unfolding book_refs_def rest_def Let_def using B(3) A(3) side by auto
qed


lemma resting_ok_cong:
  "absO x = absO y \<Longrightarrow> oStatus x = oStatus y \<Longrightarrow> resting_ok bid x = resting_ok bid y"
  unfolding resting_ok_def by (metis absO_simps(6))

lemma book_core_resting:
  assumes "book_core b" and "r \<in> set (book_refs b)"
  shows "resting_ok (r \<in> set (side_refs (bids b))) (heap b r)"
  using assms by (cases "r \<in> set (side_refs (bids b))") (auto simp: book_core_def book_refs_def)

lemma book_core_orders:
  "book_core b \<Longrightarrow> orders b i = Some r \<longleftrightarrow> r \<in> set (book_refs b) \<and> oID (heap b r) = i"
  by (simp add: book_core_def)

lemma book_core_new_id:
  assumes "book_core b"
  shows "orders b i = None \<longleftrightarrow> i \<notin> set (map aID (aorders (absB b)))"
proof -
  have "orders b i = None \<longleftrightarrow> (\<forall>r. orders b i \<noteq> Some r)" by auto
  also have "\<dots> \<longleftrightarrow> i \<notin> set (map aID (aorders (absB b)))"
    unfolding book_core_orders [OF assms] by (auto simp: aorders_absB)
  finally show ?thesis .
qed

lemma distinct_ids_arest:
  "distinct (map aID (aorders (arest x B))) \<longleftrightarrow>
     aID x \<notin> set (map aID (aorders B)) \<and> distinct (map aID (aorders B))"
proof -
  have "mset (aorders (arest x B)) = mset (x # aorders B)"
    by (simp add: arest_def aorders_def mset_ainsert)
  then have "mset (map aID (aorders (arest x B))) = mset (map aID (x # aorders B))"
    by (simp only: mset_map)
  then have "distinct (map aID (aorders (arest x B))) = distinct (map aID (x # aorders B))"
    by (rule mset_eq_imp_distinct_iff)
  then show ?thesis by simp
qed

lemma rest_core:
  assumes core: "book_core b" and ok: "resting_ok (oSide o' = Buy) o'" and new: "orders b (oID o') = None"
  shows "book_core (rest o' b)"
proof -
  let ?h = "(heap b)(fresh b := o')"
  have r: "fresh b \<notin> set (side_refs (bids b))" "fresh b \<notin> set (side_refs (asks b))"
    using core by (auto simp: book_core_def book_refs_def)
  have wf: "side_wf True (\<lambda>r. oPrice (heap b r)) (bids b)" "side_wf False (\<lambda>r. oPrice (heap b r)) (asks b)"
    using core by (auto simp: book_core_def)
  have wf': "side_wf True (\<lambda>r. oPrice (?h r)) (bids b)" "side_wf False (\<lambda>r. oPrice (?h r)) (asks b)"
    by (rule side_wf_heap_upd; use wf r in blast)+
  have side: "oSide o' = Buy \<or> oSide o' = Sell"
    using resting_ok_bounds(7) [OF ok] by (auto split: if_splits)
  have fields: "heap (rest o' b) = ?h" "fresh (rest o' b) = Suc (fresh b)"
    "orders (rest o' b) = (orders b)(oID o' \<mapsto> fresh b)"
    by (simp_all add: rest_def Let_def)
  note B = rest_side [OF wf(1) r(1), of o'] and A = rest_side [OF wf(2) r(2), of o']
  have sides: "side_wf True (\<lambda>x. oPrice (?h x)) (bids (rest o' b))" "side_wf False (\<lambda>x. oPrice (?h x)) (asks (rest o' b))"
    using wf' A(1) B(1) by (auto simp: rest_def Let_def)
  have refs: "set (book_refs (rest o' b)) = insert (fresh b) (set (book_refs b))"
    by (rule rest_abs(2) [OF core side])
  have oks: "\<forall>x\<in>set (side_refs (bids (rest o' b))). resting_ok True (?h x)"
    "\<forall>x\<in>set (side_refs (asks (rest o' b))). resting_ok False (?h x)"
    using core ok side A(3) B(3) r by (auto simp: rest_def Let_def book_core_def)
  have newid: "oID (heap b x) \<noteq> oID o'" if "x \<in> set (book_refs b)" for x
    using new that unfolding book_core_new_id [OF core] by (force simp: aorders_absB)
  have dist: "distinct (map aID (aorders (absB (rest o' b))))"
  proof -
    have "distinct (map aID (aorders (absB b)))"
      using core by (simp add: aorders_absB comp_def book_core_def)
    moreover have "aID (absO o') \<notin> set (map aID (aorders (absB b)))"
      using new unfolding book_core_new_id [OF core] by simp
    ultimately show ?thesis
      unfolding rest_abs(1) [OF core side] distinct_ids_arest by blast
  qed
  then have dist': "distinct (map (\<lambda>x. oID (?h x)) (book_refs (rest o' b)))"
    by (simp add: aorders_absB comp_def fields)
  have ord: "orders (rest o' b) i = Some x \<longleftrightarrow> x \<in> set (book_refs (rest o' b)) \<and> oID (?h x) = i" for i x
    using core newid r unfolding refs fields by (auto simp: book_core_def book_refs_def)
  have less: "\<forall>x\<in>set (book_refs (rest o' b)). x < Suc (fresh b)"
    using core unfolding refs by (auto simp: book_core_def)
  show ?thesis
    unfolding book_core_def fields by (intro conjI sides oks less dist' allI ord [unfolded fields])
qed


definition taker_status :: "order \<Rightarrow> order_status" where
  "taker_status t = (if oFilledQuantity t = oQuantity t then StatusFilled
     else if oFilledQuantity t > 0 then StatusPartiallyFilled else StatusOpen)"

text \<open>What happens after the loop, for a taker that is done and for one that rests.\<close>

lemma place_finish_correct:
  assumes wf: "match_wf m" and new: "orders (mBook m) (oID (mTaker m)) = None"
    and stamp: "0 < oQuantity (mTaker m)"
    and pf: "place_finish m = (res, b')"
  shows "book_core b'"
    and "absB b' = (if arem (absO (mTaker m)) = 0 then absB (mBook m) else arest (absO (mTaker m)) (absB (mBook m)))"
    and "prTaker res = (mTaker m)\<lparr>oStatus := taker_status (mTaker m), oUpdatedAt := oUpdatedAt (prTaker res)\<rparr>"
    and "prFills res = mFills m" and "prReleaseCOP res = mRelease m"
    and "orderSeq b' = orderSeq (mBook m)" "bSymbol b' = bSymbol (mBook m)" "bnow b' = bnow (mBook m)"
proof -
  let ?t = "mTaker m" and ?b = "mBook m"
  have core: "book_core ?b" and tk: "taker_ok ?t" using wf by (auto simp: match_wf_def)
  note rem = taker_ok_bounds(3) [OF tk]
  let ?o2 = "?t\<lparr>oStatus := taker_status ?t\<rparr>"
  show "prFills res = mFills m" "prReleaseCOP res = mRelease m"
    "orderSeq b' = orderSeq ?b" "bSymbol b' = bSymbol ?b" "bnow b' = bnow ?b"
    using pf by (auto simp: place_finish_def Let_def tick_def rest_def split: if_splits)
  show "prTaker res = ?t\<lparr>oStatus := taker_status ?t, oUpdatedAt := oUpdatedAt (prTaker res)\<rparr>"
    using pf rem by (auto simp: place_finish_def Let_def tick_def taker_status_def)
  have "book_core b' \<and> absB b' = (if arem (absO ?t) = 0 then absB ?b else arest (absO ?t) (absB ?b))"
  proof (cases "arem (absO ?t) = 0")
    case True
    then have e: "b' = ?b\<lparr>bclk := Suc (bclk ?b)\<rparr>"
      using pf rem by (simp add: place_finish_def Let_def tick_def)
    have "book_core b'" by (rule book_core_cong [OF core]) (simp_all add: e)
    with True show ?thesis by (simp add: e absB_def)
  next
    case False
    let ?b1 = "rest ?o2 ?b" and ?o3 = "?o2\<lparr>oUpdatedAt := bnow ?b (bclk ?b)\<rparr>"
    have side: "oSide ?o2 = Buy \<or> oSide ?o2 = Sell" using tk by (simp add: taker_ok_def)
    have ok: "resting_ok (oSide ?o2 = Buy) ?o2"
      using tk False by (auto simp: resting_ok_def aresting_def taker_ok_def taker_status_def)
    have core1: "book_core ?b1"
      by (rule rest_core [OF core ok]) (use new in simp)
    note abs1 = rest_abs [OF core side]
    have rf: "heap (rest x ?b) = (heap ?b)(fresh ?b := x)" "bnow (rest x ?b) = bnow ?b"
      "bclk (rest x ?b) = bclk ?b" "fresh (rest x ?b) = Suc (fresh ?b)" for x
      by (simp_all add: rest_def Let_def)
    have e: "b' = ?b1\<lparr>bclk := Suc (bclk ?b1), heap := (heap ?b1)(fresh ?b := ?o3)\<rparr>"
      using pf False rem by (simp add: place_finish_def Let_def tick_def taker_status_def rf)
    have in1: "fresh ?b \<in> set (book_refs ?b1)" using abs1(2) by simp
    have "resting_ok (fresh ?b \<in> set (side_refs (bids ?b1))) (heap ?b1 (fresh ?b))"
      by (rule book_core_resting [OF core1 in1])
    moreover have "resting_ok B ?o3 = resting_ok B ?o2" for B
      by (rule resting_ok_cong) simp_all
    ultimately have "resting_ok (fresh ?b \<in> set (side_refs (bids ?b1))) ?o3" by (simp add: rf)
    then have "book_core (?b1\<lparr>heap := (heap ?b1)(fresh ?b := ?o3)\<rparr>)"
      by (intro book_core_heap_upd [OF core1 in1]) (simp_all add: rf)
    then have "book_core b'" by (rule book_core_cong) (simp_all add: e)
    moreover have "absB b' = absB ?b1"
      by (auto simp: e absB_def rf)
    ultimately show ?thesis using abs1(1) False by simp
  qed
  then show "book_core b'"
    "absB b' = (if arem (absO ?t) = 0 then absB ?b else arest (absO ?t) (absB ?b))"
    by blast+
qed


text \<open>What the caller of \<open>Place\<close> gets, and the abstract book it leaves.\<close>

definition place_post :: "order \<Rightarrow> OrderBook \<Rightarrow> PlaceResult \<Rightarrow> OrderBook \<Rightarrow> bool" where
  "place_post o' b res b' \<longleftrightarrow> book_wf b'
     \<and> aPlace (absO o') (absB b)
         = (absO (prTaker res), map afill_of (prFills res), prReleaseCOP res, absB b')
     \<and> (\<forall>f\<in>set (prFills res). fill_ok o' (bSymbol b) f)
     \<and> prTaker res = o'\<lparr>oSequence := add64 (orderSeq b) 1, oStatus := taker_status (prTaker res),
          oFilledQuantity := oFilledQuantity (prTaker res), oUpdatedAt := oUpdatedAt (prTaker res)\<rparr>
     \<and> orderSeq b' = add64 (orderSeq b) 1 \<and> bSymbol b' = bSymbol b \<and> bnow b' = bnow b"

lemma fill_ok_cong:
  "oSide t = oSide t' \<Longrightarrow> oID t = oID t' \<Longrightarrow> oUserID t = oUserID t' \<Longrightarrow> fill_ok t s f = fill_ok t' s f"
  by (simp add: fill_ok_def Let_def)

lemma absB_match_rel:
  assumes rel: "match_rel m m' fs" and core: "book_core (mBook m)" and t: "oSide (mTaker m) = Buy \<or> oSide (mTaker m) = Sell"
  shows "absB (mBook m') = aset_opposite (absO (mTaker m)) (absOpp (mTaker m) (mBook m')) (absB (mBook m))"
proof -
  let ?t = "mTaker m"
  have own: "own ?t (mBook m') = own ?t (mBook m)"
    and heap: "\<And>r. r \<notin> set (side_refs (opposite ?t (mBook m))) \<Longrightarrow> heap (mBook m') r = heap (mBook m) r"
    using rel by (auto simp: match_rel_def Let_def)
  have d: "distinct (book_refs (mBook m))" by (rule book_core_ids(1) [OF core])
  have "r \<notin> set (side_refs (opposite ?t (mBook m)))" if "r \<in> set (side_refs (own ?t (mBook m)))" for r
    using d t that by (auto simp: own_def opposite_def book_refs_def)
  then have "map (\<lambda>r. absO (heap (mBook m') r)) (side_refs (own ?t (mBook m)))
      = map (\<lambda>r. absO (heap (mBook m) r)) (side_refs (own ?t (mBook m)))"
    using heap by (simp cong: map_cong)
  with own t show ?thesis
    by (auto simp: absB_def aset_opposite_def absOpp_def own_def opposite_def)
qed

lemma aset_opposite_ids:
  assumes "amatch t (aopposite t B) = (t', fs, ms')"
  shows "set (map aID (aorders (aset_opposite t ms' B))) \<subseteq> set (map aID (aorders B))"
proof -
  obtain k where "map akey ms' = drop k (map akey (aopposite t B))" using amatch_suffix [OF assms] ..
  then have "map fst (map akey ms') = drop k (map fst (map akey (aopposite t B)))" by (simp only: drop_map)
  then have "map aID ms' = drop k (map aID (aopposite t B))" by (simp add: comp_def)
  then have "set (map aID ms') \<subseteq> set (map aID (aopposite t B))" by (metis set_drop_subset)
  then show ?thesis by (auto simp: aset_opposite_def aorders_def aopposite_def split: if_splits)
qed

lemma Place_correct:
  assumes b: "book_wf b" and o': "valid_new o'" and new: "orders b (oID o') = None"
  shows "\<exists>res b'. Place o' b = Some (res, b') \<and> place_post o' b res b'"
proof -
  let ?m = "place_start o' b"
  have core: "book_core b" and wfB: "abook_wf (absB b)" using b by (simp_all add: book_wf_iff)
  note start = match_wf_start [OF core o']
  have side: "oSide o' = Buy \<or> oSide o' = Sell" and an: "anew (absO o')"
    using o' by (auto simp: valid_new_def Validate_None_iff anew_def fits_def)
  have fid: "aID (absO o') \<notin> set (map aID (aorders (absB b)))"
    using new unfolding book_core_new_id [OF core] by simp
  obtain t' fs ms' where am: "amatch (absO o') (aopposite (absO o') (absB b)) = (t', fs, ms')"
    by (metis prod_cases3)
  have "amatch (absO (mTaker ?m)) (absOpp (mTaker ?m) (mBook ?m)) = (t', fs, ms')"
    using am by (simp only: start absB_sides [OF side])
  then obtain m where m: "match_loop ?m = Some m" "match_wf m" "match_rel ?m m fs"
    "absOpp (mTaker ?m) (mBook m) = ms'"
    using match_loop_sim [OF start(1)] by blast
  have tk0: "mTaker ?m = o'\<lparr>oSequence := add64 (orderSeq b) 1, oStatus := StatusOpen, oUpdatedAt := bnow b (bclk b)\<rparr>"
    and b0: "absB (mBook ?m) = absB b" "orderSeq (mBook ?m) = add64 (orderSeq b) 1" "bSymbol (mBook ?m) = bSymbol b"
    "bnow (mBook ?m) = bnow b"
    by (simp_all add: place_start_def Let_def tick_def absB_def)
  have core0: "book_core (mBook ?m)" using start(1) by (simp add: match_wf_def)
  have B1: "absB (mBook m) = aset_opposite (absO o') ms' (absB b)"
    using absB_match_rel [OF m(3) core0] side m(4) start(2) b0 by (simp add: tk0)
  have tk: "mTaker m = (mTaker ?m)\<lparr>oFilledQuantity := oFilledQuantity o' + (\<Sum>(x, q)\<leftarrow>fs. q)\<rparr>"
    using match_rel_taker [OF m(3)] by (simp add: tk0)
  have t': "absO (mTaker m) = t'"
    using amatch_taker [OF am] by (simp add: tk tk0 absO_def afill_def)
  have core1: "book_core (mBook m)" using m(2) by (simp add: match_wf_def)
  have new1: "orders (mBook m) (oID (mTaker m)) = None"
    using aset_opposite_ids [OF am] fid unfolding book_core_new_id [OF core1] B1 by (auto simp: tk tk0)
  have q: "0 < oQuantity (mTaker m)" using o' by (simp add: tk tk0 valid_new_def Validate_None_iff)
  obtain res b' where pf: "place_finish m = (res, b')" by fastforce
  note fin = place_finish_correct [OF m(2) new1 q pf]
  have Pl: "Place o' b = Some (res, b')" using m(1) pf by (simp add: Place_def)
  have rel: "mRelease m = arelease (absO o') fs" and fr: "orderSeq (mBook m) = add64 (orderSeq b) 1"
    "bSymbol (mBook m) = bSymbol b" "bnow (mBook m) = bnow b"
    using m(3) start b0 by (simp_all add: match_rel_def Let_def)
  have fills: "map afill_of (mFills m) = fs" "\<forall>f\<in>set (mFills m). fill_ok o' (bSymbol b) f"
    using m(3) start b0 fill_ok_cong [of "mTaker ?m" o'] by (auto simp: match_rel_def Let_def tk0)
  have taker: "absO (prTaker res) = t'"
    using fin(3) t' by (metis absO_update(1,3))
  have abs': "absB b' = (if arem t' = 0 then aset_opposite (absO o') ms' (absB b)
      else arest t' (aset_opposite (absO o') ms' (absB b)))"
    using fin(2) unfolding t' B1 .
  have pl: "aPlace (absO o') (absB b)
      = (absO (prTaker res), map afill_of (prFills res), prReleaseCOP res, absB b')"
    by (simp add: aPlace_def am Let_def taker fin(4,5) fills(1) rel abs')
  have "book_wf b'"
    unfolding book_wf_iff using fin(1) aPlace_wf [OF wfB an fid pl] by simp
  moreover have "prTaker res = o'\<lparr>oSequence := add64 (orderSeq b) 1, oStatus := taker_status (prTaker res),
          oFilledQuantity := oFilledQuantity (prTaker res), oUpdatedAt := oUpdatedAt (prTaker res)\<rparr>"
    by (subst fin(3), subst (2 3) fin(3)) (simp add: tk tk0 taker_status_def)
  ultimately have "place_post o' b res b'"
    unfolding place_post_def using pl fin(4,6,7,8) fills fr by simp
  with Pl show ?thesis by blast
qed

subsection \<open>Cancel\<close>

lemma drop_ref_side_remove:
  assumes core: "book_core b" and r: "r \<in> set (book_refs b)"
  defines "o1 \<equiv> heap b r"
  defines "b1 \<equiv> (if oSide o1 = Buy then b\<lparr>bids := snd (side_remove (heap b) o1 (bids b))\<rparr>
                 else b\<lparr>asks := snd (side_remove (heap b) o1 (asks b))\<rparr>)"
  shows "drop_ref r b (b1\<lparr>orders := (orders b1)(oID o1 := None)\<rparr>)"
proof -
  have d: "distinct (book_refs b)" and inj: "inj_on (\<lambda>r. oID (heap b r)) (set (book_refs b))"
    by (rule book_core_ids [OF core])+
  have wf: "side_wf True (\<lambda>r. oPrice (heap b r)) (bids b)" "side_wf False (\<lambda>r. oPrice (heap b r)) (asks b)"
    using core by (auto simp: book_core_def)
  have inj': "inj_on (\<lambda>r. oID (heap b r)) (set (side_refs (bids b)))" "inj_on (\<lambda>r. oID (heap b r)) (set (side_refs (asks b)))"
    using inj by (auto simp: book_refs_def intro: inj_on_subset)
  have side: "oSide o1 = (if r \<in> set (side_refs (bids b)) then Buy else Sell)"
    using resting_ok_bounds(7) [OF book_core_resting [OF core r]] by (simp add: o1_def)
  show ?thesis
  proof (cases "r \<in> set (side_refs (bids b))")
    case True
    then have "r \<notin> set (side_refs (asks b))" using d by (auto simp: book_refs_def)
    with True wf side side_remove_refs [OF wf(1) True inj'(1) refl] show ?thesis
      by (simp add: drop_ref_def b1_def o1_def remove1_idem)
  next
    case False
    then have "r \<in> set (side_refs (asks b))" using r by (auto simp: book_refs_def)
    with False wf side side_remove_refs [OF wf(2) this inj'(2) refl] show ?thesis
      by (simp add: drop_ref_def b1_def o1_def remove1_idem)
  qed
qed

lemma map_remove1_filter:
  assumes "inj_on (\<lambda>x. aID (f x)) (insert r (set xs))" and "distinct xs"
  shows "map f (remove1 r xs) = filter (\<lambda>y. aID y \<noteq> aID (f r)) (map f xs)"
proof -
  have "remove1 r xs = filter (\<lambda>x. x \<noteq> r) xs" using assms(2) by (simp add: distinct_remove1_removeAll removeAll_filter_not_eq) metis
  also have "\<dots> = filter (\<lambda>x. aID (f x) \<noteq> aID (f r)) xs"
    using assms(1) by (intro filter_cong) (auto simp: inj_on_def)
  finally show ?thesis by (simp add: filter_map comp_def)
qed

lemma drop_ref_abs:
  assumes core: "book_core b" and r: "r \<in> set (book_refs b)" and d: "drop_ref r b b'"
  shows "aCancel (oID (heap b r)) (absB b) = Some (absO (heap b r), absB b')"
proof -
  have inj: "inj_on (\<lambda>x. aID (absO (heap b x))) (set (book_refs b))" and dist: "distinct (book_refs b)"
    using book_core_ids [OF core] by simp_all
  have "inj_on (\<lambda>x. aID (absO (heap b x))) (insert r (set (side_refs (bids b))))"
    "inj_on (\<lambda>x. aID (absO (heap b x))) (insert r (set (side_refs (asks b))))"
    by (rule inj_on_subset [OF inj]; use r in \<open>auto simp: book_refs_def\<close>)+
  note m = map_remove1_filter [OF this(1)] map_remove1_filter [OF this(2)]
  have B: "absB b' = \<lparr>aBids = filter (\<lambda>y. aID y \<noteq> oID (heap b r)) (aBids (absB b)),
       aAsks = filter (\<lambda>y. aID y \<noteq> oID (heap b r)) (aAsks (absB b))\<rparr>"
    using d dist m by (simp add: absB_def drop_ref_def book_refs_def)
  have "find (\<lambda>x. aID x = oID (heap b r)) (aorders (absB b)) \<noteq> None"
    unfolding find_None_iff aorders_absB using r by auto
  then obtain x where x: "find (\<lambda>x. aID x = oID (heap b r)) (aorders (absB b)) = Some x" by blast
  then have "x \<in> set (aorders (absB b))" "aID x = oID (heap b r)" by (auto simp: find_Some_iff)
  then obtain r' where r': "r' \<in> set (book_refs b)" "x = absO (heap b r')" "oID (heap b r') = oID (heap b r)"
    unfolding aorders_absB by auto
  then have "r' = r" using inj r by (auto simp: inj_on_def)
  with x r' B show ?thesis by (simp add: aCancel_def)
qed

definition cancel_post :: "string \<Rightarrow> OrderBook \<Rightarrow> CancelResult \<Rightarrow> OrderBook \<Rightarrow> bool" where
  "cancel_post i b res b' \<longleftrightarrow> book_wf b' \<and> aCancel i (absB b) = Some (absO (crOrder res), absB b')
     \<and> oID (crOrder res) = i \<and> oStatus (crOrder res) = StatusCancelled
     \<and> crReleaseCOP res = cop_of (oUserID (crOrder res)) (absO (crOrder res))
     \<and> crReleaseVibranium res = vib_of (oUserID (crOrder res)) (absO (crOrder res))
     \<and> orders b' = (orders b)(i := None) \<and> orderSeq b' = orderSeq b \<and> bSymbol b' = bSymbol b \<and> bnow b' = bnow b"

lemma Cancel_correct:
  assumes b: "book_wf b" and i: "orders b i \<noteq> None"
  shows "\<exists>res b'. Cancel i b = Some (res, b') \<and> cancel_post i b res b'"
proof -
  have core: "book_core b" and wfB: "abook_wf (absB b)" using b by (simp_all add: book_wf_iff)
  obtain r where ri: "orders b i = Some r" using i by blast
  then have r: "r \<in> set (book_refs b)" "oID (heap b r) = i" using book_core_orders [OF core] by auto
  let ?o = "heap b r" and ?B = "r \<in> set (side_refs (bids b))"
  note ok = resting_ok_bounds [OF book_core_resting [OF core r(1)]]
  let ?b1 = "if oSide ?o = Buy then b\<lparr>bids := snd (side_remove (heap b) ?o (bids b))\<rparr>
                 else b\<lparr>asks := snd (side_remove (heap b) ?o (asks b))\<rparr>"
  let ?b2 = "?b1\<lparr>orders := (orders ?b1)(i := None)\<rparr>"
  let ?o2 = "?o\<lparr>oStatus := StatusCancelled, oUpdatedAt := bnow b (bclk b)\<rparr>"
  let ?b4 = "?b2\<lparr>bclk := Suc (bclk b), heap := (heap b)(r := ?o2)\<rparr>"
  have d: "drop_ref r b ?b2" using drop_ref_side_remove [OF core r(1)] by (simp only: r(2))
  have core2: "book_core ?b2" and refs2: "set (book_refs ?b2) = set (book_refs b) - {r}"
    using book_core_drop_ref [OF core r(1) d] .
  have heap2: "heap ?b2 = heap b" "fresh ?b2 = fresh b" by simp_all
  have "book_core ?b4"
    by (rule book_core_cong [OF core2]) (use refs2 in auto)
  moreover have abs4: "absB ?b4 = absB ?b2"
    using refs2 unfolding absB_def book_refs_def by auto
  moreover note ac = drop_ref_abs [OF core r(1) d, unfolded r(2)]
  ultimately have wf4: "book_wf ?b4"
    using aCancel_wf [OF wfB ac] by (simp only: book_wf_iff)
  define rem where "rem = oQuantity ?o - oFilledQuantity ?o"
  have rem: "Remaining ?o = rem" using ok(6) by (simp add: rem_def)
  have rp: "rem * oPrice ?o \<le> oPrice ?o * oQuantity ?o" "0 \<le> rem * oPrice ?o"
    using ok by (auto simp: rem_def algebra_simps)
  then have mul: "mul64 rem (oPrice ?o) = rem * oPrice ?o"
    using ok(5) by (intro mul64_id i64_nonneg) linarith+
  define res where "res = \<lparr>crOrder = ?o2, crReleaseCOP = (if oSide ?o = Buy then rem * oPrice ?o else 0),
     crReleaseVibranium = (if oSide ?o = Buy then 0 else rem)\<rparr>"
  have "Cancel i b = Some (res, ?b4)"
    by (simp add: Cancel_def ri Let_def tick_def rem mul res_def)
  moreover have "cancel_post i b res ?b4"
    unfolding cancel_post_def abs4 ac using wf4 r(2) ok(7)
    by (auto simp: res_def cop_of_def vib_of_def rem_def split: if_splits)
  ultimately show ?thesis by blast
qed

lemma Cancel_absent:
  assumes "book_wf b" and "orders b i = None"
  shows "Cancel i b = None" "aCancel i (absB b) = None"
  using assms book_core_new_id [of b i]
  by (auto simp: Cancel_def aCancel_def book_wf_def find_None_iff)

end
