(* ===== verification/Book_Depth.thy ===== *)
theory Book_Depth
  imports Book_Refine
begin

section \<open>The depth view of the book\<close>

text \<open>
  \<open>Snapshot\<close> and \<open>levelsView\<close> of \<open>orderbook.go\<close> against the specification: the levels are the
  distinct prices of the abstract side, in order, and each shows what rests at its price.
\<close>


text \<open>
  The depth view of a side: one entry per price, best first, with the quantity that rests
  at it (an \<open>int64\<close>, so its sum wraps) and the number of orders.
\<close>

definition adepth :: "int \<Rightarrow> aorder list \<Rightarrow> LevelView list" where
  "adepth depth xs =
     (let ps = remdups_adj (map aPrice xs)
      in map (\<lambda>p. \<lparr>lvPrice = p, lvQuantity = wrap64 (\<Sum>x\<leftarrow>filter (\<lambda>x. aPrice x = p) xs. arem x),
                   lvOrders = length (filter (\<lambda>x. aPrice x = p) xs)\<rparr>)
           (if depth > 0 then take (nat depth) ps else ps))"

lemma remdups_adj_concat:
  assumes "distinct ps" and "\<And>p. p \<in> set ps \<Longrightarrow> f p \<noteq> [] \<and> (\<forall>x\<in>set (f p). g x = p)"
  shows "remdups_adj (map g (concat (map f ps))) = ps"
  using assms
proof (induction ps)
  case (Cons p ps)
  have m: "map g (f p) = replicate (length (f p)) p"
    using Cons.prems(2) [of p] by (simp add: map_replicate_const cong: map_cong)
  have ne: "map g (f p) \<noteq> []" "f p \<noteq> []" using Cons.prems(2) [of p] by simp_all
  have rest: "y \<noteq> p" if "y \<in> set (map g (concat (map f ps)))" for y
  proof -
    from that obtain q x where q: "q \<in> set ps" "x \<in> set (f q)" "y = g x" by auto
    then have "y = q" using Cons.prems(2) [of q] by simp
    with q(1) Cons.prems(1) show ?thesis by auto
  qed
  have drop: "dropWhile (\<lambda>y. y = p) ys = ys" if "\<And>y. y \<in> set ys \<Longrightarrow> y \<noteq> p" for ys
    using that by (cases ys) auto
  have dw: "dropWhile (\<lambda>y. y = p) (map g (concat (map f ps))) = map g (concat (map f ps))"
    by (rule drop) (rule rest)
  have "remdups_adj (map g (f p)) = [p]" "last (map g (f p)) = p"
    unfolding m using ne(2) by (simp_all add: remdups_adj_replicate)
  then have "remdups_adj (map g (f p) @ map g (concat (map f ps))) = p # remdups_adj (map g (concat (map f ps)))"
    using remdups_adj_append'' [OF ne(1), of "map g (concat (map f ps))"] dw by simp
  moreover have "remdups_adj (map g (concat (map f ps))) = ps"
    using Cons.prems by (intro Cons.IH) auto
  ultimately show ?case by simp
qed simp

lemma side_prices_remdups:
  assumes "side_wf bid pr s"
  shows "prices s = remdups_adj (map pr (side_refs s))"
proof -
  have "level_queue s p \<noteq> [] \<and> (\<forall>x\<in>set (level_queue s p). pr x = p)" if "p \<in> set (prices s)" for p
    using that side_wfD(3,6) [OF assms] level_queue_price [OF assms] by (fastforce simp: level_queue_def)
  from remdups_adj_concat [OF side_wfD(4) [OF assms] this] show ?thesis by (simp add: side_refs_def)
qed

lemma filter_concat_map:
  assumes "distinct ps" and "\<And>p x. p \<in> set ps \<Longrightarrow> x \<in> set (f p) \<Longrightarrow> g x = p" and "k \<in> set ps"
  shows "filter (\<lambda>x. g x = k) (concat (map f ps)) = f k"
  using assms
proof (induction ps)
  case (Cons p ps)
  show ?case
  proof (cases "p = k")
    case True
    then have "filter (\<lambda>x. g x = k) (f p) = f k" using Cons.prems(2) [of p] by (simp add: filter_True)
    moreover have "filter (\<lambda>x. g x = k) (concat (map f ps)) = []"
      unfolding filter_empty_conv
    proof
      fix x assume "x \<in> set (concat (map f ps))"
      then obtain q where q: "q \<in> set ps" "x \<in> set (f q)" by auto
      then have "g x = q" using Cons.prems(2) [of q] by simp
      with q(1) Cons.prems(1) True show "g x \<noteq> k" by auto
    qed
    ultimately show ?thesis by simp
  next
    case False
    then have "filter (\<lambda>x. g x = k) (f p) = []" using Cons.prems(2) [of p] by (auto simp: filter_empty_conv)
    moreover have "filter (\<lambda>x. g x = k) (concat (map f ps)) = f k"
      using Cons.prems False by (intro Cons.IH) auto
    ultimately show ?thesis by simp
  qed
qed simp

lemma level_queue_filter:
  "side_wf bid pr s \<Longrightarrow> p \<in> set (prices s) \<Longrightarrow> level_queue s p = filter (\<lambda>r. pr r = p) (side_refs s)"
  unfolding side_refs_def
  by (rule filter_concat_map [symmetric]) (auto dest: side_wfD(4) intro: level_queue_price)

lemma foldl_add64: "foldl (\<lambda>q r. add64 q (f r)) (wrap64 a) rs = wrap64 (a + (\<Sum>r\<leftarrow>rs. f r))"
  by (induction rs arbitrary: a) (simp_all add: add64_wrap add.assoc)

definition level_view :: "(oref \<Rightarrow> order) \<Rightarrow> bookSide \<Rightarrow> int \<Rightarrow> LevelView" where
  "level_view h s p = \<lparr>lvPrice = p, lvQuantity = wrap64 (\<Sum>r\<leftarrow>level_queue s p. Remaining (h r)),
     lvOrders = length (level_queue s p)\<rparr>"

lemma levelsView_loop_eq:
  "set ps \<subseteq> dom (levels s) \<Longrightarrow> levelsView_loop h depth s i ps out
    = Some (out @ map (level_view h s) (if depth > 0 then take (nat depth - i) ps else ps))"
proof (induction h depth s i ps out rule: levelsView_loop.induct)
  case (2 h depth s i p ps out)
  then obtain lvl where lvl: "levels s p = Some lvl" by auto
  then have lv: "level_view h s p = \<lparr>lvPrice = p, lvQuantity = foldl (\<lambda>q r. add64 q (Remaining (h r))) 0 (lvl_queue lvl),
      lvOrders = length (lvl_queue lvl)\<rparr>"
    using foldl_add64 [of "\<lambda>r. Remaining (h r)" 0 "lvl_queue lvl"]
    by (simp add: level_view_def level_queue_def wrap64_id)
  show ?case
  proof (cases "depth > 0 \<and> int i \<ge> depth")
    case True
    then have "nat depth \<le> i" by linarith
    with True show ?thesis by simp
  next
    case False
    then have "take (nat depth - i) (p # ps) = p # take (nat depth - (i + 1)) ps" if "depth > 0"
      using that by (simp add: take_Cons' nat_diff_distrib)
    with False 2 lvl lv show ?thesis by (auto simp: not_le)
  qed
qed simp

lemma levelsView_abs:
  assumes wf: "side_wf bid (\<lambda>r. oPrice (h r)) s" and ok: "\<forall>r\<in>set (side_refs s). resting_ok bid (h r)"
  shows "levelsView h depth s = Some (adepth depth (map (\<lambda>r. absO (h r)) (side_refs s)))"
proof -
  let ?xs = "map (\<lambda>r. absO (h r)) (side_refs s)"
  have ps: "remdups_adj (map aPrice ?xs) = prices s"
    using side_prices_remdups [OF wf] by (simp add: comp_def)
  have lv: "level_view h s p = \<lparr>lvPrice = p, lvQuantity = wrap64 (\<Sum>x\<leftarrow>filter (\<lambda>x. aPrice x = p) ?xs. arem x),
        lvOrders = length (filter (\<lambda>x. aPrice x = p) ?xs)\<rparr>" if p: "p \<in> set (prices s)" for p
  proof -
    have "map (\<lambda>r. Remaining (h r)) (filter (\<lambda>r. oPrice (h r) = p) (side_refs s))
        = map (\<lambda>r. arem (absO (h r))) (filter (\<lambda>r. oPrice (h r) = p) (side_refs s))"
      using ok resting_ok_bounds(6) by (intro map_cong) auto
    then show ?thesis
      unfolding level_view_def level_queue_filter [OF wf p] filter_map
      by (simp add: comp_def del: map_eq_conv absO_simps(7))
  qed
  have "levelsView h depth s = Some (map (level_view h s) (if depth > 0 then take (nat depth) (prices s) else prices s))"
    unfolding levelsView_def using side_wfD(3) [OF wf] by (simp add: levelsView_loop_eq)
  also have "map (level_view h s) (if depth > 0 then take (nat depth) (prices s) else prices s) = adepth depth ?xs"
    unfolding adepth_def Let_def ps using lv by (auto dest: in_set_takeD)
  finally show ?thesis .
qed

lemma Snapshot_correct:
  "book_wf b \<Longrightarrow> Snapshot depth b
     = Some \<lparr>snSymbol = bSymbol b, snBids = adepth depth (aBids (absB b)), snAsks = adepth depth (aAsks (absB b))\<rparr>"
  by (auto simp: Snapshot_def book_wf_def book_core_def levelsView_abs [of True] levelsView_abs [of False] absB_def)

end
