(* ===== verification/Engine.thy ===== *)
theory Engine
  imports Ports Book_Depth
begin

section \<open>The matching engine: one goroutine, one book, one stream of events\<close>

text \<open>
  \<open>internal/adapter/driven/matching/engine.go\<close>. \<open>handle\<close> and its cases run on the engine's
  goroutine, one command at a time: they are functions from the engine and the log to the
  reply, the engine and the log, \<open>None\<close> when the goroutine panics. Every command of the
  source carries a reply channel with room for one reply, so sending the reply never waits.
  The clock \<open>e.now\<close> is \<open>eNow\<close>, read for the \<open>n\<close>-th time as \<open>eNow e n\<close>.
\<close>

datatype command = cmdPlace order | cmdCancel string | cmdSnapshot int

definition zero_snapshot :: BookSnapshot where
  "zero_snapshot = \<lparr>snSymbol = [], snBids = [], snAsks = []\<rparr>"

record commandReply =
  crpOrder :: "order option"
  crpSnapshot :: BookSnapshot
  crpErr :: "goerr option"

definition zero_reply :: commandReply where
  "zero_reply = \<lparr>crpOrder = None, crpSnapshot = zero_snapshot, crpErr = None\<rparr>"

record engine =
  eBook :: OrderBook
  eSeq :: int
  eProducerID :: string
  eNow :: "nat \<Rightarrow> time"
  eClk :: nat

text \<open>
  \<open>newProducerID\<close>: eight random bytes in hexadecimal. The fallback of the source on the
  clock, for a system without randomness, is not modelled. \<open>Symbol\<close> is that of the book.
\<close>

definition newProducerID :: "nat list \<Rightarrow> string" where
  "newProducerID bytes = hex_EncodeToString bytes"

definition engine_Symbol :: "engine \<Rightarrow> string" where
  "engine_Symbol e = bSymbol (eBook e)"

definition NewEngine :: "string \<Rightarrow> string \<Rightarrow> (nat \<Rightarrow> time) \<Rightarrow> (nat \<Rightarrow> time) \<Rightarrow> engine" where
  "NewEngine symbol producerID now booknow =
     \<lparr>eBook = NewOrderBook symbol booknow, eSeq = 0, eProducerID = producerID, eNow = now, eClk = 0\<rparr>"

definition new_event :: "event_type \<Rightarrow> event" where
  "new_event ty = \<lparr>eID = [], eType = ty, eSequence = 0, eAt = 0, eTrade = None, eOrder = None,
     eReleaseCOP = 0, eReleaseVibranium = 0\<rparr>"

subsection \<open>Publishing\<close>

text \<open>The stamp that \<open>publish\<close> puts on an event, and the engine after it.\<close>

definition stamp :: "engine \<Rightarrow> event \<Rightarrow> event" where
  "stamp e ev = (let n = add64 (eSeq e) 1
     in ev\<lparr>eSequence := n, eID := eProducerID e @ ''-'' @ itoa n, eAt := eNow e (eClk e)\<rparr>)"

definition stamped :: "engine \<Rightarrow> engine" where
  "stamped e = e\<lparr>eSeq := add64 (eSeq e) 1, eClk := Suc (eClk e)\<rparr>"

definition publish :: "'l EventLog \<Rightarrow> event \<Rightarrow> engine \<times> 'l \<Rightarrow> (engine \<times> 'l) option" where
  "publish L ev x = (case x of (e, l) \<Rightarrow>
     map_option (\<lambda>l'. (stamped e, l')) (el_Publish L (stamp e ev) l))"

definition trade_event :: "Fill \<Rightarrow> event" where
  "trade_event f = (new_event EventTrade)\<lparr>eTrade := Some (fTrade f)\<rparr>"

definition maker_event :: "Fill \<Rightarrow> event" where
  "maker_event f = (new_event EventOrderUpdated)\<lparr>eOrder := Some (fMaker f)\<rparr>"

definition taker_event :: "PlaceResult \<Rightarrow> event" where
  "taker_event res = (new_event EventOrderUpdated)\<lparr>eOrder := Some (CloneOrder (prTaker res)),
     eReleaseCOP := prReleaseCOP res\<rparr>"

definition cancel_event :: "CancelResult \<Rightarrow> event" where
  "cancel_event res = (new_event EventOrderUpdated)\<lparr>eOrder := Some (CloneOrder (crOrder res)),
     eReleaseCOP := crReleaseCOP res, eReleaseVibranium := crReleaseVibranium res\<rparr>"

text \<open>The loop over \<open>res.Fills\<close>.\<close>

fun publish_fills :: "'l EventLog \<Rightarrow> Fill list \<Rightarrow> engine \<times> 'l \<Rightarrow> (engine \<times> 'l) option" where
  "publish_fills L [] x = Some x"
| "publish_fills L (f # fs) x =
     (case publish L (trade_event f) x of
        None \<Rightarrow> None
      | Some x1 \<Rightarrow> (case publish L (maker_event f) x1 of
                      None \<Rightarrow> None
                    | Some x2 \<Rightarrow> publish_fills L fs x2))"

subsection \<open>Handling a command\<close>

definition handlePlace :: "'l EventLog \<Rightarrow> order \<Rightarrow> engine \<times> 'l \<Rightarrow> (commandReply \<times> engine \<times> 'l) option" where
  "handlePlace L o' x = (case x of (e, l) \<Rightarrow>
     (case Place o' (eBook e) of
        None \<Rightarrow> None
      | Some (res, b) \<Rightarrow>
          (case publish_fills L (prFills res) (e\<lparr>eBook := b\<rparr>, l) of
             None \<Rightarrow> None
           | Some x1 \<Rightarrow>
               map_option (\<lambda>x2. (zero_reply\<lparr>crpOrder := Some (CloneOrder (prTaker res))\<rparr>, x2))
                 (publish L (taker_event res) x1))))"

definition handleCancel :: "'l EventLog \<Rightarrow> string \<Rightarrow> engine \<times> 'l \<Rightarrow> (commandReply \<times> engine \<times> 'l) option" where
  "handleCancel L orderID x = (case x of (e, l) \<Rightarrow>
     (case Cancel orderID (eBook e) of
        None \<Rightarrow> Some (zero_reply\<lparr>crpErr := Some ErrOrderNotFound\<rparr>, e, l)
      | Some (res, b) \<Rightarrow>
          map_option (\<lambda>x1. (zero_reply\<lparr>crpOrder := Some (CloneOrder (crOrder res))\<rparr>, x1))
            (publish L (cancel_event res) (e\<lparr>eBook := b\<rparr>, l))))"

definition handleSnapshot :: "int \<Rightarrow> engine \<times> 'l \<Rightarrow> (commandReply \<times> engine \<times> 'l) option" where
  "handleSnapshot depth x = (case x of (e, l) \<Rightarrow>
     map_option (\<lambda>sn. (zero_reply\<lparr>crpSnapshot := sn\<rparr>, e, l)) (Snapshot depth (eBook e)))"

primrec handle_command :: "'l EventLog \<Rightarrow> command \<Rightarrow> engine \<times> 'l \<Rightarrow> (commandReply \<times> engine \<times> 'l) option" where
  "handle_command L (cmdPlace o') x = handlePlace L o' x"
| "handle_command L (cmdCancel i) x = handleCancel L i x"
| "handle_command L (cmdSnapshot d) x = handleSnapshot d x"

text \<open>
  \<open>Run\<close> until the input is drained: the commands in the order of the channel, with the
  replies in the same order.
\<close>

fun run_commands :: "'l EventLog \<Rightarrow> command list \<Rightarrow> engine \<times> 'l \<Rightarrow> (commandReply list \<times> engine \<times> 'l) option" where
  "run_commands L [] x = Some ([], x)"
| "run_commands L (c # cs) x =
     (case handle_command L c x of
        None \<Rightarrow> None
      | Some (r, x1) \<Rightarrow> map_option (\<lambda>(rs, x2). (r # rs, x2)) (run_commands L cs x1))"

text \<open>\<open>Run\<close> with its \<open>select\<close>.\<close>

fun engine_Run :: "'l EventLog \<Rightarrow> command choice list \<Rightarrow> engine \<times> 'l \<Rightarrow> (commandReply list \<times> engine \<times> 'l) option" where
  "engine_Run L (Received cmd # cs) x =
     (case handle_command L cmd x of
        None \<Rightarrow> None
      | Some (r, x1) \<Rightarrow> map_option (\<lambda>(rs, x2). (r # rs, x2)) (engine_Run L cs x1))"
| "engine_Run L cs x = Some ([], x)"

lemma engine_Run_commands: "engine_Run L cs x = run_commands L (received cs) x"
  by (induction L cs x rule: engine_Run.induct) (auto split: option.split)

subsection \<open>The port of the engine\<close>

text \<open>
  \<open>Place\<close>, \<open>Cancel\<close> and \<open>Depth\<close> wait in two \<open>select\<close>s: to hand over the command and to get
  the reply. When the context is done, either may give up instead, so a call has one of
  three fates. \<open>Abandoned\<close> is the one where the command was handed over and the engine
  does it, but the caller is told of a context error. The calls of this section run while
  no other command is queued; interleaved calls are in the theory of the whole system.
\<close>

datatype select_fate = Replied | NotEnqueued | Abandoned

record 'l engine_adapter =
  ea_engine :: engine
  ea_log :: 'l
  ea_fate :: "nat \<Rightarrow> select_fate"
  ea_calls :: nat

definition call_fate :: "ctx \<Rightarrow> 'l engine_adapter \<Rightarrow> select_fate" where
  "call_fate c a = (if c = CtxLive then Replied else ea_fate a (ea_calls a))"

definition submit :: "'l EventLog \<Rightarrow> ctx \<Rightarrow> command \<Rightarrow> 'l engine_adapter
    \<Rightarrow> ((goerr + commandReply) \<times> 'l engine_adapter) option" where
  "submit L c cmd a =
     (let a1 = a\<lparr>ea_calls := Suc (ea_calls a)\<rparr>; fate = call_fate c a
      in if fate = NotEnqueued then Some (Inl ErrContext, a1)
         else case handle_command L cmd (ea_engine a, ea_log a) of
                None \<Rightarrow> None
              | Some (r, e, l) \<Rightarrow>
                  (let a2 = a1\<lparr>ea_engine := e, ea_log := l\<rparr>
                   in Some (if fate = Abandoned then Inl ErrContext else Inr r, a2)))"

definition reply_order :: "goerr + commandReply \<Rightarrow> goerr + order" where
  "reply_order r = (case r of Inl e \<Rightarrow> Inl e
     | Inr cr \<Rightarrow> (case crpErr cr of Some e \<Rightarrow> Inl e | None \<Rightarrow> Inr (the (crpOrder cr))))"

definition reply_snapshot :: "goerr + commandReply \<Rightarrow> goerr + BookSnapshot" where
  "reply_snapshot r = (case r of Inl e \<Rightarrow> Inl e
     | Inr cr \<Rightarrow> (case crpErr cr of Some e \<Rightarrow> Inl e | None \<Rightarrow> Inr (crpSnapshot cr)))"

definition Engine_Place :: "'l EventLog \<Rightarrow> ctx \<Rightarrow> order \<Rightarrow> 'l engine_adapter
    \<Rightarrow> ((goerr + order) \<times> 'l engine_adapter) option" where
  "Engine_Place L c o' a = map_option (\<lambda>(r, a'). (reply_order r, a')) (submit L c (cmdPlace o') a)"

definition Engine_Cancel :: "'l EventLog \<Rightarrow> ctx \<Rightarrow> string \<Rightarrow> 'l engine_adapter
    \<Rightarrow> ((goerr + order) \<times> 'l engine_adapter) option" where
  "Engine_Cancel L c i a = map_option (\<lambda>(r, a'). (reply_order r, a')) (submit L c (cmdCancel i) a)"

definition Engine_Depth :: "'l EventLog \<Rightarrow> ctx \<Rightarrow> int \<Rightarrow> 'l engine_adapter
    \<Rightarrow> ((goerr + BookSnapshot) \<times> 'l engine_adapter) option" where
  "Engine_Depth L c d a = map_option (\<lambda>(r, a'). (reply_snapshot r, a')) (submit L c (cmdSnapshot d) a)"

definition engine_port :: "'l EventLog \<Rightarrow> ('l engine_adapter, BookSnapshot) MatchingEngine" where
  "engine_port L = \<lparr>me_Place = Engine_Place L, me_Cancel = Engine_Cancel L, me_Depth = Engine_Depth L\<rparr>"

end
