(* ===== verification/Engine_Spec.thy ===== *)
theory Engine_Spec
  imports Engine Memstore
begin

section \<open>What the engine publishes\<close>

text \<open>
  The stream of \<open>engine.go\<close> as a function of the commands: the abstract events of
  \<open>asteps\<close>, stamped with consecutive numbers. The engine is a client of the log, so its
  lemmas are proved against the contract \<open>event_sink\<close>; the in-memory log provides it.
\<close>

subsection \<open>The engine as a specification: commands in, events out\<close>

text \<open>
  What an event says, without stamps and identifiers: who paid whom how much, or the state
  of an order and the funds to release with it.
\<close>

datatype aevent =
    ATrade string string int int
  | AUpdate aorder int int

definition abs_event :: "event \<Rightarrow> aevent" where
  "abs_event ev = (case eTrade ev of
       Some t \<Rightarrow> ATrade (tBuyerID t) (tSellerID t) (tPrice t) (tQuantity t)
     | None \<Rightarrow> AUpdate (absO (the (eOrder ev))) (eReleaseCOP ev) (eReleaseVibranium ev))"

definition afill_events :: "aorder \<Rightarrow> afills \<Rightarrow> aevent list" where
  "afill_events t fs = concat (map (\<lambda>(m, q).
     [ATrade (abuyer t m) (aseller t m) (aPrice m) q, AUpdate (afill q m) 0 0]) fs)"

fun astep :: "command \<Rightarrow> abook \<Rightarrow> aevent list \<times> abook" where
  "astep (cmdPlace o') B =
     (let (t', fs, rel, B') = aPlace (absO o') B in (afill_events (absO o') fs @ [AUpdate t' rel 0], B'))"
| "astep (cmdCancel i) B =
     (case aCancel i B of
        None \<Rightarrow> ([], B)
      | Some (x, B') \<Rightarrow> ([AUpdate x (cop_of (aUser x) x) (vib_of (aUser x) x)], B'))"
| "astep (cmdSnapshot d) B = ([], B)"

fun asteps :: "command list \<Rightarrow> abook \<Rightarrow> aevent list \<times> abook" where
  "asteps [] B = ([], B)"
| "asteps (c # cs) B = (let (evs, B1) = astep c B; (evs', B2) = asteps cs B1 in (evs @ evs', B2))"

lemma absO_CloneOrder [simp]: "absO (CloneOrder o') = absO o'"
  by (simp add: CloneOrder_def)

lemma abs_event_new [simp]:
  "abs_event (taker_event res) = AUpdate (absO (prTaker res)) (prReleaseCOP res) 0"
  "abs_event (cancel_event cr) = AUpdate (absO (crOrder cr)) (crReleaseCOP cr) (crReleaseVibranium cr)"
  "abs_event (maker_event f) = AUpdate (absO (fMaker f)) 0 0"
  "abs_event (stamp e ev) = abs_event ev"
  by (auto simp: abs_event_def taker_event_def cancel_event_def maker_event_def new_event_def stamp_def Let_def
      split: option.split)

definition fill_events :: "Fill list \<Rightarrow> event list" where
  "fill_events fs = concat (map (\<lambda>f. [trade_event f, maker_event f]) fs)"

lemma abs_fill_events:
  assumes "\<forall>f\<in>set fs. fill_ok t s f"
  shows "map abs_event (fill_events fs) = afill_events (absO t) (map afill_of fs)"
  using assms
  by (induction fs)
    (auto simp: fill_events_def afill_events_def trade_event_def new_event_def abs_event_def maker_event_def
      fill_ok_def Let_def afill_of_def abuyer_def aseller_def)

text \<open>An event of the engine carries what its type says.\<close>

definition ev_typed :: "event \<Rightarrow> bool" where
  "ev_typed ev \<longleftrightarrow> eType ev = EventTrade \<and> eTrade ev \<noteq> None
     \<or> eType ev = EventOrderUpdated \<and> eTrade ev = None \<and> eOrder ev \<noteq> None"

lemma ev_typed_simps [simp]:
  "ev_typed (taker_event res)" "ev_typed (cancel_event cr)" "\<forall>ev\<in>set (fill_events fs). ev_typed ev"
  "ev_typed (stamp e ev) = ev_typed ev"
  by (auto simp: ev_typed_def taker_event_def cancel_event_def new_event_def fill_events_def trade_event_def
      maker_event_def stamp_def Let_def)

subsection \<open>The stream\<close>

primrec stamp_events :: "engine \<Rightarrow> event list \<Rightarrow> event list" where
  "stamp_events e [] = []"
| "stamp_events e (ev # evs) = stamp e ev # stamp_events (stamped e) evs"

primrec stamped_n :: "nat \<Rightarrow> engine \<Rightarrow> engine" where
  "stamped_n 0 e = e"
| "stamped_n (Suc n) e = stamped_n n (stamped e)"

lemma stamp_events_append:
  "stamp_events e (xs @ ys) = stamp_events e xs @ stamp_events (stamped_n (length xs) e) ys"
  by (induction xs arbitrary: e) simp_all

lemma stamped_n_add: "stamped_n (m + n) e = stamped_n n (stamped_n m e)"
  by (induction m arbitrary: e) simp_all

lemma stamped_fields [simp]:
  "eBook (stamped e) = eBook e" "eProducerID (stamped e) = eProducerID e" "eNow (stamped e) = eNow e"
  "eSeq (stamped e) = add64 (eSeq e) 1"
  by (simp_all add: stamped_def)

lemma stamped_n_fields [simp]:
  "eBook (stamped_n n e) = eBook e" "eProducerID (stamped_n n e) = eProducerID e" "eNow (stamped_n n e) = eNow e"
  by (induction n arbitrary: e) simp_all

lemma stamp_book: "stamp (e\<lparr>eBook := b\<rparr>) ev = stamp e ev"
  by (simp add: stamp_def Let_def)

lemma stamped_book: "stamped (e\<lparr>eBook := b\<rparr>) = (stamped e)\<lparr>eBook := b\<rparr>"
  by (simp add: stamped_def)

lemma stamped_n_book: "stamped_n n (e\<lparr>eBook := b\<rparr>) = (stamped_n n e)\<lparr>eBook := b\<rparr>"
  by (induction n arbitrary: e) (simp_all add: stamped_book)

lemma stamp_events_book: "stamp_events (e\<lparr>eBook := b\<rparr>) evs = stamp_events e evs"
  by (induction evs arbitrary: e) (simp_all add: stamp_book stamped_book)

lemma stamped_n_seq: "0 \<le> eSeq e \<Longrightarrow> eSeq e + int n \<le> max_i64 \<Longrightarrow> eSeq (stamped_n n e) = eSeq e + int n"
  by (induction n arbitrary: e) (simp_all add: add64_id i64_nonneg)

lemma length_stamp_events [simp]: "length (stamp_events e evs) = length evs"
  by (induction evs arbitrary: e) simp_all

lemma ev_typed_stamp_events [simp]: "(\<forall>ev\<in>set (stamp_events e evs). ev_typed ev) = (\<forall>ev\<in>set evs. ev_typed ev)"
  by (induction evs arbitrary: e) simp_all

lemma map_abs_stamp_events [simp]: "map abs_event (stamp_events e evs) = map abs_event evs"
  by (induction evs arbitrary: e) simp_all

text \<open>The numbers of the stream are consecutive, and the identifiers are made from them.\<close>

lemma stamp_events_seq:
  assumes "0 \<le> eSeq e" and "eSeq e + int (length evs) \<le> max_i64"
  shows "map (\<lambda>ev. (eSequence ev, eID ev)) (stamp_events e evs)
    = map (\<lambda>k. (eSeq e + 1 + int k, eProducerID e @ ''-'' @ itoa (eSeq e + 1 + int k))) [0..<length evs]"
  using assms
proof (induction evs arbitrary: e)
  case (Cons ev evs)
  have up: "[0..<length (ev # evs)] = 0 # map Suc [0..<length evs]"
    by (metis length_Cons map_Suc_upt upt_conv_Cons zero_less_Suc)
  have s: "add64 (eSeq e) 1 = eSeq e + 1" using Cons.prems by (simp add: add64_id i64_nonneg)
  have "map (\<lambda>ev. (eSequence ev, eID ev)) (stamp_events (stamped e) evs)
    = map (\<lambda>k. (eSeq e + 1 + 1 + int k, eProducerID e @ ''-'' @ itoa (eSeq e + 1 + 1 + int k))) [0..<length evs]"
    using Cons.IH [of "stamped e"] Cons.prems by (simp add: s)
  then show ?case
    unfolding up by (simp add: s stamp_def Let_def comp_def algebra_simps)
qed simp

lemma stamp_events_ids_distinct:
  assumes "0 \<le> eSeq e" and "eSeq e + int (length evs) \<le> max_i64"
  shows "distinct (map eID (stamp_events e evs))"
proof -
  have "inj_on (\<lambda>k. eProducerID e @ ''-'' @ itoa (eSeq e + 1 + int k)) (set [0..<length evs])"
    using assms(1) by (intro inj_onI) (auto dest!: itoa_inj_nonneg [rotated 2])
  then have "distinct (map (\<lambda>k. eProducerID e @ ''-'' @ itoa (eSeq e + 1 + int k)) [0..<length evs])"
    by (simp only: distinct_map distinct_upt simp_thms)
  also have "map (\<lambda>k. eProducerID e @ ''-'' @ itoa (eSeq e + 1 + int k)) [0..<length evs]
      = map snd (map (\<lambda>ev. (eSequence ev, eID ev)) (stamp_events e evs))"
    unfolding stamp_events_seq [OF assms] by (simp add: comp_def)
  finally show ?thesis by (simp add: comp_def)
qed

text \<open>Commands whose orders are valid and have identifiers of their own.\<close>

fun cmds_ok :: "string set \<Rightarrow> command list \<Rightarrow> bool" where
  "cmds_ok ids [] \<longleftrightarrow> True"
| "cmds_ok ids (cmdPlace o' # cs) \<longleftrightarrow> valid_new o' \<and> oID o' \<notin> ids \<and> cmds_ok (insert (oID o') ids) cs"
| "cmds_ok ids (cmdCancel i # cs) \<longleftrightarrow> cmds_ok ids cs"
| "cmds_ok ids (cmdSnapshot d # cs) \<longleftrightarrow> cmds_ok ids cs"

definition aids :: "abook \<Rightarrow> string set" where
  "aids B = set (map aID (aorders B))"

lemma aPlace_ids:
  assumes "aPlace t B = (t', fs, rel, B')"
  shows "aids B' \<subseteq> insert (aID t) (aids B)"
proof -
  obtain ms' where m: "amatch t (aopposite t B) = (t', fs, ms')"
    and B': "B' = (if arem t' = 0 then aset_opposite t ms' B else arest t' (aset_opposite t ms' B))"
    using assms by (rule aPlaceE)
  have "aID t' = aID t" using amatch_taker [OF m] by simp
  moreover have "aids (arest x C) = insert (aID x) (aids C)" for x C
    by (auto simp: aids_def arest_def aorders_def)
  moreover have "aids (aset_opposite t ms' B) \<subseteq> aids B"
    using aset_opposite_ids [OF m] by (simp only: aids_def)
  ultimately show ?thesis by (auto simp: B')
qed

lemma aCancel_ids: "aCancel i B = Some (x, B') \<Longrightarrow> aids B' \<subseteq> aids B"
  by (auto simp: aCancel_def aids_def aorders_def)

lemma cmds_ok_step:
  assumes "cmds_ok ids (c # cs)" and "aids B \<subseteq> ids" and "astep c B = (evs, B')"
  shows "\<exists>ids'. aids B' \<subseteq> ids' \<and> cmds_ok ids' cs"
proof (cases c)
  case (cmdPlace o')
  with assms have "aids B' \<subseteq> insert (oID o') ids"
    using aPlace_ids [of "absO o'" B] by (auto simp: Let_def split: prod.splits)
  with assms cmdPlace show ?thesis by auto
next
  case (cmdCancel i)
  with assms have "aids B' \<subseteq> ids"
    using aCancel_ids [of i B] by (auto split: option.splits)
  with assms cmdCancel show ?thesis by auto
next
  case (cmdSnapshot d)
  with assms show ?thesis by auto
qed

context event_sink
begin

lemma publish_works:
  assumes "\<not> closed l"
  obtains l' where "publish elog ev (e, l) = Some (stamped e, l')"
    and "published l' = published l @ [stamp e ev]" and "\<not> closed l'"
  using publish_open [OF assms, of "stamp e ev"] by (auto simp: publish_def)

lemma publish_fills_works:
  "\<not> closed l \<Longrightarrow> \<exists>l'. publish_fills elog fs (e, l) = Some (stamped_n (length (fill_events fs)) e, l')
    \<and> published l' = published l @ stamp_events e (fill_events fs) \<and> \<not> closed l'"
proof (induction fs arbitrary: e l)
  case (Cons f fs)
  obtain l1 where 1: "publish elog (trade_event f) (e, l) = Some (stamped e, l1)"
    "published l1 = published l @ [stamp e (trade_event f)]" "\<not> closed l1"
    by (rule publish_works [OF Cons.prems])
  obtain l2 where 2: "publish elog (maker_event f) (stamped e, l1) = Some (stamped (stamped e), l2)"
    "published l2 = published l1 @ [stamp (stamped e) (maker_event f)]" "\<not> closed l2"
    by (rule publish_works [OF 1(3)])
  from Cons.IH [OF 2(3), of "stamped (stamped e)"] 1 2 show ?case by (auto simp: fill_events_def)
qed (simp add: fill_events_def)

text \<open>One command: the engine answers, publishes what the specification says, and goes on.\<close>

lemma handle_command_works:
  assumes wf: "book_wf (eBook e)" and l: "\<not> closed l"
    and ok: "\<And>o'. c = cmdPlace o' \<Longrightarrow> valid_new o' \<and> orders (eBook e) (oID o') = None"
  shows "\<exists>r b' l' evs. handle_command elog c (e, l) = Some (r, (stamped_n (length evs) e)\<lparr>eBook := b'\<rparr>, l')
    \<and> \<not> closed l' \<and> published l' = published l @ stamp_events e evs \<and> book_wf b'
    \<and> astep c (absB (eBook e)) = (map abs_event evs, absB b') \<and> (\<forall>ev\<in>set evs. ev_typed ev)"
proof (cases c)
  case (cmdPlace o')
  with ok have o': "valid_new o'" "orders (eBook e) (oID o') = None" by auto
  obtain res b where pl: "Place o' (eBook e) = Some (res, b)" and post: "place_post o' (eBook e) res b"
    using Place_correct [OF wf o'] by blast
  let ?e = "e\<lparr>eBook := b\<rparr>" and ?n = "length (fill_events (prFills res))"
  obtain l1 where 1: "publish_fills elog (prFills res) (?e, l) = Some (stamped_n ?n ?e, l1)"
    "published l1 = published l @ stamp_events ?e (fill_events (prFills res))" "\<not> closed l1"
    using publish_fills_works [OF l] by blast
  obtain l2 where 2: "publish elog (taker_event res) (stamped_n ?n ?e, l1) = Some (stamped (stamped_n ?n ?e), l2)"
    "published l2 = published l1 @ [stamp (stamped_n ?n ?e) (taker_event res)]" "\<not> closed l2"
    by (rule publish_works [OF 1(3)])
  let ?evs = "fill_events (prFills res) @ [taker_event res]"
  have "handle_command elog c (e, l)
      = Some (zero_reply\<lparr>crpOrder := Some (CloneOrder (prTaker res))\<rparr>, stamped (stamped_n ?n ?e), l2)"
    using 1(1) 2(1) pl by (simp add: cmdPlace handlePlace_def)
  moreover have "published l2 = published l @ stamp_events e ?evs"
    using 1(2) 2(2) by (simp add: stamp_events_append stamp_events_book stamp_book stamped_n_book)
  moreover have "astep c (absB (eBook e)) = (map abs_event ?evs, absB b)"
    using post abs_fill_events [of "prFills res" o'] by (auto simp: cmdPlace place_post_def Let_def)
  moreover have "stamped (stamped_n ?n ?e) = (stamped_n (length ?evs) e)\<lparr>eBook := b\<rparr>"
    using stamped_n_add [of ?n 1 ?e] by (simp add: stamped_n_book stamped_book)
  ultimately show ?thesis
    using 2(3) post by (intro exI [of _ b] exI [of _ ?evs] exI conjI) (auto simp: place_post_def)
next
  case (cmdCancel i)
  show ?thesis
  proof (cases "orders (eBook e) i = None")
    case True
    with Cancel_absent [OF wf True] wf l show ?thesis
      by (intro exI [of _ "eBook e"] exI [of _ "[]"] exI conjI) (auto simp: cmdCancel handleCancel_def)
  next
    case False
    obtain res b where ca: "Cancel i (eBook e) = Some (res, b)" and post: "cancel_post i (eBook e) res b"
      using Cancel_correct [OF wf False] by blast
    obtain l1 where 1: "publish elog (cancel_event res) (e\<lparr>eBook := b\<rparr>, l) = Some (stamped (e\<lparr>eBook := b\<rparr>), l1)"
      "published l1 = published l @ [stamp (e\<lparr>eBook := b\<rparr>) (cancel_event res)]" "\<not> closed l1"
      by (rule publish_works [OF l])
    have "handle_command elog c (e, l)
        = Some (zero_reply\<lparr>crpOrder := Some (CloneOrder (crOrder res))\<rparr>, stamped (e\<lparr>eBook := b\<rparr>), l1)"
      using 1(1) ca by (simp add: cmdCancel handleCancel_def)
    then show ?thesis
      using 1(2,3) post
      by (intro exI [of _ b] exI [of _ "[cancel_event res]"] exI conjI)
        (auto simp: cmdCancel cancel_post_def stamp_book stamped_book)
  qed
next
  case (cmdSnapshot d)
  with Snapshot_correct [OF wf] wf l show ?thesis
    by (intro exI [of _ "eBook e"] exI [of _ "[]"] exI conjI) (auto simp: handleSnapshot_def)
qed

text \<open>Any sequence of commands: no panic, an invariant book, the stream of the specification.\<close>

lemma run_commands_works:
  assumes "book_wf (eBook e)" and "\<not> closed l" and "aids (absB (eBook e)) \<subseteq> ids" and "cmds_ok ids cs"
  shows "\<exists>rs e' l' evs. run_commands elog cs (e, l) = Some (rs, e', l') \<and> \<not> closed l'
    \<and> published l' = published l @ stamp_events e evs \<and> book_wf (eBook e') \<and> length rs = length cs
    \<and> asteps cs (absB (eBook e)) = (map abs_event evs, absB (eBook e'))"
  using assms
proof (induction cs arbitrary: e l ids)
  case Nil
  then show ?case by (intro exI [of _ "[]"] exI conjI) auto
next
  case (Cons c cs)
  have "valid_new o' \<and> orders (eBook e) (oID o') = None" if "c = cmdPlace o'" for o'
    using Cons.prems that book_core_new_id [of "eBook e" "oID o'"] by (auto simp: book_wf_def aids_def)
  then obtain r b1 l1 evs1 where 1: "handle_command elog c (e, l) = Some (r, (stamped_n (length evs1) e)\<lparr>eBook := b1\<rparr>, l1)"
    "\<not> closed l1" "published l1 = published l @ stamp_events e evs1" "book_wf b1"
    "astep c (absB (eBook e)) = (map abs_event evs1, absB b1)"
    using handle_command_works [OF Cons.prems(1,2)] by blast
  let ?e1 = "(stamped_n (length evs1) e)\<lparr>eBook := b1\<rparr>"
  have b1: "eBook ?e1 = b1" by simp
  obtain ids' where ids': "aids (absB (eBook ?e1)) \<subseteq> ids'" "cmds_ok ids' cs"
    using cmds_ok_step [OF Cons.prems(4,3) 1(5)] unfolding b1 by blast
  obtain rs e2 l2 evs2 where 2: "run_commands elog cs (?e1, l1) = Some (rs, e2, l2)" "\<not> closed l2"
    "published l2 = published l1 @ stamp_events ?e1 evs2" "book_wf (eBook e2)" "length rs = length cs"
    "asteps cs (absB b1) = (map abs_event evs2, absB (eBook e2))"
    using Cons.IH [of ?e1, unfolded b1, OF 1(4,2) ids' [unfolded b1]] by blast
  have "published l2 = published l @ stamp_events e (evs1 @ evs2)"
    using 1(3) 2(3) by (simp add: stamp_events_append stamp_events_book)
  moreover have "run_commands elog (c # cs) (e, l) = Some (r # rs, e2, l2)"
    by (simp add: 1(1) 2(1))
  moreover have "asteps (c # cs) (absB (eBook e)) = (map abs_event (evs1 @ evs2), absB (eBook e2))"
    by (simp add: 1(5) 2(6))
  ultimately show ?case
    using 2(2,4,5) by (intro exI [of _ "evs1 @ evs2"] exI conjI) (assumption | simp)+
qed

end

end
