(* ===== verification/Collateral.thy ===== *)
theory Collateral
  imports Trading Engine_Spec
begin

section \<open>Collateral: what is locked is what is still owed\<close>

text \<open>
  The accounting of the whole system on the view of the ledger: for every user, the locked
  funds are the sum of what the orders on their way, the resting orders and the events not
  yet settled still need. The operations of \<open>Trading\<close> and \<open>Settlement\<close> keep the balance,
  never fail under it, and move value without creating or destroying any.
\<close>

type_synonym ledger_view = "string \<Rightarrow> wallet option"

definition supplyCOP :: "ledger_view \<Rightarrow> int" where
  "supplyCOP v = (\<Sum>u\<in>dom v. COPAvailable (the (v u)) + COPLocked (the (v u)))"

definition supplyVIB :: "ledger_view \<Rightarrow> int" where
  "supplyVIB v = (\<Sum>u\<in>dom v. VibraniumAvailable (the (v u)) + VibraniumLocked (the (v u)))"

text \<open>\<open>nC\<close> and \<open>nV\<close>: the COP and the Vibranium that each user still needs locked.\<close>

definition ledger_bal :: "ledger_view \<Rightarrow> (string \<Rightarrow> int) \<Rightarrow> (string \<Rightarrow> int) \<Rightarrow> bool" where
  "ledger_bal v nC nV \<longleftrightarrow> finite (dom v) \<and> (\<forall>u. 0 \<le> nC u \<and> 0 \<le> nV u)
     \<and> (\<forall>u. case v u of
               None \<Rightarrow> nC u = 0 \<and> nV u = 0
             | Some w \<Rightarrow> COPLocked w = nC u \<and> VibraniumLocked w = nV u
                 \<and> 0 \<le> COPAvailable w \<and> 0 \<le> VibraniumAvailable w)"

definition ledger_ok :: "ledger_view \<Rightarrow> (string \<Rightarrow> int) \<Rightarrow> (string \<Rightarrow> int) \<Rightarrow> bool" where
  "ledger_ok v nC nV \<longleftrightarrow> ledger_bal v nC nV \<and> supplyCOP v \<le> max_i64 \<and> supplyVIB v \<le> max_i64"

lemma ledger_balD:
  assumes "ledger_bal v nC nV"
  shows "finite (dom v)" "0 \<le> nC u" "0 \<le> nV u" "v u = None \<Longrightarrow> nC u = 0 \<and> nV u = 0"
    "v u = Some w \<Longrightarrow> COPLocked w = nC u" "v u = Some w \<Longrightarrow> VibraniumLocked w = nV u"
    "v u = Some w \<Longrightarrow> 0 \<le> COPAvailable w" "v u = Some w \<Longrightarrow> 0 \<le> VibraniumAvailable w"
    "v u = Some w \<Longrightarrow> 0 \<le> COPLocked w" "v u = Some w \<Longrightarrow> 0 \<le> VibraniumLocked w"
proof -
  have u: "case v u of None \<Rightarrow> nC u = 0 \<and> nV u = 0 | Some w \<Rightarrow> COPLocked w = nC u \<and> VibraniumLocked w = nV u
      \<and> 0 \<le> COPAvailable w \<and> 0 \<le> VibraniumAvailable w" and n: "0 \<le> nC u" "0 \<le> nV u"
    using assms by (auto simp: ledger_bal_def)
  show "finite (dom v)" using assms by (simp add: ledger_bal_def)
  show "0 \<le> nC u" "0 \<le> nV u" by (rule n)+
  show "v u = None \<Longrightarrow> nC u = 0 \<and> nV u = 0"
    "v u = Some w \<Longrightarrow> COPLocked w = nC u" "v u = Some w \<Longrightarrow> VibraniumLocked w = nV u"
    "v u = Some w \<Longrightarrow> 0 \<le> COPAvailable w" "v u = Some w \<Longrightarrow> 0 \<le> VibraniumAvailable w"
    "v u = Some w \<Longrightarrow> 0 \<le> COPLocked w" "v u = Some w \<Longrightarrow> 0 \<le> VibraniumLocked w"
    using u n by auto
qed

lemma ledger_nonneg: "ledger_bal v nC nV \<Longrightarrow> v u = Some w \<Longrightarrow> wallet_nonneg w"
  using ledger_balD(7-10) [of v nC nV u w] by (simp add: wallet_nonneg_def)

text \<open>Who needs funds locked has a wallet.\<close>

lemma ledger_bal_has_wallet:
  assumes "ledger_bal v nC nV" and "0 < nC u \<or> 0 < nV u"
  obtains w where "v u = Some w"
  using ledger_balD(4) [OF assms(1), of u] assms(2) by (cases "v u") auto

lemma sum_upd:
  assumes "finite (dom v)" and "v u = Some w"
  shows "(\<Sum>x\<in>dom (v(u \<mapsto> w')). f (the ((v(u \<mapsto> w')) x))) = (\<Sum>x\<in>dom v. f (the (v x))) - f w + (f w' :: int)"
proof -
  have "u \<in> dom v" using assms(2) by auto
  then have "dom (v(u \<mapsto> w')) = dom v" by auto
  moreover have "(\<Sum>x\<in>dom v. f (the ((v(u \<mapsto> w')) x))) = f w' + (\<Sum>x\<in>dom v - {u}. f (the (v x)))"
    using assms(1) \<open>u \<in> dom v\<close> by (subst sum.remove [of _ u]) auto
  moreover have "(\<Sum>x\<in>dom v. f (the (v x))) = f w + (\<Sum>x\<in>dom v - {u}. f (the (v x)))"
    using assms \<open>u \<in> dom v\<close> by (subst sum.remove [of _ u]) auto
  ultimately show ?thesis by simp
qed

lemma supply_upd:
  assumes "finite (dom v)" and "v u = Some w"
  shows "supplyCOP (v(u \<mapsto> w')) = supplyCOP v - (COPAvailable w + COPLocked w) + (COPAvailable w' + COPLocked w')"
    and "supplyVIB (v(u \<mapsto> w')) = supplyVIB v - (VibraniumAvailable w + VibraniumLocked w)
      + (VibraniumAvailable w' + VibraniumLocked w')"
  unfolding supplyCOP_def supplyVIB_def
  using sum_upd [OF assms, of "\<lambda>w. COPAvailable w + COPLocked w" w']
    sum_upd [OF assms, of "\<lambda>w. VibraniumAvailable w + VibraniumLocked w" w'] by simp_all

text \<open>What each user holds, available or locked, and a payment of \<open>n\<close> COP for \<open>q\<close> Vibranium.\<close>

type_synonym holding_view = "string \<Rightarrow> (int \<times> int) option"

definition holdings :: "ledger_view \<Rightarrow> holding_view" where
  "holdings v u = map_option (\<lambda>w. (COPAvailable w + COPLocked w, VibraniumAvailable w + VibraniumLocked w)) (v u)"

definition pay :: "string \<Rightarrow> string \<Rightarrow> int \<Rightarrow> int \<Rightarrow> holding_view \<Rightarrow> holding_view" where
  "pay b s n q H u = map_option (\<lambda>(c, v).
     (c + (if u = s then n else 0) - (if u = b then n else 0), v + (if u = b then q else 0) - (if u = s then q else 0))) (H u)"

lemma holdings_same:
  assumes "v u = Some w" and "COPAvailable w' + COPLocked w' = COPAvailable w + COPLocked w"
    and "VibraniumAvailable w' + VibraniumLocked w' = VibraniumAvailable w + VibraniumLocked w"
  shows "holdings (v(u \<mapsto> w')) = holdings v"
  using assms by (simp add: fun_eq_iff holdings_def)

text \<open>One balance of a user and one of another, or both of one, are part of the supply.\<close>

lemma two_le_sum:
  fixes f g h :: "'a \<Rightarrow> int"
  assumes "finite A" and "b \<in> A" and "s \<in> A" and nn: "\<And>x. x \<in> A \<Longrightarrow> 0 \<le> f x" "\<And>x. x \<in> A \<Longrightarrow> 0 \<le> g x"
  shows "f b + g s \<le> (\<Sum>x\<in>A. f x + g x)"
proof -
  have "f b \<le> (\<Sum>x\<in>A. f x)" "g s \<le> (\<Sum>x\<in>A. g x)"
    using assms by (auto intro: member_le_sum)
  then show ?thesis by (simp add: sum.distrib)
qed

lemma le_supply:
  assumes "ledger_bal v nC nV" and "v b = Some wb" and "v s = Some ws"
  shows "COPAvailable wb + COPLocked ws \<le> supplyCOP v"
    and "VibraniumAvailable wb + VibraniumLocked ws \<le> supplyVIB v"
proof -
  note D = ledger_balD [OF assms(1)]
  have nn: "0 \<le> COPAvailable (the (v x))" "0 \<le> COPLocked (the (v x))"
    "0 \<le> VibraniumAvailable (the (v x))" "0 \<le> VibraniumLocked (the (v x))" if "x \<in> dom v" for x
    using that D(7-10) [of x] by auto
  have "b \<in> dom v" "s \<in> dom v" using assms(2,3) by auto
  with two_le_sum [OF D(1) this, of "\<lambda>x. COPAvailable (the (v x))" "\<lambda>x. COPLocked (the (v x))"]
    two_le_sum [OF D(1) this, of "\<lambda>x. VibraniumAvailable (the (v x))" "\<lambda>x. VibraniumLocked (the (v x))"]
  show "COPAvailable wb + COPLocked ws \<le> supplyCOP v" "VibraniumAvailable wb + VibraniumLocked ws \<le> supplyVIB v"
    using nn assms(2,3) by (simp_all add: supplyCOP_def supplyVIB_def)
qed

lemma ledger_wallet_ok: "ledger_ok v nC nV \<Longrightarrow> v u = Some w \<Longrightarrow> wallet_ok w"
  using le_supply [of v nC nV u w u w] ledger_balD(7-10) [of v nC nV u w]
  by (auto simp: ledger_ok_def wallet_ok_def)

text \<open>Changing one wallet and its owner's needs along with it.\<close>

lemma ledger_bal_upd:
  assumes bal: "ledger_bal v nC nV" and w: "v u = Some w"
    and locked: "COPLocked w' = nC' u" "VibraniumLocked w' = nV' u" "0 \<le> nC' u" "0 \<le> nV' u"
    and avail: "0 \<le> COPAvailable w'" "0 \<le> VibraniumAvailable w'"
    and same: "\<And>x. x \<noteq> u \<Longrightarrow> nC' x = nC x" "\<And>x. x \<noteq> u \<Longrightarrow> nV' x = nV x"
  shows "ledger_bal (v(u \<mapsto> w')) nC' nV'"
proof -
  have "0 \<le> nC' x \<and> 0 \<le> nV' x" for x
    using ledger_balD(2,3) [OF bal, of x] same [of x] locked by (cases "x = u") auto
  moreover have "case (v(u \<mapsto> w')) x of None \<Rightarrow> nC' x = 0 \<and> nV' x = 0
      | Some w \<Rightarrow> COPLocked w = nC' x \<and> VibraniumLocked w = nV' x \<and> 0 \<le> COPAvailable w \<and> 0 \<le> VibraniumAvailable w" for x
    using ledger_balD(4-8) [OF bal, of x] same [of x] locked avail
    by (cases "x = u") (auto split: option.split)
  ultimately show ?thesis using ledger_balD(1) [OF bal] by (auto simp: ledger_bal_def)
qed

subsection \<open>The operations keep the balance\<close>

lemma fits_new_cop: "fits o' \<Longrightarrow> Validate o' = None \<Longrightarrow> oFilledQuantity o' = 0 \<Longrightarrow>
  cop_of u (absO o') = (if oUserID o' = u then ReservedCOP o' else 0)
  \<and> vib_of u (absO o') = (if oUserID o' = u then ReservedVibranium o' else 0)"
  by (auto simp: cop_of_def vib_of_def ReservedVibranium_def ReservedCOP_def Validate_None_iff fits_def
      mul64_id i64_nonneg)

lemma reserved_nonneg: "fits o' \<Longrightarrow> Validate o' = None \<Longrightarrow> 0 \<le> ReservedCOP o' \<and> 0 \<le> ReservedVibranium o'"
  by (auto simp: ReservedVibranium_def ReservedCOP_def Validate_None_iff fits_def mul64_id i64_nonneg)

lemma reserve_fn_exact:
  assumes "wallet_ok w" and "fits o'" and "Validate o' = None" and "fst (reserve_fn o' w) = None"
  shows "snd (reserve_fn o' w) = w\<lparr>COPAvailable := COPAvailable w - ReservedCOP o', COPLocked := COPLocked w + ReservedCOP o',
     VibraniumAvailable := VibraniumAvailable w - ReservedVibranium o',
     VibraniumLocked := VibraniumLocked w + ReservedVibranium o'\<rparr>"
    and "ReservedCOP o' \<le> COPAvailable w" and "ReservedVibranium o' \<le> VibraniumAvailable w"
proof -
  have sd: "oSide o' = Buy \<Longrightarrow> ReservedVibranium o' = 0" "oSide o' \<noteq> Buy \<Longrightarrow> ReservedCOP o' = 0"
    by (simp_all add: ReservedVibranium_def ReservedCOP_def)
  note nn = reserved_nonneg [OF assms(2,3)]
  have le: "ReservedCOP o' \<le> COPAvailable w \<and> ReservedVibranium o' \<le> VibraniumAvailable w"
    using assms(1,4) sd nn by (auto simp: reserve_fn_def ReserveCOP_def ReserveVibranium_def wallet_ok_def split: if_splits)
  then show "ReservedCOP o' \<le> COPAvailable w" "ReservedVibranium o' \<le> VibraniumAvailable w" by auto
  show "snd (reserve_fn o' w) = w\<lparr>COPAvailable := COPAvailable w - ReservedCOP o', COPLocked := COPLocked w + ReservedCOP o',
     VibraniumAvailable := VibraniumAvailable w - ReservedVibranium o',
     VibraniumLocked := VibraniumLocked w + ReservedVibranium o'\<rparr>"
    using le sd nn assms(1) by (cases "oSide o' = Buy") (simp_all add: reserve_fn_def i64_simps)
qed

lemma ledger_reserve:
  assumes ok: "ledger_ok v nC nV" and w: "v (oUserID o') = Some w" and f: "fst (reserve_fn o' w) = None"
    and o': "Validate o' = None" "fits o'" "oFilledQuantity o' = 0"
  shows "ledger_ok (v(oUserID o' \<mapsto> snd (reserve_fn o' w)))
      (\<lambda>u. nC u + cop_of u (absO o')) (\<lambda>u. nV u + vib_of u (absO o'))"
    and "supplyCOP (v(oUserID o' \<mapsto> snd (reserve_fn o' w))) = supplyCOP v"
    and "supplyVIB (v(oUserID o' \<mapsto> snd (reserve_fn o' w))) = supplyVIB v"
    and "holdings (v(oUserID o' \<mapsto> snd (reserve_fn o' w))) = holdings v"
proof -
  have bal: "ledger_bal v nC nV" using ok by (simp add: ledger_ok_def)
  note D = ledger_balD [OF bal]
  note e = reserve_fn_exact [OF ledger_wallet_ok [OF ok w] o'(2,1) f] and nn = reserved_nonneg [OF o'(2,1)]
  have sup: "supplyCOP (v(oUserID o' \<mapsto> snd (reserve_fn o' w))) = supplyCOP v"
    "supplyVIB (v(oUserID o' \<mapsto> snd (reserve_fn o' w))) = supplyVIB v"
    unfolding supply_upd [OF D(1) w] e(1) by simp_all
  then show "supplyCOP (v(oUserID o' \<mapsto> snd (reserve_fn o' w))) = supplyCOP v"
    "supplyVIB (v(oUserID o' \<mapsto> snd (reserve_fn o' w))) = supplyVIB v" .
  have "ledger_bal (v(oUserID o' \<mapsto> snd (reserve_fn o' w)))
      (\<lambda>u. nC u + cop_of u (absO o')) (\<lambda>u. nV u + vib_of u (absO o'))"
    using D(2,3) [of "oUserID o'"] D(5,6) [OF w] e(2,3) nn
    by (intro ledger_bal_upd [OF bal w]) (simp_all add: e(1) fits_new_cop [OF o'(2,1,3)])
  with ok sup show "ledger_ok (v(oUserID o' \<mapsto> snd (reserve_fn o' w)))
      (\<lambda>u. nC u + cop_of u (absO o')) (\<lambda>u. nV u + vib_of u (absO o'))"
    by (simp add: ledger_ok_def)
  show "holdings (v(oUserID o' \<mapsto> snd (reserve_fn o' w))) = holdings v"
    by (rule holdings_same [where v = v, OF w]) (simp_all add: e(1))
qed

text \<open>The two releases on one wallet; the needs of others do not change.\<close>

lemma ledger_release_COP:
  assumes ok: "ledger_ok v nC nV" and w: "v u = Some w" and a: "0 \<le> a" and nC': "nC = (\<lambda>x. nC' x + (if x = u then a else 0))"
    and nn: "0 \<le> nC' u"
  shows "fst (ReleaseCOP a w) = None" and "ledger_ok (v(u \<mapsto> snd (ReleaseCOP a w))) nC' nV"
    and "supplyCOP (v(u \<mapsto> snd (ReleaseCOP a w))) = supplyCOP v"
    and "supplyVIB (v(u \<mapsto> snd (ReleaseCOP a w))) = supplyVIB v"
    and "holdings (v(u \<mapsto> snd (ReleaseCOP a w))) = holdings v"
proof -
  have bal: "ledger_bal v nC nV" using ok by (simp add: ledger_ok_def)
  note D = ledger_balD [OF bal]
  have locked: "COPLocked w = nC' u + a" using D(5) [OF w] by (simp add: nC')
  have e: "ReleaseCOP a w = (None, w\<lparr>COPLocked := COPLocked w - a, COPAvailable := COPAvailable w + a\<rparr>)"
    using a nn locked by (intro ReleaseCOP_exact [OF ledger_wallet_ok [OF ok w]]) auto
  show "fst (ReleaseCOP a w) = None" by (simp add: e)
  show sup: "supplyCOP (v(u \<mapsto> snd (ReleaseCOP a w))) = supplyCOP v"
    "supplyVIB (v(u \<mapsto> snd (ReleaseCOP a w))) = supplyVIB v"
    unfolding supply_upd [OF D(1) w] e by simp_all
  have "ledger_bal (v(u \<mapsto> snd (ReleaseCOP a w))) nC' nV"
    using D(3) [of u] D(6,7,8) [OF w] locked nn a
    by (intro ledger_bal_upd [OF bal w]) (simp_all add: e nC')
  with ok sup show "ledger_ok (v(u \<mapsto> snd (ReleaseCOP a w))) nC' nV" by (simp add: ledger_ok_def)
  show "holdings (v(u \<mapsto> snd (ReleaseCOP a w))) = holdings v" by (rule holdings_same [where v = v, OF w]) (simp_all add: e)
qed

lemma ledger_release_VIB:
  assumes ok: "ledger_ok v nC nV" and w: "v u = Some w" and a: "0 \<le> a" and nV': "nV = (\<lambda>x. nV' x + (if x = u then a else 0))"
    and nn: "0 \<le> nV' u"
  shows "fst (ReleaseVibranium a w) = None" and "ledger_ok (v(u \<mapsto> snd (ReleaseVibranium a w))) nC nV'"
    and "supplyCOP (v(u \<mapsto> snd (ReleaseVibranium a w))) = supplyCOP v"
    and "supplyVIB (v(u \<mapsto> snd (ReleaseVibranium a w))) = supplyVIB v"
    and "holdings (v(u \<mapsto> snd (ReleaseVibranium a w))) = holdings v"
proof -
  have bal: "ledger_bal v nC nV" using ok by (simp add: ledger_ok_def)
  note D = ledger_balD [OF bal]
  have locked: "VibraniumLocked w = nV' u + a" using D(6) [OF w] by (simp add: nV')
  have e: "ReleaseVibranium a w = (None, w\<lparr>VibraniumLocked := VibraniumLocked w - a, VibraniumAvailable := VibraniumAvailable w + a\<rparr>)"
    using a nn locked by (intro ReleaseVibranium_exact [OF ledger_wallet_ok [OF ok w]]) auto
  show "fst (ReleaseVibranium a w) = None" by (simp add: e)
  show sup: "supplyCOP (v(u \<mapsto> snd (ReleaseVibranium a w))) = supplyCOP v"
    "supplyVIB (v(u \<mapsto> snd (ReleaseVibranium a w))) = supplyVIB v"
    unfolding supply_upd [OF D(1) w] e by simp_all
  have "ledger_bal (v(u \<mapsto> snd (ReleaseVibranium a w))) nC nV'"
    using D(2) [of u] D(5,7,8) [OF w] locked nn a
    by (intro ledger_bal_upd [OF bal w]) (simp_all add: e nV')
  with ok sup show "ledger_ok (v(u \<mapsto> snd (ReleaseVibranium a w))) nC nV'" by (simp add: ledger_ok_def)
  show "holdings (v(u \<mapsto> snd (ReleaseVibranium a w))) = holdings v" by (rule holdings_same [where v = v, OF w]) (simp_all add: e)
qed

lemma release_fn_cases:
  "Validate o' = None \<Longrightarrow> release_fn o' = (if oSide o' = Buy then ReleaseCOP (ReservedCOP o') else ReleaseVibranium (ReservedVibranium o'))"
  by (auto simp: release_fn_def)

lemma ledger_release:
  assumes ok: "ledger_ok v (\<lambda>u. nC u + cop_of u (absO o')) (\<lambda>u. nV u + vib_of u (absO o'))"
    and w: "v (oUserID o') = Some w" and nn: "\<And>u. 0 \<le> nC u" "\<And>u. 0 \<le> nV u"
    and o': "Validate o' = None" "fits o'" "oFilledQuantity o' = 0"
  shows "fst (release_fn o' w) = None" and "ledger_ok (v(oUserID o' \<mapsto> snd (release_fn o' w))) nC nV"
    and "supplyCOP (v(oUserID o' \<mapsto> snd (release_fn o' w))) = supplyCOP v"
    and "supplyVIB (v(oUserID o' \<mapsto> snd (release_fn o' w))) = supplyVIB v"
    and "holdings (v(oUserID o' \<mapsto> snd (release_fn o' w))) = holdings v"
proof -
  note c = fits_new_cop [OF o'(2,1,3)] and r = reserved_nonneg [OF o'(2,1)]
  let ?g = "fst (release_fn o' w) = None \<and> ledger_ok (v(oUserID o' \<mapsto> snd (release_fn o' w))) nC nV
    \<and> supplyCOP (v(oUserID o' \<mapsto> snd (release_fn o' w))) = supplyCOP v
    \<and> supplyVIB (v(oUserID o' \<mapsto> snd (release_fn o' w))) = supplyVIB v
    \<and> holdings (v(oUserID o' \<mapsto> snd (release_fn o' w))) = holdings v"
  have ?g
  proof (cases "oSide o' = Buy")
    case True
    then have V: "ReservedVibranium o' = 0" by (simp add: ReservedVibranium_def)
    then have ok': "ledger_ok v (\<lambda>u. nC u + (if u = oUserID o' then ReservedCOP o' else 0)) nV"
      using ok by (simp add: c eq_commute [of "oUserID o'"] cong: if_cong)
    from ledger_release_COP [OF ok' w _ refl nn(1)] r True show ?thesis by (simp add: release_fn_cases [OF o'(1)])
  next
    case False
    then have C: "ReservedCOP o' = 0" by (simp add: ReservedCOP_def)
    then have ok': "ledger_ok v nC (\<lambda>u. nV u + (if u = oUserID o' then ReservedVibranium o' else 0))"
      using ok by (simp add: c eq_commute [of "oUserID o'"] cong: if_cong)
    from ledger_release_VIB [OF ok' w _ refl nn(2)] r False show ?thesis by (simp add: release_fn_cases [OF o'(1)])
  qed
  then show "fst (release_fn o' w) = None" "ledger_ok (v(oUserID o' \<mapsto> snd (release_fn o' w))) nC nV"
    "supplyCOP (v(oUserID o' \<mapsto> snd (release_fn o' w))) = supplyCOP v"
    "supplyVIB (v(oUserID o' \<mapsto> snd (release_fn o' w))) = supplyVIB v"
    "holdings (v(oUserID o' \<mapsto> snd (release_fn o' w))) = holdings v" by auto
qed

subsection \<open>A trade\<close>

definition pendCOP :: "string \<Rightarrow> aevent \<Rightarrow> int" where
  "pendCOP u ev = (case ev of ATrade b s p q \<Rightarrow> if b = u then p * q else 0
     | AUpdate x rc rv \<Rightarrow> if aUser x = u then rc else 0)"

definition pendVIB :: "string \<Rightarrow> aevent \<Rightarrow> int" where
  "pendVIB u ev = (case ev of ATrade b s p q \<Rightarrow> if s = u then q else 0
     | AUpdate x rc rv \<Rightarrow> if aUser x = u then rv else 0)"

text \<open>
  Both legs of a trade of \<open>n\<close> COP for \<open>q\<close> Vibranium succeed, and the supply is the same
  after the second. The two wallets may be one.
\<close>

lemma SettleSell_exact':
  "0 \<le> v \<Longrightarrow> 0 \<le> r \<Longrightarrow> v \<le> VibraniumLocked w \<Longrightarrow> VibraniumLocked w \<le> max_i64 \<Longrightarrow> 0 \<le> COPAvailable w
   \<Longrightarrow> COPAvailable w + r \<le> max_i64 \<Longrightarrow>
   SettleSell v r w = (None, w\<lparr>VibraniumLocked := VibraniumLocked w - v, COPAvailable := COPAvailable w + r\<rparr>)"
  by (simp add: SettleSell_def sub64_id add64_id i64_nonneg)

lemma ledger_trade:
  assumes ok: "ledger_ok v (\<lambda>u. nC u + (if u = b then n else 0)) (\<lambda>u. nV u + (if u = s then q else 0))"
    and nn: "\<And>u. 0 \<le> nC u" "\<And>u. 0 \<le> nV u" and n: "0 < n" "0 < q"
  shows "\<exists>wb wb' ws ws'. v b = Some wb \<and> SettleBuy n q wb = (None, wb')
    \<and> (v(b \<mapsto> wb')) s = Some ws \<and> SettleSell q n ws = (None, ws')
    \<and> ledger_ok (v(b \<mapsto> wb', s \<mapsto> ws')) nC nV
    \<and> supplyCOP (v(b \<mapsto> wb', s \<mapsto> ws')) = supplyCOP v \<and> supplyVIB (v(b \<mapsto> wb', s \<mapsto> ws')) = supplyVIB v
    \<and> holdings (v(b \<mapsto> wb', s \<mapsto> ws')) = pay b s n q (holdings v) \<and> wallet_nonneg wb' \<and> wallet_nonneg ws'"
proof -
  let ?nC = "\<lambda>u. nC u + (if u = b then n else 0)" and ?nV = "\<lambda>u. nV u + (if u = s then q else 0)"
  have bal: "ledger_bal v ?nC ?nV" and max: "supplyCOP v \<le> max_i64" "supplyVIB v \<le> max_i64"
    using ok by (auto simp: ledger_ok_def)
  note D = ledger_balD [OF bal]
  obtain wb where wb: "v b = Some wb"
    using ledger_bal_has_wallet [OF bal, of b] nn(1) [of b] n by auto
  obtain ws0 where ws0: "v s = Some ws0"
    using ledger_bal_has_wallet [OF bal, of s] nn(2) [of s] n by auto
  have L: "COPLocked wb = nC b + n" "VibraniumLocked ws0 = nV s + q"
    using D(5) [OF wb] D(6) [OF ws0] by simp_all
  have room: "VibraniumAvailable wb + q \<le> max_i64"
    using le_supply(2) [OF bal wb ws0] max L nn(2) [of s] by linarith
  let ?wb' = "wb\<lparr>COPLocked := COPLocked wb - n, VibraniumAvailable := VibraniumAvailable wb + q\<rparr>"
  have buy: "SettleBuy n q wb = (None, ?wb')"
    using n L nn(1) [of b] room by (intro SettleBuy_exact [OF ledger_wallet_ok [OF ok wb]]) auto
  let ?v1 = "v(b \<mapsto> ?wb')"
  have bal1: "ledger_bal ?v1 nC ?nV"
    using n nn(1) [of b] D(3) [of b] D(6,7,8) [OF wb] L by (intro ledger_bal_upd [OF bal wb]) simp_all
  note D1 = ledger_balD [OF bal1]
  obtain ws where ws: "?v1 s = Some ws" using ws0 by (cases "s = b") auto
  have L1: "VibraniumLocked ws = nV s + q" using D1(6) [OF ws] by simp
  have "VibraniumLocked ws = VibraniumLocked ws0" using L1 L by simp
  then have vmax: "VibraniumLocked ws \<le> max_i64"
    using ledger_wallet_ok [OF ok ws0] by (auto simp: wallet_ok_def)
  have sup1: "supplyCOP ?v1 = supplyCOP v - n" "supplyVIB ?v1 = supplyVIB v + q"
    unfolding supply_upd [OF D(1) wb] by simp_all
  have room1: "COPAvailable ws + n \<le> max_i64"
    using le_supply(1) [OF bal1 ws ws] sup1 max D1(9) [OF ws] by linarith
  let ?ws' = "ws\<lparr>VibraniumLocked := VibraniumLocked ws - q, COPAvailable := COPAvailable ws + n\<rparr>"
  have sell: "SettleSell q n ws = (None, ?ws')"
    using n L1 nn(2) [of s] vmax room1 D1(7) [OF ws] by (intro SettleSell_exact') auto
  let ?v2 = "?v1(s \<mapsto> ?ws')"
  have bal2: "ledger_bal ?v2 nC nV"
    using n nn(2) [of s] D1(2) [of s] D1(5,7,8) [OF ws] L1 by (intro ledger_bal_upd [OF bal1 ws]) simp_all
  have sup2: "supplyCOP ?v2 = supplyCOP v" "supplyVIB ?v2 = supplyVIB v"
    unfolding supply_upd [OF D1(1) ws] sup1 by simp_all
  from bal2 max sup2 have "ledger_ok ?v2 nC nV" by (simp add: ledger_ok_def)
  moreover have "holdings ?v2 = pay b s n q (holdings v)"
    using wb ws0 ws by (cases "s = b") (auto simp: fun_eq_iff holdings_def pay_def option.map_id)
  moreover have "wallet_nonneg ?wb'" "wallet_nonneg ?ws'"
    using ledger_nonneg [OF bal1, of b] ledger_nonneg [OF bal2, of s] by simp_all
  ultimately show ?thesis using wb buy ws sell sup2 by blast
qed

end
