(* ===== verification/Settlement.thy ===== *)
theory Settlement
  imports Memstore
begin

section \<open>Settlement: the only component that moves settled money\<close>

text \<open>
  \<open>internal/core/service/settlement.go\<close>. The service is a record of its ports, the states
  behind them are \<open>stores\<close>, together with the calls on \<open>Metrics\<close> and the lines of the
  logger. \<open>handle\<close> is the body of the loop of \<open>Run\<close>: journal first, then \<open>apply\<close>. The time
  is the reading of \<open>s.now\<close>; the source reads it only for an event with a time stamp.
\<close>

datatype log_line =
    LogJournalUnavailable string goerr
  | LogDuplicate string
  | LogUpsertFailed string goerr
  | LogSettleBuyFailed string string goerr
  | LogSettleSellFailed string string goerr
  | LogAppendFailed string goerr
  | LogReleaseCOPFailed string string goerr
  | LogReleaseVibraniumFailed string string goerr

record ('w, 'j, 't, 'o) Settlement =
  spJournal :: "'j EventJournal"
  spWallets :: "'w WalletRepository"
  spTrades :: "'t TradeRepository"
  spOrders :: "'o OrderRepository"

definition NewSettlement :: "'j EventJournal \<Rightarrow> 'w WalletRepository \<Rightarrow> 't TradeRepository \<Rightarrow> 'o OrderRepository
    \<Rightarrow> ('w, 'j, 't, 'o) Settlement" where
  "NewSettlement journal wallets trades orders =
     \<lparr>spJournal = journal, spWallets = wallets, spTrades = trades, spOrders = orders\<rparr>"

record ('w, 'j, 't, 'o) stores =
  stWallets :: 'w
  stJournal :: 'j
  stTrades :: 't
  stOrders :: 'o
  stMetrics :: "metric list"
  stLog :: "log_line list"

type_synonym ('w, 'j, 't, 'o) store_op = "('w, 'j, 't, 'o) stores \<Rightarrow> ('w, 'j, 't, 'o) stores"

definition log_error :: "goerr option \<Rightarrow> (goerr \<Rightarrow> log_line) \<Rightarrow> ('w, 'j, 't, 'o) store_op" where
  "log_error err line s = (case err of None \<Rightarrow> s | Some e \<Rightarrow> s\<lparr>stLog := stLog s @ [line e]\<rparr>)"

definition update_wallet :: "('w, 'j, 't, 'o) Settlement \<Rightarrow> ctx \<Rightarrow> string \<Rightarrow> wallet_fn \<Rightarrow> (goerr \<Rightarrow> log_line)
    \<Rightarrow> ('w, 'j, 't, 'o) store_op" where
  "update_wallet S c u f line s =
     (let (err, ws) = wr_Update (spWallets S) c u f (stWallets s)
      in log_error err line (s\<lparr>stWallets := ws\<rparr>))"

definition upsert_order :: "('w, 'j, 't, 'o) Settlement \<Rightarrow> ctx \<Rightarrow> order \<Rightarrow> ('w, 'j, 't, 'o) store_op" where
  "upsert_order S c o' s =
     (let (err, os) = or_Upsert (spOrders S) c o' (stOrders s)
      in log_error err (LogUpsertFailed (oID o')) (s\<lparr>stOrders := os\<rparr>))"

definition applyTrade :: "('w, 'j, 't, 'o) Settlement \<Rightarrow> ctx \<Rightarrow> trade option \<Rightarrow> ('w, 'j, 't, 'o) store_op" where
  "applyTrade S c tr s =
     (case tr of
        None \<Rightarrow> s
      | Some t \<Rightarrow>
          (let notional = Notional t;
               s1 = update_wallet S c (tBuyerID t) (SettleBuy notional (tQuantity t))
                      (LogSettleBuyFailed (tID t) (tBuyerID t)) s;
               s2 = update_wallet S c (tSellerID t) (SettleSell (tQuantity t) notional)
                      (LogSettleSellFailed (tID t) (tSellerID t)) s1;
               (err, ts) = tr_Append (spTrades S) c t (stTrades s2);
               s3 = log_error err (LogAppendFailed (tID t)) (s2\<lparr>stTrades := ts\<rparr>)
           in s3\<lparr>stMetrics := stMetrics s3 @ [MTradeExecuted t]\<rparr>))"

definition applyOrderUpdate :: "('w, 'j, 't, 'o) Settlement \<Rightarrow> ctx \<Rightarrow> event \<Rightarrow> ('w, 'j, 't, 'o) store_op" where
  "applyOrderUpdate S c ev s =
     (case eOrder ev of
        None \<Rightarrow> s
      | Some o' \<Rightarrow>
          (let s1 = upsert_order S c o' s;
               s2 = (if eReleaseCOP ev > 0
                     then update_wallet S c (oUserID o') (ReleaseCOP (eReleaseCOP ev))
                            (LogReleaseCOPFailed (oID o') (oUserID o')) s1
                     else s1)
           in if eReleaseVibranium ev > 0
              then update_wallet S c (oUserID o') (ReleaseVibranium (eReleaseVibranium ev))
                     (LogReleaseVibraniumFailed (oID o') (oUserID o')) s2
              else s2))"

definition apply_event :: "('w, 'j, 't, 'o) Settlement \<Rightarrow> ctx \<Rightarrow> event \<Rightarrow> ('w, 'j, 't, 'o) store_op" where
  "apply_event S c ev s =
     (case eType ev of
        EventTrade \<Rightarrow> applyTrade S c (eTrade ev) s
      | EventOrderUpdated \<Rightarrow> applyOrderUpdate S c ev s
      | EventOrderAccepted \<Rightarrow> (case eOrder ev of None \<Rightarrow> s | Some o' \<Rightarrow> upsert_order S c o' s))"

definition handle :: "('w, 'j, 't, 'o) Settlement \<Rightarrow> ctx \<Rightarrow> time \<Rightarrow> event \<Rightarrow> ('w, 'j, 't, 'o) store_op" where
  "handle S c now ev s =
     (let (r, j) = ej_MarkProcessed (spJournal S) c (eID ev) (stJournal s); s1 = s\<lparr>stJournal := j\<rparr>
      in case r of
           Inl err \<Rightarrow> s1\<lparr>stLog := stLog s1 @ [LogJournalUnavailable (eID ev) err],
                        stMetrics := stMetrics s1 @ [MSettlementApplied (eType ev) 0 (Some err)]\<rparr>
         | Inr fresh \<Rightarrow>
             if \<not> fresh then s1\<lparr>stLog := stLog s1 @ [LogDuplicate (eID ev)]\<rparr>
             else (let s2 = apply_event S c ev s1;
                       lag = (if eAt ev \<noteq> 0 then time_Sub now (eAt ev) else 0)
                   in s2\<lparr>stMetrics := stMetrics s2 @ [MSettlementApplied (eType ev) lag None]\<rparr>))"

text \<open>\<open>Run\<close> on the events received before the stream closes, each with its clock reading.\<close>

fun run_settlement :: "('w, 'j, 't, 'o) Settlement \<Rightarrow> ctx \<Rightarrow> (time \<times> event) list \<Rightarrow> ('w, 'j, 't, 'o) store_op" where
  "run_settlement S c [] s = s"
| "run_settlement S c ((now, ev) # evs) s = run_settlement S c evs (handle S c now ev s)"

text \<open>\<open>Run\<close> with its \<open>select\<close>: the context each event is handled with is that of the moment.\<close>

fun settlement_Run :: "('w, 'j, 't, 'o) Settlement \<Rightarrow> (ctx \<times> time \<times> event) choice list \<Rightarrow> ('w, 'j, 't, 'o) store_op" where
  "settlement_Run S (Received (c, now, ev) # cs) s = settlement_Run S cs (handle S c now ev s)"
| "settlement_Run S cs s = s"

lemma settlement_Run_live:
  "received cs = map (\<lambda>(now, ev). (c, now, ev)) evs \<Longrightarrow> settlement_Run S cs s = run_settlement S c evs s"
  by (induction S cs s arbitrary: evs rule: settlement_Run.induct) auto

subsection \<open>What each step leaves alone\<close>

lemma log_error_fields [simp]:
  "stWallets (log_error err line s) = stWallets s" "stJournal (log_error err line s) = stJournal s"
  "stTrades (log_error err line s) = stTrades s" "stOrders (log_error err line s) = stOrders s"
  "stMetrics (log_error err line s) = stMetrics s"
  by (simp_all add: log_error_def split: option.split)

lemma update_wallet_fields [simp]:
  "stWallets (update_wallet S c u f line s) = snd (wr_Update (spWallets S) c u f (stWallets s))"
  "stJournal (update_wallet S c u f line s) = stJournal s" "stTrades (update_wallet S c u f line s) = stTrades s"
  "stOrders (update_wallet S c u f line s) = stOrders s" "stMetrics (update_wallet S c u f line s) = stMetrics s"
  by (simp_all add: update_wallet_def Let_def split: prod.split)

lemma upsert_order_fields [simp]:
  "stWallets (upsert_order S c o' s) = stWallets s" "stJournal (upsert_order S c o' s) = stJournal s"
  "stTrades (upsert_order S c o' s) = stTrades s" "stMetrics (upsert_order S c o' s) = stMetrics s"
  "stOrders (upsert_order S c o' s) = snd (or_Upsert (spOrders S) c o' (stOrders s))"
  by (simp_all add: upsert_order_def Let_def split: prod.split)

lemma applyTrade_fields [simp]:
  "stJournal (applyTrade S c tr s) = stJournal s" "stOrders (applyTrade S c tr s) = stOrders s"
  "stTrades (applyTrade S c (Some t) s) = snd (tr_Append (spTrades S) c t (stTrades s))"
  by (simp_all add: applyTrade_def Let_def split: option.split prod.split)

lemma applyOrderUpdate_fields [simp]:
  "stJournal (applyOrderUpdate S c ev s) = stJournal s" "stTrades (applyOrderUpdate S c ev s) = stTrades s"
  by (simp_all add: applyOrderUpdate_def Let_def split: option.split)

lemma apply_event_journal [simp]: "stJournal (apply_event S c ev s) = stJournal s"
  by (simp add: apply_event_def split: event_type.split option.split)

text \<open>Applying an event neither reads nor writes the journal.\<close>

lemma log_error_with_journal: "log_error err line (s\<lparr>stJournal := j\<rparr>) = (log_error err line s)\<lparr>stJournal := j\<rparr>"
  by (simp add: log_error_def split: option.split)

lemma update_wallet_with_journal:
  "update_wallet S c u f line (s\<lparr>stJournal := j\<rparr>) = (update_wallet S c u f line s)\<lparr>stJournal := j\<rparr>"
  by (simp add: update_wallet_def Let_def log_error_def split: prod.split option.split)

lemma upsert_order_with_journal: "upsert_order S c x (s\<lparr>stJournal := j\<rparr>) = (upsert_order S c x s)\<lparr>stJournal := j\<rparr>"
  by (simp add: upsert_order_def Let_def log_error_def split: prod.split option.split)

lemma applyTrade_with_journal: "applyTrade S c tr (s\<lparr>stJournal := j\<rparr>) = (applyTrade S c tr s)\<lparr>stJournal := j\<rparr>"
  by (simp add: applyTrade_def Let_def update_wallet_with_journal log_error_def split: prod.split option.split)

lemma applyOrderUpdate_with_journal:
  "applyOrderUpdate S c ev (s\<lparr>stJournal := j\<rparr>) = (applyOrderUpdate S c ev s)\<lparr>stJournal := j\<rparr>"
  by (simp add: applyOrderUpdate_def Let_def update_wallet_with_journal upsert_order_with_journal split: option.split)

lemma apply_event_with_journal: "apply_event S c ev (s\<lparr>stJournal := j\<rparr>) = (apply_event S c ev s)\<lparr>stJournal := j\<rparr>"
  by (simp add: apply_event_def applyTrade_with_journal applyOrderUpdate_with_journal upsert_order_with_journal
      split: event_type.split option.split)

subsection \<open>Redelivery\<close>

context event_journal
begin

text \<open>An event that was applied before moves nothing: no wallet, trade or order changes.\<close>

lemma handle_duplicate:
  assumes "spJournal S = journal" and "eID ev \<in> processed (stJournal s)"
  shows "stWallets (handle S c now ev s) = stWallets s" and "stTrades (handle S c now ev s) = stTrades s"
    and "stOrders (handle S c now ev s) = stOrders s"
proof -
  obtain r j where r: "ej_MarkProcessed journal c (eID ev) (stJournal s) = (r, j)" by fastforce
  then have "r \<noteq> Inr True" using marked_is_never_new [OF assms(2), of c] by auto
  then have "(\<exists>e. r = Inl e) \<or> r = Inr False" by (cases r) auto
  then show "stWallets (handle S c now ev s) = stWallets s" "stTrades (handle S c now ev s) = stTrades s"
    "stOrders (handle S c now ev s) = stOrders s"
    using assms(1) r by (auto simp: handle_def Let_def split: sum.split)
qed

lemma handle_processed_mono:
  assumes "spJournal S = journal"
  shows "processed (stJournal s) \<subseteq> processed (stJournal (handle S c now ev s))"
proof -
  have "stJournal (handle S c now ev s) = snd (ej_MarkProcessed journal c (eID ev) (stJournal s))"
    by (simp add: handle_def Let_def assms split: prod.split sum.split)
  then show ?thesis using processed_mono by simp
qed

end

context reliable_journal
begin

lemma handle_new:
  assumes "spJournal S = journal" and "eID ev \<notin> processed (stJournal s)"
  shows "stWallets (handle S c now ev s) = stWallets (apply_event S c ev s)"
    and "processed (stJournal (handle S c now ev s)) = insert (eID ev) (processed (stJournal s))"
proof -
  obtain r j where r: "ej_MarkProcessed journal c (eID ev) (stJournal s) = (r, j)" by fastforce
  have "r = Inr True" "processed j = insert (eID ev) (processed (stJournal s))"
    using mark_total [of c "eID ev" "stJournal s"] mark_processed [of c "eID ev" "stJournal s"] r assms(2) by simp_all
  then show "stWallets (handle S c now ev s) = stWallets (apply_event S c ev s)"
    "processed (stJournal (handle S c now ev s)) = insert (eID ev) (processed (stJournal s))"
    using assms(1) r by (auto simp: handle_def Let_def apply_event_with_journal)
qed

end
subsection \<open>A stream with redeliveries is the stream without them\<close>

text \<open>The events of a stream that are new when they arrive, given the identifiers handled before.\<close>

fun first_seen :: "string set \<Rightarrow> (time \<times> event) list \<Rightarrow> (time \<times> event) list" where
  "first_seen A [] = []"
| "first_seen A ((t, ev) # evs) =
     (if eID ev \<in> A then first_seen A evs else (t, ev) # first_seen (insert (eID ev) A) evs)"

text \<open>What settlement moves: the wallets, the trade history and the order projection.\<close>

definition moved :: "('w, 'j, 't, 'o) stores \<Rightarrow> 'w \<times> 't \<times> 'o" where
  "moved s = (stWallets s, stTrades s, stOrders s)"

lemma apply_event_moved:
  assumes "moved s = moved s'"
  shows "moved (apply_event S c ev s) = moved (apply_event S c ev s')"
proof -
  have s: "stWallets s = stWallets s'" "stTrades s = stTrades s'" "stOrders s = stOrders s'"
    using assms by (simp_all add: moved_def)
  show ?thesis
  proof (cases "eType ev")
    case EventTrade
    then show ?thesis
      by (cases "eTrade ev") (simp_all add: apply_event_def moved_def applyTrade_def s Let_def split: prod.splits)
  next
    case EventOrderUpdated
    then show ?thesis
      by (cases "eOrder ev") (simp_all add: apply_event_def moved_def applyOrderUpdate_def s Let_def)
  next
    case EventOrderAccepted
    then show ?thesis by (cases "eOrder ev") (simp_all add: apply_event_def moved_def s)
  qed
qed

context reliable_journal
begin

lemma handle_moved:
  assumes "spJournal S = journal"
  shows "moved (handle S c t ev s) = (if eID ev \<in> processed (stJournal s) then moved s else moved (apply_event S c ev s))"
    and "processed (stJournal (handle S c t ev s)) = insert (eID ev) (processed (stJournal s))"
proof -
  obtain r j where r: "ej_MarkProcessed journal c (eID ev) (stJournal s) = (r, j)" by fastforce
  have f: "r = Inr (eID ev \<notin> processed (stJournal s))" "processed j = insert (eID ev) (processed (stJournal s))"
    using mark_total [of c "eID ev" "stJournal s"] mark_processed [of c "eID ev" "stJournal s"] r by simp_all
  show "moved (handle S c t ev s) = (if eID ev \<in> processed (stJournal s) then moved s else moved (apply_event S c ev s))"
    using assms r f by (simp add: handle_def apply_event_with_journal Let_def moved_def)
  show "processed (stJournal (handle S c t ev s)) = insert (eID ev) (processed (stJournal s))"
    using assms r f by (simp add: handle_def Let_def)
qed

lemma run_first_seen:
  assumes "spJournal S = journal" and "moved s = moved s'" and "processed (stJournal s) = processed (stJournal s')"
  shows "moved (run_settlement S c evs s) = moved (run_settlement S c (first_seen (processed (stJournal s)) evs) s')
    \<and> processed (stJournal (run_settlement S c evs s))
      = processed (stJournal (run_settlement S c (first_seen (processed (stJournal s)) evs) s'))"
  using assms(2,3)
proof (induction evs arbitrary: s s')
  case (Cons x evs)
  obtain t ev where x: "x = (t, ev)" by (cases x)
  note h = handle_moved [OF assms(1), of c t ev]
  show ?case
  proof (cases "eID ev \<in> processed (stJournal s)")
    case True
    then have "moved (handle S c t ev s) = moved s'" "processed (stJournal (handle S c t ev s)) = processed (stJournal s')"
      using h Cons.prems by auto
    from Cons.IH [OF this] True show ?thesis
      using h(2) [of s] by (simp add: x insert_absorb)
  next
    case False
    then have "moved (handle S c t ev s) = moved (handle S c t ev s')"
      "processed (stJournal (handle S c t ev s)) = processed (stJournal (handle S c t ev s'))"
      using h Cons.prems apply_event_moved by auto
    from Cons.IH [OF this] False show ?thesis using h(2) [of s] by (simp add: x)
  qed
qed simp

end

end
