(* ===== verification/Queries.thy ===== *)
theory Queries
  imports Memstore
begin

section \<open>Wallet and market queries, and reconciliation\<close>

text \<open>
  \<open>internal/core/service/query.go\<close> and \<open>reconciliation.go\<close>: the use cases that only read,
  the seeding of wallets, and the job that watches the money supply. Each takes the port it
  uses and the state behind it.
\<close>

subsection \<open>MarketData\<close>

definition MarketData_Book :: "('e, 'b) MatchingEngine \<Rightarrow> ctx \<Rightarrow> int \<Rightarrow> 'e \<Rightarrow> ((goerr + 'b) \<times> 'e) option" where
  "MarketData_Book eng c depth s = me_Depth eng c depth s"

definition MarketData_RecentTrades :: "'t TradeRepository \<Rightarrow> ctx \<Rightarrow> int \<Rightarrow> 't \<Rightarrow> (goerr + trade list) \<times> 't" where
  "MarketData_RecentTrades repo c limit s = tr_Recent repo c limit s"

definition MarketData_TradeCount :: "'t TradeRepository \<Rightarrow> ctx \<Rightarrow> 't \<Rightarrow> (goerr + int) \<times> 't" where
  "MarketData_TradeCount repo c s = tr_Count repo c s"

subsection \<open>Wallets\<close>

definition Wallets_Seed :: "'w WalletRepository \<Rightarrow> ctx \<Rightarrow> string \<Rightarrow> int \<Rightarrow> int \<Rightarrow> 'w \<Rightarrow> (goerr + wallet) \<times> 'w" where
  "Wallets_Seed repo c userID cop vibranium s =
     (if userID = [] then (Inl ErrMissingUser, s)
      else if cop < 0 \<or> vibranium < 0 then (Inl ErrInvalidBalance, s)
      else (let w = \<lparr>wUserID = userID, COPAvailable = cop, COPLocked = 0,
                     VibraniumAvailable = vibranium, VibraniumLocked = 0\<rparr>;
                (err, s1) = wr_Upsert repo c w s
            in case err of Some e \<Rightarrow> (Inl e, s1) | None \<Rightarrow> (Inr w, s1)))"

definition Wallets_Get :: "'w WalletRepository \<Rightarrow> ctx \<Rightarrow> string \<Rightarrow> 'w \<Rightarrow> (goerr + wallet) \<times> 'w" where
  "Wallets_Get repo c userID s = wr_Get repo c userID s"

definition Wallets_List :: "'w WalletRepository \<Rightarrow> ctx \<Rightarrow> 'w \<Rightarrow> (goerr + wallet list) \<times> 'w" where
  "Wallets_List repo c s = wr_List repo c s"

context wallet_ledger
begin

text \<open>Seeding replaces the wallet: what was locked in it is gone.\<close>

lemma Seed_view:
  assumes "Wallets_Seed repo c u cop vib s = (r, s')"
  shows "r = Inr w \<Longrightarrow> view s' = (view s)(u \<mapsto> w) \<and> COPLocked w = 0 \<and> VibraniumLocked w = 0
      \<and> COPAvailable w = cop \<and> VibraniumAvailable w = vib \<and> wUserID w = u \<and> 0 \<le> cop \<and> 0 \<le> vib"
    and "r = Inl e \<Longrightarrow> view s' = view s"
  using assms
  by (auto simp: Wallets_Seed_def Let_def dest: upsert_applied upsert_failed split: if_splits prod.splits option.splits)

end

context reliable_wallet_ledger
begin

lemma Seed_works:
  assumes "u \<noteq> []" and "0 \<le> cop" and "0 \<le> vib"
  obtains s' where "Wallets_Seed repo c u cop vib s = (Inr \<lparr>wUserID = u, COPAvailable = cop, COPLocked = 0,
    VibraniumAvailable = vib, VibraniumLocked = 0\<rparr>, s')"
proof -
  let ?w = "\<lparr>wUserID = u, COPAvailable = cop, COPLocked = 0, VibraniumAvailable = vib, VibraniumLocked = 0\<rparr>"
  obtain s' where "wr_Upsert repo c ?w s = (None, s')" using upsert_works [of c ?w s] by (metis prod.collapse)
  with assms show ?thesis by (intro that [of s']) (simp add: Wallets_Seed_def)
qed

end

subsection \<open>Reconciliation\<close>

datatype recon_line =
    LogCannotRead goerr
  | LogBaseline nat int int
  | LogSupplyChanged int int int int

record Reconciliation =
  baselineCOP :: int
  baselineVib :: int
  haveBase :: bool
  rcMetrics :: "metric list"
  rcLog :: "recon_line list"

definition NewReconciliation :: Reconciliation where
  "NewReconciliation = \<lparr>baselineCOP = 0, baselineVib = 0, haveBase = False, rcMetrics = [], rcLog = []\<rparr>"

definition totals :: "wallet list \<Rightarrow> int \<times> int" where
  "totals ws = foldl (\<lambda>(cop, vib) w. (add64 cop (TotalCOP w), add64 vib (TotalVibranium w))) (0, 0) ws"

definition sample :: "'w WalletRepository \<Rightarrow> ctx \<Rightarrow> 'w \<Rightarrow> Reconciliation \<Rightarrow> 'w \<times> Reconciliation" where
  "sample repo c s r =
     (let (res, s1) = wr_List repo c s
      in case res of
           Inl err \<Rightarrow> (s1, r\<lparr>rcLog := rcLog r @ [LogCannotRead err]\<rparr>)
         | Inr wallets \<Rightarrow>
             (let (cop, vib) = totals wallets;
                  r1 = r\<lparr>rcMetrics := rcMetrics r @ [MMoneySupply cop vib]\<rparr>
              in (s1,
                  if \<not> haveBase r1 then
                    r1\<lparr>baselineCOP := cop, baselineVib := vib, haveBase := True,
                       rcLog := rcLog r1 @ [LogBaseline (length wallets) cop vib]\<rparr>
                  else if cop \<noteq> baselineCOP r1 \<or> vib \<noteq> baselineVib r1 then
                    r1\<lparr>rcLog := rcLog r1 @ [LogSupplyChanged (baselineCOP r1) cop (baselineVib r1) vib],
                       baselineCOP := cop, baselineVib := vib\<rparr>
                  else r1)))"

text \<open>
  \<open>Run\<close>: a tick of the ticker comes with what the others did to the store since the last one.
\<close>

fun Reconciliation_loop :: "'w WalletRepository \<Rightarrow> (ctx \<times> ('w \<Rightarrow> 'w)) choice list \<Rightarrow> 'w \<times> Reconciliation \<Rightarrow> 'w \<times> Reconciliation" where
  "Reconciliation_loop repo (Received (c, others) # ticks) (s, r) = Reconciliation_loop repo ticks (sample repo c (others s) r)"
| "Reconciliation_loop repo ticks x = x"

definition Reconciliation_Run :: "'w WalletRepository \<Rightarrow> int \<Rightarrow> (ctx \<times> ('w \<Rightarrow> 'w)) choice list \<Rightarrow> 'w \<times> Reconciliation
    \<Rightarrow> 'w \<times> Reconciliation" where
  "Reconciliation_Run repo interval ticks x = (if interval \<le> 0 then x else Reconciliation_loop repo ticks x)"

lemma totals_wrap:
  "totals ws = (wrap64 (\<Sum>w\<leftarrow>ws. TotalCOP w), wrap64 (\<Sum>w\<leftarrow>ws. TotalVibranium w))"
proof -
  have "foldl (\<lambda>(cop, vib) w. (add64 cop (TotalCOP w), add64 vib (TotalVibranium w))) (wrap64 a, wrap64 b) ws
      = (wrap64 (a + (\<Sum>w\<leftarrow>ws. TotalCOP w)), wrap64 (b + (\<Sum>w\<leftarrow>ws. TotalVibranium w)))" for a b
    by (induction ws arbitrary: a b) (simp_all add: add64_wrap add.assoc)
  from this [of 0 0] show ?thesis by (simp add: totals_def wrap64_id)
qed

text \<open>Once there is a baseline, a sample reports a change exactly when the totals moved.\<close>

lemma sample_reports:
  assumes "haveBase r" and "wr_List repo c s = (Inr ws, s1)"
  shows "rcLog (snd (sample repo c s r)) = rcLog r \<longleftrightarrow> totals ws = (baselineCOP r, baselineVib r)"
  using assms by (auto simp: sample_def Let_def split: prod.split)

end
