(* ===== verification/System.thy ===== *)
theory System
  imports Collateral Settlement Queries
begin

section \<open>The running system: requests, engine and settlement interleaved\<close>

text \<open>
  The service as \<open>cmd/orderbook/main.go\<close> wires it with the in-memory adapters of
  \<open>bootstrap.go\<close>: request goroutines, the engine's goroutine and the settlement goroutine.
  A step of \<open>sys_step\<close> is what one of them does between two points where others can run: a
  method of a store (it holds the store's lock), the hand-over of a command to the engine's
  channel, one command of the engine, one event of settlement.

  The steps hold the assumptions under which the money adds up, one per gap that the README
  names or the source leaves open: the value of an order fits an \<open>int64\<close>
  (\<open>fits\<close>), random identifiers do not collide, the sequence number does not overflow, a
  wallet is seeded only while nothing of it is locked and the money supply fits an \<open>int64\<close>,
  and a request whose context ends after the command was handed over waits for the reply
  (\<open>Abandoned\<close> calls are left out; what they do to the books is proved apart).
\<close>

record system =
  sySymbol :: string
  syStores :: "(WalletStore, Journal, TradeStore, OrderStore) stores"
  syRequests :: "metric list"
  syEngine :: engine
  syLog :: Log
  syIn :: "command list"
  sySubmitting :: "order list"
  syUsed :: "string set"

text \<open>
  \<open>sySubmitting\<close> are the requests between \<open>accept\<close> and the hand-over; \<open>syIn\<close> is the
  engine's channel; \<open>syUsed\<close>, a ghost, the identifiers given out so far; \<open>syRequests\<close> the
  metrics of the requests.
\<close>

definition mem_trading :: "string \<Rightarrow> (WalletStore, Log engine_adapter, OrderStore, BookSnapshot) Trading" where
  "mem_trading symbol = NewTrading symbol (engine_port mem_log) mem_wallets mem_orders"

definition mem_settlement :: "(WalletStore, Journal, TradeStore, OrderStore) Settlement" where
  "mem_settlement = NewSettlement mem_journal mem_wallets mem_trades mem_orders"

lemma mem_trading_unfold:
  "mem_trading symbol = \<lparr>tdSymbol = symbol, tdEngine = engine_port mem_log, tdWallets = mem_wallets, tdOrders = mem_orders\<rparr>"
  by (simp add: mem_trading_def NewTrading_def)

lemma mem_settlement_unfold:
  "mem_settlement = \<lparr>spJournal = mem_journal, spWallets = mem_wallets, spTrades = mem_trades, spOrders = mem_orders\<rparr>"
  by (simp add: mem_settlement_def NewSettlement_def)

text \<open>The state as a request sees it, and the state after the request changed it.\<close>

definition request_view :: "system \<Rightarrow> (WalletStore, Log engine_adapter, OrderStore) trading_state" where
  "request_view st = \<lparr>tsWallets = stWallets (syStores st),
     tsEngine = \<lparr>ea_engine = syEngine st, ea_log = syLog st, ea_fate = (\<lambda>_. Replied), ea_calls = 0\<rparr>,
     tsOrders = stOrders (syStores st), tsMetrics = syRequests st\<rparr>"

definition after_request :: "(WalletStore, Log engine_adapter, OrderStore) trading_state \<Rightarrow> system \<Rightarrow> system" where
  "after_request ts st = st\<lparr>syStores := (syStores st)\<lparr>stWallets := tsWallets ts\<rparr>, syRequests := tsMetrics ts\<rparr>"

definition init_stores :: "(WalletStore, Journal, TradeStore, OrderStore) stores" where
  "init_stores = \<lparr>stWallets = NewWalletStore, stJournal = NewJournal, stTrades = NewTradeStore,
     stOrders = NewOrderStore, stMetrics = [], stLog = []\<rparr>"

definition init_system :: "string \<Rightarrow> int \<Rightarrow> string \<Rightarrow> (nat \<Rightarrow> time) \<Rightarrow> (nat \<Rightarrow> time) \<Rightarrow> system" where
  "init_system symbol buffer producer now booknow = \<lparr>sySymbol = symbol, syStores = init_stores,
     syRequests = [], syEngine = NewEngine symbol producer now booknow, syLog = NewLog buffer,
     syIn = [], sySubmitting = [], syUsed = {}\<rparr>"

inductive sys_step :: "system \<Rightarrow> system \<Rightarrow> bool" where
  Accept: "accept (mem_trading (sySymbol st)) c bytes t cmd (request_view st) = (Inr o', ts) \<Longrightarrow>
     oID o' \<notin> syUsed st \<Longrightarrow> fits o' \<Longrightarrow>
     sys_step st ((after_request ts st)\<lparr>sySubmitting := sySubmitting st @ [o'], syUsed := insert (oID o') (syUsed st)\<rparr>)"
| Reject: "accept (mem_trading (sySymbol st)) c bytes t cmd (request_view st) = (Inl res, ts) \<Longrightarrow>
     sys_step st (after_request ts st)"
| Enqueue: "sySubmitting st = xs @ o' # ys \<Longrightarrow>
     sys_step st (st\<lparr>sySubmitting := xs @ ys, syIn := syIn st @ [cmdPlace o']\<rparr>)"
| GiveUp: "sySubmitting st = xs @ o' # ys \<Longrightarrow>
     complete (mem_trading (sySymbol st)) o' (Inl ErrContext) t0 t2 (request_view st) = (res, ts) \<Longrightarrow>
     sys_step st ((after_request ts st)\<lparr>sySubmitting := xs @ ys\<rparr>)"
| CancelRequest: "sys_step st (st\<lparr>syIn := syIn st @ [cmdCancel i]\<rparr>)"
| DepthRequest: "sys_step st (st\<lparr>syIn := syIn st @ [cmdSnapshot d]\<rparr>)"
| EngineStep: "syIn st = cmd # cmds \<Longrightarrow>
     handle_command mem_log cmd (syEngine st, syLog st) = Some (reply, e', l') \<Longrightarrow>
     eSeq (syEngine st) + int (length (lg_ch l') - length (lg_ch (syLog st))) \<le> max_i64 \<Longrightarrow>
     sys_step st (st\<lparr>syIn := cmds, syEngine := e', syLog := l'\<rparr>)"
| Settle: "Log_recv (syLog st) = Some (Some ev, l') \<Longrightarrow>
     sys_step st (st\<lparr>syLog := l', syStores := handle mem_settlement c t ev (syStores st)\<rparr>)"
| Redeliver: "eID ev \<in> set (jr_seen (stJournal (syStores st))) \<Longrightarrow>
     sys_step st (st\<lparr>syStores := handle mem_settlement c t ev (syStores st)\<rparr>)"
| Seed: "Wallets_Seed mem_wallets c u cop vib (stWallets (syStores st)) = (Inr w, ws) \<Longrightarrow>
     (\<And>w0. ws_view (stWallets (syStores st)) u = Some w0 \<Longrightarrow> COPLocked w0 = 0 \<and> VibraniumLocked w0 = 0) \<Longrightarrow>
     supplyCOP (ws_view ws) \<le> max_i64 \<Longrightarrow> supplyVIB (ws_view ws) \<le> max_i64 \<Longrightarrow>
     sys_step st (st\<lparr>syStores := (syStores st)\<lparr>stWallets := ws\<rparr>\<rparr>)"

inductive reachable :: "system \<Rightarrow> system \<Rightarrow> bool" for st0 where
  Start: "reachable st0 st0"
| Step: "reachable st0 st \<Longrightarrow> sys_step st st' \<Longrightarrow> reachable st0 st'"

subsection \<open>What every user still needs locked\<close>

primrec cmd_cop :: "string \<Rightarrow> command \<Rightarrow> int" where
  "cmd_cop u (cmdPlace o') = cop_of u (absO o')"
| "cmd_cop u (cmdCancel i) = 0"
| "cmd_cop u (cmdSnapshot d) = 0"

primrec cmd_vib :: "string \<Rightarrow> command \<Rightarrow> int" where
  "cmd_vib u (cmdPlace o') = vib_of u (absO o')"
| "cmd_vib u (cmdCancel i) = 0"
| "cmd_vib u (cmdSnapshot d) = 0"

definition book_of :: "system \<Rightarrow> abook" where
  "book_of st = absB (eBook (syEngine st))"

definition needCOP :: "system \<Rightarrow> string \<Rightarrow> int" where
  "needCOP st u = (\<Sum>o'\<leftarrow>sySubmitting st. cop_of u (absO o')) + (\<Sum>c\<leftarrow>syIn st. cmd_cop u c)
     + restingCOP u (book_of st) + (\<Sum>ev\<leftarrow>lg_ch (syLog st). pendCOP u (abs_event ev))"

definition needVIB :: "system \<Rightarrow> string \<Rightarrow> int" where
  "needVIB st u = (\<Sum>o'\<leftarrow>sySubmitting st. vib_of u (absO o')) + (\<Sum>c\<leftarrow>syIn st. cmd_vib u c)
     + restingVIB u (book_of st) + (\<Sum>ev\<leftarrow>lg_ch (syLog st). pendVIB u (abs_event ev))"

subsection \<open>The invariant\<close>

definition aevent_ok :: "aevent \<Rightarrow> bool" where
  "aevent_ok ev = (case ev of
       ATrade b s p q \<Rightarrow> 0 < p \<and> 0 < q \<and> p * q \<le> max_i64
     | AUpdate x rc rv \<Rightarrow> 0 \<le> rc \<and> 0 \<le> rv)"

text \<open>The identifiers that the engine has not given out yet.\<close>

definition future_ids :: "system \<Rightarrow> string set" where
  "future_ids st = {i. \<exists>n. eSeq (syEngine st) < n \<and> i = eProducerID (syEngine st) @ ''-'' @ itoa n}"

definition placed :: "command list \<Rightarrow> order list" where
  "placed cs = concat (map (\<lambda>c. case c of cmdPlace o' \<Rightarrow> [o'] | _ \<Rightarrow> []) cs)"

definition sys_orders :: "system \<Rightarrow> bool" where
  "sys_orders st \<longleftrightarrow>
     (let ods = sySubmitting st @ placed (syIn st)
      in (\<forall>o'\<in>set ods. valid_new o') \<and> distinct (map oID ods)
         \<and> set (map oID ods) \<inter> aids (book_of st) = {}
         \<and> set (map oID ods) \<union> aids (book_of st) \<subseteq> syUsed st)"

definition sys_events :: "system \<Rightarrow> bool" where
  "sys_events st \<longleftrightarrow>
     0 \<le> eSeq (syEngine st) \<and> \<not> lg_closed (syLog st)
     \<and> (\<forall>ev\<in>set (lg_ch (syLog st)). ev_typed ev \<and> aevent_ok (abs_event ev))
     \<and> distinct (map eID (lg_ch (syLog st)))
     \<and> set (map eID (lg_ch (syLog st))) \<inter> set (jr_seen (stJournal (syStores st))) = {}
     \<and> (set (map eID (lg_ch (syLog st))) \<union> set (jr_seen (stJournal (syStores st)))) \<inter> future_ids st = {}"

definition sys_inv :: "system \<Rightarrow> bool" where
  "sys_inv st \<longleftrightarrow> book_wf (eBook (syEngine st)) \<and> sys_orders st \<and> sys_events st
     \<and> ledger_ok (ws_view (stWallets (syStores st))) (needCOP st) (needVIB st)"

end
