(* ===== verification/Safety.thy ===== *)
theory Safety
  imports System
begin

section \<open>Safety: the invariant of the running system\<close>

text \<open>
  Every step of \<open>sys_step\<close> keeps \<open>sys_inv\<close>: the book is well formed and uncrossed, order and
  event identifiers are unique, and each wallet has locked exactly what its owner's
  requests, orders and unsettled events need. Settlement then never fails, and only seeding
  changes the money supply.
\<close>

subsection \<open>The engine's step moves needs from the book to the events\<close>

lemma pend_fills:
  "(\<Sum>ev\<leftarrow>afill_events t fs. pendCOP u ev) = spentCOP u t fs"
  "(\<Sum>ev\<leftarrow>afill_events t fs. pendVIB u ev) = deliveredVIB u t fs"
  by (induction fs) (auto simp: afill_events_def spentCOP_def deliveredVIB_def pendCOP_def pendVIB_def)

lemma abook_sides: "abook_wf B \<Longrightarrow> (\<forall>x\<in>set (aBids B). aSide x = Buy) \<and> (\<forall>x\<in>set (aAsks B). aSide x = Sell)"
  by (auto simp: abook_wf_def aside_wf_def aresting_def)

lemma aPlace_taker_user: "aPlace t B = (t', fs, rel, B') \<Longrightarrow> aUser t' = aUser t"
  by (erule aPlaceE) (auto dest: amatch_taker)

lemma astep_balance:
  assumes B: "abook_wf B" and ok: "\<And>o'. c = cmdPlace o' \<Longrightarrow> valid_new o'" and st: "astep c B = (evs, B')"
  shows "cmd_cop u c + restingCOP u B = restingCOP u B' + (\<Sum>ev\<leftarrow>evs. pendCOP u ev)"
    and "cmd_vib u c + restingVIB u B = restingVIB u B' + (\<Sum>ev\<leftarrow>evs. pendVIB u ev)"
proof -
  have "(cmd_cop u c + restingCOP u B = restingCOP u B' + (\<Sum>ev\<leftarrow>evs. pendCOP u ev)) \<and>
    (cmd_vib u c + restingVIB u B = restingVIB u B' + (\<Sum>ev\<leftarrow>evs. pendVIB u ev))"
  proof (cases c)
    case (cmdPlace o')
    obtain t' fs rel where pl: "aPlace (absO o') B = (t', fs, rel, B')"
      and evs: "evs = afill_events (absO o') fs @ [AUpdate t' rel 0]"
      using st cmdPlace by (auto simp: Let_def split: prod.splits)
    have side: "aSide (absO o') = Buy \<or> aSide (absO o') = Sell"
      using ok [OF cmdPlace] by (auto simp: valid_new_def Validate_None_iff)
    note sides = abook_sides [OF B, THEN conjunct1] abook_sides [OF B, THEN conjunct2]
    note c = aPlace_collateral_COP [OF side sides pl, of u] aPlace_collateral_VIB [OF side sides pl, of u]
    have "(\<Sum>ev\<leftarrow>evs. pendCOP u ev) = spentCOP u (absO o') fs + (if oUserID o' = u then rel else 0)"
      "(\<Sum>ev\<leftarrow>evs. pendVIB u ev) = deliveredVIB u (absO o') fs"
      using aPlace_taker_user [OF pl] by (simp_all add: evs pend_fills) (simp_all add: pendCOP_def pendVIB_def)
    with c show ?thesis by (simp add: cmdPlace)
  next
    case (cmdCancel i)
    show ?thesis
    proof (cases "aCancel i B")
      case None
      with st cmdCancel show ?thesis by simp
    next
      case (Some p)
      then obtain x where x: "aCancel i B = Some (x, B')" and evs: "evs = [AUpdate x (cop_of (aUser x) x) (vib_of (aUser x) x)]"
        using st cmdCancel by (cases p) auto
      have "pendCOP u (AUpdate x (cop_of (aUser x) x) (vib_of (aUser x) x)) = cop_of u x"
        "pendVIB u (AUpdate x (cop_of (aUser x) x) (vib_of (aUser x) x)) = vib_of u x"
        by (simp_all add: pendCOP_def pendVIB_def cop_of_def vib_of_def)
      with aCancel_collateral(1,2) [OF B x, of u] show ?thesis by (simp add: cmdCancel evs)
    qed
  next
    case (cmdSnapshot d)
    with st show ?thesis by simp
  qed
  then show "cmd_cop u c + restingCOP u B = restingCOP u B' + (\<Sum>ev\<leftarrow>evs. pendCOP u ev)"
    "cmd_vib u c + restingVIB u B = restingVIB u B' + (\<Sum>ev\<leftarrow>evs. pendVIB u ev)" by auto
qed

lemma fills_ok:
  assumes m: "amatch t ms = (t', fs, ms')" and t: "anew t" and ms: "aside_wf bid ms"
  shows "\<forall>(m, q)\<in>set fs. 0 < aPrice m \<and> 0 < q \<and> aPrice m * q \<le> max_i64 \<and> acrosses t (aPrice m)"
proof -
  have pos: "0 \<le> arem t" using t by (auto simp: anew_def arem_def)
  have mem: "m \<in> set ms" if "(m, q) \<in> set fs" for m q
  proof -
    obtain k where "map fst fs = take k ms"
      using amatch_correct [OF m pos aside_wf_arem [OF ms]] by (auto simp: amatch_post_def)
    then have "set (map fst fs) \<subseteq> set ms" by (metis set_take_subset)
    with that show ?thesis by force
  qed
  have "0 < aPrice m \<and> 0 < q \<and> aPrice m * q \<le> max_i64 \<and> acrosses t (aPrice m)" if f: "(m, q) \<in> set fs" for m q
  proof -
    have q: "0 < q" "q \<le> arem m" "acrosses t (aPrice m)"
      using amatch_correct [OF m pos aside_wf_arem [OF ms]] f by (auto simp: amatch_post_def)
    have r: "0 < aPrice m" "0 \<le> aFilled m" "aPrice m * aQty m \<le> max_i64"
      using mem [OF f] ms by (auto simp: aside_wf_def aresting_def)
    have "aPrice m * q \<le> aPrice m * aQty m" using q r by (intro mult_left_mono) (auto simp: arem_def)
    with q r show ?thesis by linarith
  qed
  then show ?thesis by blast
qed

lemma arelease_nonneg:
  assumes "\<forall>(m, q)\<in>set fs. 0 < q \<and> acrosses t (aPrice m)"
  shows "0 \<le> arelease t fs"
  using assms by (auto simp: arelease_def crosses_def intro!: sum_list_nonneg_map)

lemma cop_vib_nonneg: "aresting bid x \<Longrightarrow> 0 \<le> cop_of u x \<and> 0 \<le> vib_of u x"
  by (auto simp: cop_of_def vib_of_def aresting_def arem_def)

lemma astep_events_ok:
  assumes B: "abook_wf B" and ok: "\<And>o'. c = cmdPlace o' \<Longrightarrow> valid_new o'" and st: "astep c B = (evs, B')"
  shows "\<forall>ev\<in>set evs. aevent_ok ev"
proof (cases c)
  case (cmdPlace o')
  obtain t' fs rel where pl: "aPlace (absO o') B = (t', fs, rel, B')"
    and evs: "evs = afill_events (absO o') fs @ [AUpdate t' rel 0]"
    using st cmdPlace by (auto simp: Let_def split: prod.splits)
  obtain ms' where m: "amatch (absO o') (aopposite (absO o') B) = (t', fs, ms')" and rel: "rel = arelease (absO o') fs"
    using pl by (rule aPlaceE)
  have an: "anew (absO o')" using ok [OF cmdPlace] by (auto simp: valid_new_def Validate_None_iff anew_def fits_def)
  have opp: "aside_wf (oSide o' = Sell) (aopposite (absO o') B)"
    using B an by (auto simp: aopposite_def abook_wf_def anew_def)
  note f = fills_ok [OF m an opp]
  have "0 \<le> rel" unfolding rel by (rule arelease_nonneg) (use f in auto)
  with f show ?thesis by (auto simp: evs afill_events_def aevent_ok_def)
next
  case (cmdCancel i)
  then show ?thesis
  proof (cases "aCancel i B")
    case (Some p)
    then obtain x where x: "aCancel i B = Some (x, B')" and evs: "evs = [AUpdate x (cop_of (aUser x) x) (vib_of (aUser x) x)]"
      using st cmdCancel by (cases p) auto
    have "x \<in> set (aorders B)" using aCancel_collateral(3) [OF B x] .
    then obtain bid where "aresting bid x" using B by (auto simp: aorders_def abook_wf_def aside_wf_def)
    from cop_vib_nonneg [OF this] show ?thesis by (simp add: evs aevent_ok_def)
  qed (use st cmdCancel in simp)
next
  case (cmdSnapshot d)
  with st show ?thesis by simp
qed

lemma resting_nonneg:
  assumes "abook_wf B"
  shows "0 \<le> restingCOP u B" and "0 \<le> restingVIB u B"
proof -
  have "0 \<le> cop_of u x \<and> 0 \<le> vib_of u x" if "x \<in> set (aorders B)" for x
    using that assms cop_vib_nonneg by (auto simp: aorders_def abook_wf_def aside_wf_def)
  then show "0 \<le> restingCOP u B" "0 \<le> restingVIB u B"
    by (auto simp: restingCOP_def restingVIB_def intro!: sum_list_nonneg_map)
qed

subsection \<open>Settling one event\<close>

text \<open>What an event does to the holdings: a trade moves value, an update of an order none.\<close>

primrec effect :: "aevent \<Rightarrow> holding_view \<Rightarrow> holding_view" where
  "effect (ATrade b s p q) H = pay b s (p * q) q H"
| "effect (AUpdate x rc rv) H = H"

lemma mem_settlement_simps [simp]:
  "spWallets mem_settlement = mem_wallets" "spJournal mem_settlement = mem_journal"
  "spTrades mem_settlement = mem_trades" "spOrders mem_settlement = mem_orders"
  by (simp_all add: mem_settlement_unfold)

lemma update_wallet_log:
  "fst (wr_Update (spWallets S) c u f (stWallets s)) = None \<Longrightarrow> stLog (update_wallet S c u f line s) = stLog s"
  by (auto simp: update_wallet_def log_error_def Let_def split: prod.split)

lemma mem_upsert_order [simp]: "stLog (upsert_order mem_settlement c x s) = stLog s"
  by (simp add: upsert_order_def OrderStore_Upsert_def log_error_def)

lemma applyTrade_wallets:
  "stWallets (applyTrade S c (Some t) s) = snd (wr_Update (spWallets S) c (tSellerID t) (SettleSell (tQuantity t) (Notional t))
     (snd (wr_Update (spWallets S) c (tBuyerID t) (SettleBuy (Notional t) (tQuantity t)) (stWallets s))))"
  by (simp add: applyTrade_def Let_def split: prod.split)

lemma mem_applyTrade_log:
  assumes "fst (WalletStore_Update c (tBuyerID t) (SettleBuy (Notional t) (tQuantity t)) (stWallets s)) = None"
    and "fst (WalletStore_Update c (tSellerID t) (SettleSell (tQuantity t) (Notional t))
       (snd (WalletStore_Update c (tBuyerID t) (SettleBuy (Notional t) (tQuantity t)) (stWallets s)))) = None"
  shows "stLog (applyTrade mem_settlement c (Some t) s) = stLog s"
  using assms by (simp add: applyTrade_def Let_def TradeStore_Append_def log_error_def update_wallet_log)

lemma settle_trade:
  fixes c :: ctx
  assumes ok: "ledger_ok (ws_view (stWallets s)) (\<lambda>u. nC u + pendCOP u (ATrade (tBuyerID t) (tSellerID t) (tPrice t) (tQuantity t)))
      (\<lambda>u. nV u + pendVIB u (ATrade (tBuyerID t) (tSellerID t) (tPrice t) (tQuantity t)))"
    and nn: "\<And>u. 0 \<le> nC u" "\<And>u. 0 \<le> nV u"
    and t: "0 < tPrice t" "0 < tQuantity t" "tPrice t * tQuantity t \<le> max_i64"
  defines "s' \<equiv> applyTrade mem_settlement c (Some t) s"
  shows "ledger_ok (ws_view (stWallets s')) nC nV" and "supplyCOP (ws_view (stWallets s')) = supplyCOP (ws_view (stWallets s))"
    and "supplyVIB (ws_view (stWallets s')) = supplyVIB (ws_view (stWallets s))" and "stLog s' = stLog s"
    and "holdings (ws_view (stWallets s')) = effect (ATrade (tBuyerID t) (tSellerID t) (tPrice t) (tQuantity t)) (holdings (ws_view (stWallets s)))"
proof -
  let ?v = "ws_view (stWallets s)" and ?b = "tBuyerID t" and ?s = "tSellerID t" and ?q = "tQuantity t"
  let ?n = "tPrice t * ?q" and ?buy = "SettleBuy (Notional t) ?q" and ?sell = "SettleSell ?q (Notional t)"
  have n: "Notional t = ?n" "0 < ?n" using t by (simp_all add: Notional_def mul64_id i64_nonneg)
  have "(\<lambda>u. nC u + pendCOP u (ATrade ?b ?s (tPrice t) ?q)) = (\<lambda>u. nC u + (if u = ?b then ?n else 0))"
    "(\<lambda>u. nV u + pendVIB u (ATrade ?b ?s (tPrice t) ?q)) = (\<lambda>u. nV u + (if u = ?s then ?q else 0))"
    by (auto simp: pendCOP_def pendVIB_def)
  with ok have ok': "ledger_ok ?v (\<lambda>u. nC u + (if u = ?b then ?n else 0)) (\<lambda>u. nV u + (if u = ?s then ?q else 0))"
    by simp
  obtain wb wb' ws ws' where b: "?v ?b = Some wb" "SettleBuy ?n ?q wb = (None, wb')"
    and sl: "(?v(?b \<mapsto> wb')) ?s = Some ws" "SettleSell ?q ?n ws = (None, ws')"
    and fin: "ledger_ok (?v(?b \<mapsto> wb', ?s \<mapsto> ws')) nC nV"
      "supplyCOP (?v(?b \<mapsto> wb', ?s \<mapsto> ws')) = supplyCOP ?v" "supplyVIB (?v(?b \<mapsto> wb', ?s \<mapsto> ws')) = supplyVIB ?v"
      "holdings (?v(?b \<mapsto> wb', ?s \<mapsto> ws')) = pay ?b ?s ?n ?q (holdings ?v)"
    using ledger_trade [OF ok' nn n(2) t(2)] by blast
  let ?s1 = "snd (WalletStore_Update c ?b ?buy (stWallets s))"
  have 1: "fst (WalletStore_Update c ?b ?buy (stWallets s)) = None" "ws_view ?s1 = ?v(?b \<mapsto> wb')"
    using mem_ledger.update_exact [OF b(1), of c ?buy] b(2) n(1) by simp_all
  have "ws_view ?s1 ?s = Some ws" using sl(1) 1(2) by simp
  from mem_ledger.update_exact [OF this, of c ?sell]
  have 2: "fst (WalletStore_Update c ?s ?sell ?s1) = None" "ws_view (snd (WalletStore_Update c ?s ?sell ?s1)) = ?v(?b \<mapsto> wb', ?s \<mapsto> ws')"
    using sl(2) n(1) 1(2) by simp_all
  have "ws_view (stWallets s') = ?v(?b \<mapsto> wb', ?s \<mapsto> ws')"
    using 2(2) by (simp add: s'_def applyTrade_wallets)
  with fin show "ledger_ok (ws_view (stWallets s')) nC nV" "supplyCOP (ws_view (stWallets s')) = supplyCOP ?v"
    "supplyVIB (ws_view (stWallets s')) = supplyVIB ?v"
    "holdings (ws_view (stWallets s')) = effect (ATrade ?b ?s (tPrice t) ?q) (holdings ?v)" by simp_all
  show "stLog s' = stLog s" unfolding s'_def by (rule mem_applyTrade_log [OF 1(1) 2(1)])
qed

lemma ledger_nonneg_need:
  assumes "ledger_ok v (\<lambda>x. nC x + (if x = u then a else 0)) nV" and "0 \<le> nC u" and "0 < a"
  obtains w where "v u = Some w"
  using ledger_bal_has_wallet [of v "\<lambda>x. nC x + (if x = u then a else 0)" nV u] assms by (auto simp: ledger_ok_def)

lemma ledger_nonneg_need':
  assumes "ledger_ok v nC (\<lambda>x. nV x + (if x = u then a else 0))" and "0 \<le> nV u" and "0 < a"
  obtains w where "v u = Some w"
  using ledger_bal_has_wallet [of v nC "\<lambda>x. nV x + (if x = u then a else 0)" u] assms by (auto simp: ledger_ok_def)

text \<open>The two conditional releases of \<open>applyOrderUpdate\<close>.\<close>

lemma release_COP_step:
  fixes c :: ctx and line :: "goerr \<Rightarrow> log_line"
  assumes ok: "ledger_ok (ws_view (stWallets s)) (\<lambda>x. nC x + (if x = u then a else 0)) nV"
    and nn: "0 \<le> nC u" and a: "0 \<le> a"
  defines "s' \<equiv> (if a > 0 then update_wallet mem_settlement c u (ReleaseCOP a) line s else s)"
  shows "ledger_ok (ws_view (stWallets s')) nC nV \<and> supplyCOP (ws_view (stWallets s')) = supplyCOP (ws_view (stWallets s))
    \<and> supplyVIB (ws_view (stWallets s')) = supplyVIB (ws_view (stWallets s)) \<and> stLog s' = stLog s
    \<and> holdings (ws_view (stWallets s')) = holdings (ws_view (stWallets s))"
proof (cases "0 < a")
  case False
  with a ok show ?thesis by (simp add: s'_def cong: if_cong)
next
  case True
  obtain w where w: "ws_view (stWallets s) u = Some w" by (rule ledger_nonneg_need [OF ok nn True])
  note r = ledger_release_COP [OF ok w a refl nn]
  have "ws_view (stWallets s') = (ws_view (stWallets s))(u \<mapsto> snd (ReleaseCOP a w))"
    "fst (WalletStore_Update c u (ReleaseCOP a) (stWallets s)) = None"
    using mem_ledger.update_exact [OF w, of c "ReleaseCOP a"] r(1) True by (simp_all add: s'_def)
  with r True show ?thesis by (simp add: s'_def update_wallet_log)
qed

lemma release_VIB_step:
  fixes c :: ctx and line :: "goerr \<Rightarrow> log_line"
  assumes ok: "ledger_ok (ws_view (stWallets s)) nC (\<lambda>x. nV x + (if x = u then a else 0))"
    and nn: "0 \<le> nV u" and a: "0 \<le> a"
  defines "s' \<equiv> (if a > 0 then update_wallet mem_settlement c u (ReleaseVibranium a) line s else s)"
  shows "ledger_ok (ws_view (stWallets s')) nC nV \<and> supplyCOP (ws_view (stWallets s')) = supplyCOP (ws_view (stWallets s))
    \<and> supplyVIB (ws_view (stWallets s')) = supplyVIB (ws_view (stWallets s)) \<and> stLog s' = stLog s
    \<and> holdings (ws_view (stWallets s')) = holdings (ws_view (stWallets s))"
proof (cases "0 < a")
  case False
  with a ok show ?thesis by (simp add: s'_def cong: if_cong)
next
  case True
  obtain w where w: "ws_view (stWallets s) u = Some w" by (rule ledger_nonneg_need' [OF ok nn True])
  note r = ledger_release_VIB [OF ok w a refl nn]
  have "ws_view (stWallets s') = (ws_view (stWallets s))(u \<mapsto> snd (ReleaseVibranium a w))"
    "fst (WalletStore_Update c u (ReleaseVibranium a) (stWallets s)) = None"
    using mem_ledger.update_exact [OF w, of c "ReleaseVibranium a"] r(1) True by (simp_all add: s'_def)
  with r True show ?thesis by (simp add: s'_def update_wallet_log)
qed

lemma settle_event:
  fixes c :: ctx
  assumes ok: "ledger_ok (ws_view (stWallets s)) (\<lambda>u. nC u + pendCOP u (abs_event ev)) (\<lambda>u. nV u + pendVIB u (abs_event ev))"
    and nn: "\<And>u. 0 \<le> nC u" "\<And>u. 0 \<le> nV u" and ev: "ev_typed ev" "aevent_ok (abs_event ev)"
  defines "s' \<equiv> apply_event mem_settlement c ev s"
  shows "ledger_ok (ws_view (stWallets s')) nC nV \<and> supplyCOP (ws_view (stWallets s')) = supplyCOP (ws_view (stWallets s))
    \<and> supplyVIB (ws_view (stWallets s')) = supplyVIB (ws_view (stWallets s)) \<and> stLog s' = stLog s
    \<and> holdings (ws_view (stWallets s')) = effect (abs_event ev) (holdings (ws_view (stWallets s)))"
proof (cases "eType ev = EventTrade")
  case True
  then obtain t where t: "eTrade ev = Some t" using ev(1) by (auto simp: ev_typed_def)
  then have ab: "abs_event ev = ATrade (tBuyerID t) (tSellerID t) (tPrice t) (tQuantity t)" by (simp add: abs_event_def)
  have "s' = applyTrade mem_settlement c (Some t) s" by (simp add: s'_def apply_event_def True t)
  with settle_trade [OF ok [unfolded ab] nn] ev(2) show ?thesis by (simp add: ab aevent_ok_def)
next
  case False
  then obtain o' where o': "eType ev = EventOrderUpdated" "eTrade ev = None" "eOrder ev = Some o'"
    using ev(1) by (auto simp: ev_typed_def)
  let ?u = "oUserID o'" and ?rc = "eReleaseCOP ev" and ?rv = "eReleaseVibranium ev"
  have ab: "abs_event ev = AUpdate (absO o') ?rc ?rv" by (simp add: abs_event_def o')
  have r: "0 \<le> ?rc" "0 \<le> ?rv" using ev(2) by (simp_all add: ab aevent_ok_def)
  have "(\<lambda>u. nC u + pendCOP u (abs_event ev)) = (\<lambda>u. nC u + (if u = ?u then ?rc else 0))"
    "(\<lambda>u. nV u + pendVIB u (abs_event ev)) = (\<lambda>u. nV u + (if u = ?u then ?rv else 0))"
    by (auto simp: ab pendCOP_def pendVIB_def)
  with ok have ok1: "ledger_ok (ws_view (stWallets (upsert_order mem_settlement c o' s)))
      (\<lambda>u. nC u + (if u = ?u then ?rc else 0)) (\<lambda>u. nV u + (if u = ?u then ?rv else 0))" by simp
  let ?s1 = "upsert_order mem_settlement c o' s"
  let ?s2 = "if ?rc > 0 then update_wallet mem_settlement c ?u (ReleaseCOP ?rc) (LogReleaseCOPFailed (oID o') ?u) ?s1 else ?s1"
  note 1 = release_COP_step [OF ok1 nn(1) r(1), of c "LogReleaseCOPFailed (oID o') ?u"]
  note 2 = release_VIB_step [of ?s2 nC nV ?u ?rv c "LogReleaseVibraniumFailed (oID o') ?u"]
  have "s' = (if ?rv > 0 then update_wallet mem_settlement c ?u (ReleaseVibranium ?rv) (LogReleaseVibraniumFailed (oID o') ?u) ?s2 else ?s2)"
    by (simp add: s'_def apply_event_def applyOrderUpdate_def o' Let_def)
  with 1 2 nn(2) r(2) show ?thesis by (simp add: ab)
qed

lemma handle_settles:
  assumes new: "eID ev \<notin> set (jr_seen (stJournal s))"
  shows "stWallets (handle mem_settlement c t ev s) = stWallets (apply_event mem_settlement c ev s)"
    and "set (jr_seen (stJournal (handle mem_settlement c t ev s))) = insert (eID ev) (set (jr_seen (stJournal s)))"
    and "stLog (handle mem_settlement c t ev s) = stLog (apply_event mem_settlement c ev s)"
  using new by (simp_all add: handle_def Let_def Journal_MarkProcessed_def apply_event_with_journal)

subsection \<open>Each step keeps the invariant\<close>

lemma request_view_simps [simp]:
  "tsWallets (request_view st) = stWallets (syStores st)" "tsMetrics (request_view st) = syRequests st"
  by (simp_all add: request_view_def)

lemma after_request_simps [simp]:
  "sySymbol (after_request ts st) = sySymbol st" "syEngine (after_request ts st) = syEngine st"
  "syLog (after_request ts st) = syLog st" "syIn (after_request ts st) = syIn st"
  "sySubmitting (after_request ts st) = sySubmitting st" "syUsed (after_request ts st) = syUsed st"
  "stWallets (syStores (after_request ts st)) = tsWallets ts"
  "stJournal (syStores (after_request ts st)) = stJournal (syStores st)"
  "stLog (syStores (after_request ts st)) = stLog (syStores st)"
  by (simp_all add: after_request_def)

lemma mem_trading_simps [simp]: "tdWallets (mem_trading sy) = mem_wallets" "tdSymbol (mem_trading sy) = sy"
  by (simp_all add: mem_trading_unfold)

lemma placed_simps [simp]:
  "placed [] = []" "placed (cmdPlace o' # cs) = o' # placed cs" "placed (cmdCancel i # cs) = placed cs"
  "placed (cmdSnapshot d # cs) = placed cs" "placed (xs @ ys) = placed xs @ placed ys"
  by (simp_all add: placed_def)

lemma sum_cmds:
  "(\<Sum>c\<leftarrow>cs. cmd_cop u c) = (\<Sum>o'\<leftarrow>placed cs. cop_of u (absO o'))"
  "(\<Sum>c\<leftarrow>cs. cmd_vib u c) = (\<Sum>o'\<leftarrow>placed cs. vib_of u (absO o'))"
proof -
  have "(\<Sum>c\<leftarrow>cs. cmd_cop u c) = (\<Sum>o'\<leftarrow>placed cs. cop_of u (absO o'))
      \<and> (\<Sum>c\<leftarrow>cs. cmd_vib u c) = (\<Sum>o'\<leftarrow>placed cs. vib_of u (absO o'))"
  proof (induction cs)
    case (Cons c cs)
    then show ?case by (cases c) simp_all
  qed simp
  then show "(\<Sum>c\<leftarrow>cs. cmd_cop u c) = (\<Sum>o'\<leftarrow>placed cs. cop_of u (absO o'))"
    "(\<Sum>c\<leftarrow>cs. cmd_vib u c) = (\<Sum>o'\<leftarrow>placed cs. vib_of u (absO o'))" by auto
qed

lemma valid_new_nonneg: "valid_new o' \<Longrightarrow> 0 \<le> cop_of u (absO o') \<and> 0 \<le> vib_of u (absO o')"
  by (auto simp: cop_of_def vib_of_def valid_new_def Validate_None_iff)

text \<open>The needs are sums of terms that are not negative.\<close>

lemma pend_nonneg: "aevent_ok ev \<Longrightarrow> 0 \<le> pendCOP u ev \<and> 0 \<le> pendVIB u ev"
  by (auto simp: aevent_ok_def pendCOP_def pendVIB_def split: aevent.splits)

lemma parts_nonneg:
  assumes "sys_inv st"
  shows "0 \<le> (\<Sum>o'\<leftarrow>sySubmitting st. cop_of u (absO o'))" "0 \<le> (\<Sum>o'\<leftarrow>sySubmitting st. vib_of u (absO o'))"
    "0 \<le> (\<Sum>c\<leftarrow>syIn st. cmd_cop u c)" "0 \<le> (\<Sum>c\<leftarrow>syIn st. cmd_vib u c)"
    "0 \<le> restingCOP u (book_of st)" "0 \<le> restingVIB u (book_of st)"
    "0 \<le> (\<Sum>ev\<leftarrow>lg_ch (syLog st). pendCOP u (abs_event ev))" "0 \<le> (\<Sum>ev\<leftarrow>lg_ch (syLog st). pendVIB u (abs_event ev))"
proof -
  have v: "\<forall>o'\<in>set (sySubmitting st @ placed (syIn st)). valid_new o'"
    and e: "\<forall>ev\<in>set (lg_ch (syLog st)). aevent_ok (abs_event ev)"
    and B: "abook_wf (book_of st)"
    using assms by (auto simp: sys_inv_def sys_orders_def sys_events_def Let_def book_of_def book_wf_abs)
  show "0 \<le> (\<Sum>o'\<leftarrow>sySubmitting st. cop_of u (absO o'))" "0 \<le> (\<Sum>o'\<leftarrow>sySubmitting st. vib_of u (absO o'))"
    "0 \<le> (\<Sum>c\<leftarrow>syIn st. cmd_cop u c)" "0 \<le> (\<Sum>c\<leftarrow>syIn st. cmd_vib u c)"
    unfolding sum_cmds using v by (auto intro!: sum_list_nonneg_map simp: valid_new_nonneg)
  show "0 \<le> restingCOP u (book_of st)" "0 \<le> restingVIB u (book_of st)" by (rule resting_nonneg [OF B])+
  show "0 \<le> (\<Sum>ev\<leftarrow>lg_ch (syLog st). pendCOP u (abs_event ev))" "0 \<le> (\<Sum>ev\<leftarrow>lg_ch (syLog st). pendVIB u (abs_event ev))"
    using e pend_nonneg by (auto intro!: sum_list_nonneg_map)
qed

text \<open>Nothing outside the named parts matters to the invariant.\<close>

lemma sys_inv_cong:
  assumes "sys_inv st" and "syEngine st' = syEngine st" and "syLog st' = syLog st" and "syIn st' = syIn st"
    and "sySubmitting st' = sySubmitting st" and "syUsed st' = syUsed st"
    and "set (jr_seen (stJournal (syStores st'))) = set (jr_seen (stJournal (syStores st)))"
    and "ws_view (stWallets (syStores st')) = ws_view (stWallets (syStores st))"
  shows "sys_inv st'"
proof -
  have "needCOP st' = needCOP st" "needVIB st' = needVIB st"
    using assms by (simp_all add: fun_eq_iff needCOP_def needVIB_def book_of_def)
  with assms show ?thesis
    by (simp add: sys_inv_def sys_orders_def sys_events_def future_ids_def book_of_def Let_def)
qed

lemma inv_Accept:
  assumes inv: "sys_inv st"
    and acc: "accept (mem_trading (sySymbol st)) c bytes t cmd (request_view st) = (Inr o', ts)"
    and new: "oID o' \<notin> syUsed st" and fit: "fits o'"
  defines "st' \<equiv> (after_request ts st)\<lparr>sySubmitting := sySubmitting st @ [o'], syUsed := insert (oID o') (syUsed st)\<rparr>"
  shows "sys_inv st'" and "supplyCOP (ws_view (stWallets (syStores st'))) = supplyCOP (ws_view (stWallets (syStores st)))"
    and "supplyVIB (ws_view (stWallets (syStores st'))) = supplyVIB (ws_view (stWallets (syStores st)))"
    and "holdings (ws_view (stWallets (syStores st'))) = holdings (ws_view (stWallets (syStores st)))"
proof -
  have o': "o' = new_order (sySymbol st) bytes t cmd" "Validate o' = None" using accept_order [OF acc] by auto
  then have vn: "valid_new o'" "oFilledQuantity o' = 0" "oUserID o' = pcUserID cmd" using fit by (auto simp: valid_new_def)
  obtain w where w: "ws_view (stWallets (syStores st)) (oUserID o') = Some w" "fst (reserve_fn o' w) = None"
    and v: "ws_view (tsWallets ts) = (ws_view (stWallets (syStores st)))(oUserID o' \<mapsto> snd (reserve_fn o' w))"
    using mem_ledger.accept_accepted(1) [OF _ acc] vn(3) by auto
  have ok: "ledger_ok (ws_view (stWallets (syStores st))) (needCOP st) (needVIB st)" using inv by (simp add: sys_inv_def)
  note r = ledger_reserve [OF ok w o'(2) fit vn(2), folded v]
  have n: "needCOP st' = (\<lambda>u. needCOP st u + cop_of u (absO o'))" "needVIB st' = (\<lambda>u. needVIB st u + vib_of u (absO o'))"
    by (simp_all add: fun_eq_iff st'_def needCOP_def needVIB_def book_of_def)
  have "sys_orders st'"
    using inv new vn(1) by (auto simp: sys_inv_def sys_orders_def st'_def Let_def book_of_def)
  moreover have "sys_events st'"
    using inv by (simp add: sys_inv_def sys_events_def st'_def future_ids_def)
  ultimately show "sys_inv st'"
    using inv r(1) unfolding sys_inv_def n by (simp add: st'_def)
  show "supplyCOP (ws_view (stWallets (syStores st'))) = supplyCOP (ws_view (stWallets (syStores st)))"
    "supplyVIB (ws_view (stWallets (syStores st'))) = supplyVIB (ws_view (stWallets (syStores st)))"
    "holdings (ws_view (stWallets (syStores st'))) = holdings (ws_view (stWallets (syStores st)))"
    using r(2-4) by (simp_all add: st'_def)
qed

lemma inv_Enqueue:
  assumes inv: "sys_inv st" and sub: "sySubmitting st = xs @ o' # ys"
  shows "sys_inv (st\<lparr>sySubmitting := xs @ ys, syIn := syIn st @ [cmdPlace o']\<rparr>)" (is "sys_inv ?st")
proof -
  have n: "needCOP ?st = needCOP st" "needVIB ?st = needVIB st"
    by (simp_all add: fun_eq_iff needCOP_def needVIB_def book_of_def sub)
  have "sys_orders ?st"
    using inv by (auto simp: sys_inv_def sys_orders_def Let_def book_of_def sub)
  moreover have "sys_events ?st" using inv by (simp add: sys_inv_def sys_events_def future_ids_def)
  ultimately show ?thesis using inv unfolding sys_inv_def n by simp
qed

lemma inv_GiveUp:
  assumes inv: "sys_inv st" and sub: "sySubmitting st = xs @ o' # ys"
    and com: "complete (mem_trading (sySymbol st)) o' (Inl ErrContext) t0 t2 (request_view st) = (res, ts)"
  defines "st' \<equiv> (after_request ts st)\<lparr>sySubmitting := xs @ ys\<rparr>"
  shows "sys_inv st'" and "supplyCOP (ws_view (stWallets (syStores st'))) = supplyCOP (ws_view (stWallets (syStores st)))"
    and "supplyVIB (ws_view (stWallets (syStores st'))) = supplyVIB (ws_view (stWallets (syStores st)))"
    and "holdings (ws_view (stWallets (syStores st'))) = holdings (ws_view (stWallets (syStores st)))"
proof -
  let ?v = "ws_view (stWallets (syStores st))"
  have vn: "valid_new o'" using inv by (auto simp: sys_inv_def sys_orders_def Let_def sub)
  then have o': "Validate o' = None" "fits o'" "oFilledQuantity o' = 0" by (simp_all add: valid_new_def)
  have n: "needCOP st = (\<lambda>u. needCOP st' u + cop_of u (absO o'))" "needVIB st = (\<lambda>u. needVIB st' u + vib_of u (absO o'))"
    by (simp_all add: fun_eq_iff st'_def needCOP_def needVIB_def book_of_def sub)
  have ok: "ledger_ok ?v (\<lambda>u. needCOP st' u + cop_of u (absO o')) (\<lambda>u. needVIB st' u + vib_of u (absO o'))"
    using inv unfolding sys_inv_def n by blast
  have nn: "0 \<le> needCOP st' u" "0 \<le> needVIB st' u" for u
  proof -
    have "valid_new x" if "x \<in> set (xs @ ys)" for x
      using inv that by (auto simp: sys_inv_def sys_orders_def Let_def sub)
    then have "0 \<le> (\<Sum>x\<leftarrow>xs @ ys. cop_of u (absO x))" "0 \<le> (\<Sum>x\<leftarrow>xs @ ys. vib_of u (absO x))"
      using valid_new_nonneg by (intro sum_list_nonneg_map, blast)+
    with parts_nonneg(3-8) [OF inv, of u] show "0 \<le> needCOP st' u" "0 \<le> needVIB st' u"
      unfolding needCOP_def needVIB_def by (simp_all add: st'_def book_of_def)
  qed
  have "0 < cop_of (oUserID o') (absO o') \<or> 0 < vib_of (oUserID o') (absO o')"
    using vn by (auto simp: cop_of_def vib_of_def valid_new_def Validate_None_iff)
  then obtain w where w: "?v (oUserID o') = Some w"
    using ledger_bal_has_wallet [of ?v "needCOP st" "needVIB st" "oUserID o'"] inv nn [of "oUserID o'"] valid_new_nonneg [OF vn, of "oUserID o'"]
    unfolding sys_inv_def ledger_ok_def n by (metis add_nonneg_pos)
  note r = ledger_release [OF ok w nn o']
  have v: "ws_view (tsWallets ts) = ?v(oUserID o' \<mapsto> snd (release_fn o' w))"
    using com r(1) mem_ledger.update_exact(2) [OF w, of CtxLive "release_fn o'"]
    by (auto simp: complete_def observe_def release_def)
  have "sys_orders st'"
    using inv by (auto simp: sys_inv_def sys_orders_def st'_def Let_def book_of_def sub)
  moreover have "sys_events st'"
    using inv by (simp add: sys_inv_def sys_events_def st'_def future_ids_def)
  ultimately show "sys_inv st'"
    using inv r(2) unfolding sys_inv_def by (simp add: st'_def v)
  show "supplyCOP (ws_view (stWallets (syStores st'))) = supplyCOP ?v"
    "supplyVIB (ws_view (stWallets (syStores st'))) = supplyVIB ?v"
    "holdings (ws_view (stWallets (syStores st'))) = holdings ?v"
    using r(3-5) by (simp_all add: st'_def v)
qed

text \<open>The identifiers of new events are new.\<close>

lemma set_stamp_ids:
  assumes "0 \<le> eSeq e" and "eSeq e + int (length evs) \<le> max_i64"
  shows "set (map eID (stamp_events e evs))
    = {i. \<exists>n. eSeq e + 1 \<le> n \<and> n \<le> eSeq e + int (length evs) \<and> i = eProducerID e @ ''-'' @ itoa n}"
proof -
  have "map eID (stamp_events e evs) = map snd (map (\<lambda>ev. (eSequence ev, eID ev)) (stamp_events e evs))"
    by (simp add: comp_def)
  also have "\<dots> = map (\<lambda>k. eProducerID e @ ''-'' @ itoa (eSeq e + 1 + int k)) [0..<length evs]"
    unfolding stamp_events_seq [OF assms] by (simp add: comp_def)
  finally have "set (map eID (stamp_events e evs)) = (\<lambda>k. eProducerID e @ ''-'' @ itoa (eSeq e + 1 + int k)) ` {0..<length evs}"
    by (simp only: set_map set_upt)
  also have "\<dots> = {i. \<exists>n. eSeq e + 1 \<le> n \<and> n \<le> eSeq e + int (length evs) \<and> i = eProducerID e @ ''-'' @ itoa n}"
  proof (intro set_eqI iffI)
    fix i assume "i \<in> {i. \<exists>n. eSeq e + 1 \<le> n \<and> n \<le> eSeq e + int (length evs) \<and> i = eProducerID e @ ''-'' @ itoa n}"
    then obtain n where n: "eSeq e + 1 \<le> n" "n \<le> eSeq e + int (length evs)" "i = eProducerID e @ ''-'' @ itoa n" by blast
    then have "i = eProducerID e @ ''-'' @ itoa (eSeq e + 1 + int (nat (n - eSeq e - 1)))" "nat (n - eSeq e - 1) < length evs"
      by auto
    then show "i \<in> (\<lambda>k. eProducerID e @ ''-'' @ itoa (eSeq e + 1 + int k)) ` {0..<length evs}" by (intro image_eqI) auto
  next
    fix i assume "i \<in> (\<lambda>k. eProducerID e @ ''-'' @ itoa (eSeq e + 1 + int k)) ` {0..<length evs}"
    then obtain k where "k < length evs" "i = eProducerID e @ ''-'' @ itoa (eSeq e + 1 + int k)" by auto
    then show "i \<in> {i. \<exists>n. eSeq e + 1 \<le> n \<and> n \<le> eSeq e + int (length evs) \<and> i = eProducerID e @ ''-'' @ itoa n}"
      by (intro CollectI exI [of _ "eSeq e + 1 + int k"]) auto
  qed
  finally show ?thesis .
qed

lemma sum_stamp_events: "(\<Sum>ev\<leftarrow>stamp_events e evs. f (abs_event ev)) = (\<Sum>a\<leftarrow>map abs_event evs. f a)"
  for f :: "aevent \<Rightarrow> int"
  by (induction evs arbitrary: e) simp_all

lemma astep_ids:
  assumes "astep c B = (evs, B')"
  shows "aids B' \<subseteq> aids B \<union> set (map oID (placed [c]))"
proof (cases c)
  case (cmdPlace o')
  with assms obtain t' fs rel where "aPlace (absO o') B = (t', fs, rel, B')"
    by (auto simp: Let_def split: prod.splits)
  from aPlace_ids [OF this] show ?thesis by (auto simp: cmdPlace)
next
  case (cmdCancel i)
  with assms show ?thesis by (auto split: option.splits dest: aCancel_ids)
next
  case (cmdSnapshot d)
  with assms show ?thesis by simp
qed

text \<open>What a command does in a state of the invariant, in terms of the specification.\<close>

lemma engine_step_spec:
  assumes inv: "sys_inv st" and cmds: "syIn st = cmd # cmds"
    and hc: "handle_command mem_log cmd (syEngine st, syLog st) = Some (reply, e', l')"
  obtains evs b' where "\<not> lg_closed l'" and "lg_ch l' = lg_ch (syLog st) @ stamp_events (syEngine st) evs" and "book_wf b'"
    and "astep cmd (book_of st) = (map abs_event evs, absB b')" and "\<forall>ev\<in>set evs. ev_typed ev"
    and "e' = (stamped_n (length evs) (syEngine st))\<lparr>eBook := b'\<rparr>" and "\<forall>o'. cmd = cmdPlace o' \<longrightarrow> valid_new o'"
proof -
  let ?e = "syEngine st" and ?l = "syLog st"
  have wf: "book_wf (eBook ?e)" and op: "\<not> lg_closed ?l" and so: "sys_orders st"
    using inv by (auto simp: sys_inv_def sys_events_def)
  have ok: "valid_new o' \<and> orders (eBook ?e) (oID o') = None" if "cmd = cmdPlace o'" for o'
  proof -
    have "oID o' \<notin> aids (book_of st)" "valid_new o'" using so that by (auto simp: sys_orders_def Let_def cmds)
    then show ?thesis
      using wf book_core_new_id [of "eBook ?e" "oID o'"] by (auto simp: book_wf_def aids_def book_of_def)
  qed
  with mem_sink.handle_command_works [OF wf op, of cmd] hc obtain evs b' where
    "\<not> lg_closed l'" "lg_ch l' = lg_ch ?l @ stamp_events ?e evs" "book_wf b'"
    "astep cmd (book_of st) = (map abs_event evs, absB b')" "\<forall>ev\<in>set evs. ev_typed ev"
    "e' = (stamped_n (length evs) ?e)\<lparr>eBook := b'\<rparr>"
    unfolding book_of_def by fastforce
  with ok show ?thesis by (intro that) blast+
qed

lemma new_ids_future:
  assumes "sys_inv st" and "eSeq (syEngine st) + int (length evs) \<le> max_i64"
  shows "set (map eID (stamp_events (syEngine st) evs)) \<subseteq> future_ids st"
proof -
  have s0: "0 \<le> eSeq (syEngine st)" using assms(1) by (simp add: sys_inv_def sys_events_def)
  show ?thesis by (auto simp: set_stamp_ids [OF s0 assms(2)] future_ids_def simp del: set_map) (smt (verit))
qed

lemma inv_EngineStep:
  assumes inv: "sys_inv st" and cmds: "syIn st = cmd # cmds"
    and hc: "handle_command mem_log cmd (syEngine st, syLog st) = Some (reply, e', l')"
    and room: "eSeq (syEngine st) + int (length (lg_ch l') - length (lg_ch (syLog st))) \<le> max_i64"
  shows "sys_inv (st\<lparr>syIn := cmds, syEngine := e', syLog := l'\<rparr>)" (is "sys_inv ?st")
proof -
  let ?e = "syEngine st" and ?l = "syLog st" and ?B = "book_of st"
  have wf: "book_wf (eBook ?e)" and op: "\<not> lg_closed ?l" and so: "sys_orders st" and se: "sys_events st"
    using inv by (auto simp: sys_inv_def sys_events_def)
  obtain evs b' where op': "\<not> lg_closed l'" and ch: "lg_ch l' = lg_ch ?l @ stamp_events ?e evs" and wf': "book_wf b'"
    and st: "astep cmd ?B = (map abs_event evs, absB b')" and typed: "\<forall>ev\<in>set evs. ev_typed ev"
    and e': "e' = (stamped_n (length evs) ?e)\<lparr>eBook := b'\<rparr>" and ok: "\<forall>o'. cmd = cmdPlace o' \<longrightarrow> valid_new o'"
    by (rule engine_step_spec [OF inv cmds hc])
  have B: "abook_wf ?B" using wf by (simp add: book_of_def book_wf_abs)
  have room': "eSeq ?e + int (length evs) \<le> max_i64" and s0: "0 \<le> eSeq ?e"
    using room se by (simp_all add: ch sys_events_def)
  have seq: "eSeq e' = eSeq ?e + int (length evs)" "eProducerID e' = eProducerID ?e" "eBook e' = b'"
    using stamped_n_seq [OF s0 room'] by (simp_all add: e')
  note bal = astep_balance [OF B _ st] and evok = astep_events_ok [OF B _ st]
  have vn: "\<And>o'. cmd = cmdPlace o' \<Longrightarrow> valid_new o'" using ok by blast
  have n: "needCOP ?st = needCOP st" "needVIB ?st = needVIB st"
  proof -
    have "(\<Sum>ev\<leftarrow>stamp_events ?e evs. pendCOP u (abs_event ev)) = (\<Sum>ev\<leftarrow>map abs_event evs. pendCOP u ev)"
      "(\<Sum>ev\<leftarrow>stamp_events ?e evs. pendVIB u (abs_event ev)) = (\<Sum>ev\<leftarrow>map abs_event evs. pendVIB u ev)" for u
      by (rule sum_stamp_events)+
    with bal vn show "needCOP ?st = needCOP st" "needVIB ?st = needVIB st"
      by (auto simp: fun_eq_iff needCOP_def needVIB_def cmds ch book_of_def seq(3))
  qed
  have "sys_orders ?st"
  proof -
    let ?P = "set (map oID (placed [cmd]))" and ?S = "set (map oID (sySubmitting st @ placed cmds))"
    let ?T = "set (map oID (sySubmitting st @ placed (syIn st)))"
    have "aids (absB b') \<subseteq> aids ?B \<union> ?P"
      by (rule astep_ids [OF st])
    moreover have "?S \<inter> ?P = {}" "?P \<subseteq> syUsed st" "?S \<subseteq> ?T"
      "distinct (map oID (sySubmitting st @ placed cmds))" "\<forall>o'\<in>set (sySubmitting st @ placed cmds). valid_new o'"
    proof -
      have pl: "placed (syIn st) = placed [cmd] @ placed cmds" using placed_simps(5) [of "[cmd]" cmds] by (simp add: cmds)
      have d: "distinct (map oID (sySubmitting st @ placed [cmd] @ placed cmds))"
        "\<forall>o'\<in>set (sySubmitting st @ placed [cmd] @ placed cmds). valid_new o'"
        "set (map oID (sySubmitting st @ placed [cmd] @ placed cmds)) \<subseteq> syUsed st"
        using so unfolding sys_orders_def Let_def pl Un_subset_iff by blast+
      from d(1) show "?S \<inter> ?P = {}" "distinct (map oID (sySubmitting st @ placed cmds))" by auto
      from d(2) show "\<forall>o'\<in>set (sySubmitting st @ placed cmds). valid_new o'" by auto
      from d(3) show "?P \<subseteq> syUsed st" by auto
      show "?S \<subseteq> ?T" by (auto simp: pl)
    qed
    moreover have "?T \<inter> aids ?B = {}" "?T \<union> aids ?B \<subseteq> syUsed st"
      using so unfolding sys_orders_def Let_def by blast+
    ultimately have "?S \<inter> aids (absB b') = {}" "?S \<union> aids (absB b') \<subseteq> syUsed st"
      "distinct (map oID (sySubmitting st @ placed cmds))" "\<forall>o'\<in>set (sySubmitting st @ placed cmds). valid_new o'"
      by blast+
    then show ?thesis unfolding sys_orders_def Let_def by (simp add: book_of_def seq(3))
  qed
  moreover have "sys_events ?st"
  proof -
    note new = new_ids_future [OF inv room']
    have sub: "future_ids ?st \<subseteq> future_ids st"
    proof
      fix i assume "i \<in> future_ids ?st"
      then obtain n where "eSeq ?e + int (length evs) < n" "i = eProducerID ?e @ ''-'' @ itoa n" by (auto simp: future_ids_def seq)
      then show "i \<in> future_ids st" unfolding future_ids_def by (intro CollectI exI [of _ n]) simp
    qed
    have gone: "set (map eID (stamp_events ?e evs)) \<inter> future_ids ?st = {}"
      using s0 itoa_inj_nonneg by (auto simp: set_stamp_ids [OF s0 room'] future_ids_def seq simp del: set_map) (smt (verit))
    have typed': "\<forall>ev\<in>set (stamp_events ?e evs). ev_typed ev \<and> aevent_ok (abs_event ev)"
    proof -
      have "\<forall>a\<in>set (map abs_event (stamp_events ?e evs)). aevent_ok a" using evok vn by simp
      with typed show ?thesis by (auto simp del: map_abs_stamp_events)
    qed
    show ?thesis
      using se op' s0 new sub gone typed' stamp_events_ids_distinct [OF s0 room']
      unfolding sys_events_def by (auto simp: ch seq simp del: set_map)
  qed
  ultimately show ?thesis
    using inv wf' unfolding sys_inv_def n by (simp add: seq(3))
qed

lemma Log_recv_Some:
  "Log_recv l = Some (Some ev, l') \<Longrightarrow> lg_ch l = ev # lg_ch l' \<and> lg_closed l' = lg_closed l"
  by (auto simp: Log_recv_def split: list.splits if_splits)

lemma inv_Settle:
  fixes c :: ctx and t :: time
  assumes inv: "sys_inv st" and recv: "Log_recv (syLog st) = Some (Some ev, l')"
  defines "st' \<equiv> st\<lparr>syLog := l', syStores := handle mem_settlement c t ev (syStores st)\<rparr>"
  shows "sys_inv st'" and "supplyCOP (ws_view (stWallets (syStores st'))) = supplyCOP (ws_view (stWallets (syStores st)))"
    and "supplyVIB (ws_view (stWallets (syStores st'))) = supplyVIB (ws_view (stWallets (syStores st)))"
    and "stLog (syStores st') = stLog (syStores st)"
    and "holdings (ws_view (stWallets (syStores st'))) = effect (abs_event ev) (holdings (ws_view (stWallets (syStores st))))"
proof -
  let ?s = "syStores st"
  note ch = Log_recv_Some [OF recv]
  have se: "sys_events st" and ok: "ledger_ok (ws_view (stWallets ?s)) (needCOP st) (needVIB st)"
    using inv by (auto simp: sys_inv_def)
  have new: "eID ev \<notin> set (jr_seen (stJournal ?s))" and ev: "ev_typed ev" "aevent_ok (abs_event ev)"
    using se ch by (auto simp: sys_events_def)
  have n: "needCOP st = (\<lambda>u. needCOP st' u + pendCOP u (abs_event ev))" "needVIB st = (\<lambda>u. needVIB st' u + pendVIB u (abs_event ev))"
    using ch by (auto simp: fun_eq_iff st'_def needCOP_def needVIB_def book_of_def)
  have nn: "0 \<le> needCOP st' u" "0 \<le> needVIB st' u" for u
  proof -
    have "\<forall>x\<in>set (lg_ch l'). aevent_ok (abs_event x)" using se ch by (auto simp: sys_events_def)
    then have "0 \<le> (\<Sum>x\<leftarrow>lg_ch l'. pendCOP u (abs_event x))" "0 \<le> (\<Sum>x\<leftarrow>lg_ch l'. pendVIB u (abs_event x))"
      using pend_nonneg by (intro sum_list_nonneg_map, blast)+
    with parts_nonneg(1-6) [OF inv, of u] show "0 \<le> needCOP st' u" "0 \<le> needVIB st' u"
      unfolding needCOP_def needVIB_def by (simp_all add: st'_def book_of_def)
  qed
  note se' = settle_event [OF ok [unfolded n] nn ev, of c] and hs = handle_settles [OF new, of c t]
  have w: "stWallets (syStores st') = stWallets (apply_event mem_settlement c ev ?s)" by (simp add: st'_def hs)
  have "sys_orders st'"
    using inv by (simp add: sys_inv_def sys_orders_def st'_def book_of_def Let_def)
  moreover have "sys_events st'"
    using se ch hs(2) by (auto simp: sys_events_def st'_def future_ids_def)
  ultimately show "sys_inv st'"
    using inv se' w unfolding sys_inv_def by (simp add: st'_def)
  show "supplyCOP (ws_view (stWallets (syStores st'))) = supplyCOP (ws_view (stWallets ?s))"
    "supplyVIB (ws_view (stWallets (syStores st'))) = supplyVIB (ws_view (stWallets ?s))"
    "holdings (ws_view (stWallets (syStores st'))) = effect (abs_event ev) (holdings (ws_view (stWallets ?s)))"
    unfolding w using se' by simp_all
  show "stLog (syStores st') = stLog ?s" using se' hs(3) by (simp add: st'_def)
qed

lemma inv_Redeliver:
  assumes inv: "sys_inv st" and dup: "eID ev \<in> set (jr_seen (stJournal (syStores st)))"
  shows "sys_inv (st\<lparr>syStores := handle mem_settlement c t ev (syStores st)\<rparr>)"
    and "stWallets (handle mem_settlement c t ev (syStores st)) = stWallets (syStores st)"
proof -
  show w: "stWallets (handle mem_settlement c t ev (syStores st)) = stWallets (syStores st)"
    by (rule mem_marks.handle_duplicate(1)) (simp_all add: dup)
  have "set (jr_seen (stJournal (handle mem_settlement c t ev (syStores st)))) = set (jr_seen (stJournal (syStores st)))"
    using dup by (simp add: handle_def Journal_MarkProcessed_def)
  with w show "sys_inv (st\<lparr>syStores := handle mem_settlement c t ev (syStores st)\<rparr>)"
    by (intro sys_inv_cong [OF inv]) simp_all
qed

lemma ledger_bal_new:
  assumes "ledger_bal v nC nV" and "v u = None" and "COPLocked w = 0" "VibraniumLocked w = 0"
    and "0 \<le> COPAvailable w" "0 \<le> VibraniumAvailable w"
  shows "ledger_bal (v(u \<mapsto> w)) nC nV"
proof -
  have "nC u = 0" "nV u = 0" using ledger_balD(4) [OF assms(1,2)] by auto
  with assms show ?thesis by (auto simp: ledger_bal_def split: option.splits)
qed

lemma inv_Seed:
  assumes inv: "sys_inv st"
    and seed: "Wallets_Seed mem_wallets c u cop vib (stWallets (syStores st)) = (Inr w, ws)"
    and idle: "\<And>w0. ws_view (stWallets (syStores st)) u = Some w0 \<Longrightarrow> COPLocked w0 = 0 \<and> VibraniumLocked w0 = 0"
    and sup: "supplyCOP (ws_view ws) \<le> max_i64" "supplyVIB (ws_view ws) \<le> max_i64"
  shows "sys_inv (st\<lparr>syStores := (syStores st)\<lparr>stWallets := ws\<rparr>\<rparr>)" (is "sys_inv ?st")
proof -
  let ?v = "ws_view (stWallets (syStores st))"
  have bal: "ledger_bal ?v (needCOP st) (needVIB st)" using inv by (simp add: sys_inv_def ledger_ok_def)
  have w: "ws_view ws = ?v(u \<mapsto> w)" "COPLocked w = 0" "VibraniumLocked w = 0" "0 \<le> COPAvailable w" "0 \<le> VibraniumAvailable w"
    using mem_ledger.Seed_view(1) [OF seed refl] by auto
  have "ledger_bal (?v(u \<mapsto> w)) (needCOP st) (needVIB st)"
  proof (cases "?v u")
    case None
    then show ?thesis using w by (intro ledger_bal_new [OF bal]) auto
  next
    case (Some w0)
    with idle have "needCOP st u = 0" "needVIB st u = 0" using ledger_balD(5,6) [OF bal Some] by auto
    with w show ?thesis by (intro ledger_bal_upd [OF bal Some]) auto
  qed
  then have led: "ledger_ok (ws_view ws) (needCOP st) (needVIB st)" using sup by (simp add: ledger_ok_def w(1))
  have "needCOP ?st = needCOP st" "needVIB ?st = needVIB st"
    by (simp_all add: fun_eq_iff needCOP_def needVIB_def book_of_def)
  with led inv show ?thesis
    by (simp add: sys_inv_def sys_orders_def sys_events_def future_ids_def book_of_def Let_def)
qed

lemma inv_Reject:
  assumes inv: "sys_inv st"
    and acc: "accept (mem_trading (sySymbol st)) c bytes t cmd (request_view st) = (Inl res, ts)"
  shows "sys_inv (after_request ts st)"
    and "ws_view (tsWallets ts) = ws_view (stWallets (syStores st))"
proof -
  show v: "ws_view (tsWallets ts) = ws_view (stWallets (syStores st))"
    using mem_ledger.accept_rejected(1) [OF _ acc] by simp
  then show "sys_inv (after_request ts st)" by (intro sys_inv_cong [OF inv]) simp_all
qed

lemma inv_read_commands:
  assumes inv: "sys_inv st"
  shows "sys_inv (st\<lparr>syIn := syIn st @ [cmdCancel i]\<rparr>)" and "sys_inv (st\<lparr>syIn := syIn st @ [cmdSnapshot d]\<rparr>)"
proof -
  have "needCOP (st\<lparr>syIn := syIn st @ [c]\<rparr>) = needCOP st" "needVIB (st\<lparr>syIn := syIn st @ [c]\<rparr>) = needVIB st"
    if "c = cmdCancel i \<or> c = cmdSnapshot d" for c
    using that by (auto simp: fun_eq_iff needCOP_def needVIB_def book_of_def)
  with inv show "sys_inv (st\<lparr>syIn := syIn st @ [cmdCancel i]\<rparr>)" "sys_inv (st\<lparr>syIn := syIn st @ [cmdSnapshot d]\<rparr>)"
    by (simp_all add: sys_inv_def sys_orders_def sys_events_def future_ids_def book_of_def Let_def)
qed

lemma sys_step_inv: "sys_step st st' \<Longrightarrow> sys_inv st \<Longrightarrow> sys_inv st'"
proof (induction rule: sys_step.induct)
  case (Accept st c bytes t cmd o' ts)
  then show ?case by (intro inv_Accept(1))
next
  case (Reject st c bytes t cmd res ts)
  then show ?case by (intro inv_Reject(1))
next
  case (Enqueue st xs o' ys)
  then show ?case by (intro inv_Enqueue)
next
  case (GiveUp st xs o' ys t0 t2 res ts)
  then show ?case by (intro inv_GiveUp(1))
next
  case (EngineStep st cmd cmds reply e' l')
  then show ?case by (intro inv_EngineStep)
next
  case (Settle st ev l' c t)
  then show ?case by (intro inv_Settle(1))
next
  case (Redeliver ev st c t)
  then show ?case by (intro inv_Redeliver(1))
next
  case (Seed c u cop vib st w ws)
  then show ?case by (intro inv_Seed)
qed (simp_all add: inv_read_commands)

lemma inv_init: "sys_inv (init_system symbol buffer producer now booknow)"
proof -
  let ?st = "init_system symbol buffer producer now booknow"
  have B: "book_of ?st = absB (NewOrderBook symbol booknow)" "aids (book_of ?st) = {}"
    by (simp_all add: book_of_def init_system_def NewEngine_def aids_def aorders_def absB_def NewOrderBook_def)
  have "needCOP ?st = (\<lambda>_. 0)" "needVIB ?st = (\<lambda>_. 0)"
    by (simp_all add: fun_eq_iff needCOP_def needVIB_def B restingCOP_def restingVIB_def aorders_def absB_def NewOrderBook_def)
      (simp_all add: init_system_def NewLog_def)
  then have "ledger_ok (ws_view (stWallets (syStores ?st))) (needCOP ?st) (needVIB ?st)"
    by (simp add: ledger_ok_def ledger_bal_def supplyCOP_def supplyVIB_def init_system_def init_stores_def
        NewWalletStore_def ws_view_def)
  moreover have "sys_orders ?st" using B(2) by (simp add: sys_orders_def Let_def init_system_def)
  moreover have "sys_events ?st"
    by (simp add: sys_events_def init_system_def NewEngine_def NewLog_def init_stores_def NewJournal_def)
  moreover have "book_wf (eBook (syEngine ?st))" by (simp add: init_system_def NewEngine_def book_wf_New)
  ultimately show ?thesis by (simp add: sys_inv_def)
qed

lemma reachable_inv:
  "reachable (init_system symbol buffer producer now booknow) st \<Longrightarrow> sys_inv st"
  by (induction rule: reachable.induct) (auto intro: inv_init sys_step_inv)

end
