(* ===== verification/Progress.thy ===== *)
theory Progress
  imports Safety
begin

section \<open>More about reachable states: the supply, the logs, progress\<close>

text \<open>
  What follows from the invariant of the running system: only seeding changes the money
  supply, settlement logs nothing but duplicates, each user's wallet stays under its user,
  the engine answers every command, and what it has published can always be settled.
\<close>

definition seeded :: "system \<Rightarrow> system \<Rightarrow> bool" where
  "seeded st st' \<longleftrightarrow> (\<exists>c u cop vib w. Wallets_Seed mem_wallets c u cop vib (stWallets (syStores st)) = (Inr w, stWallets (syStores st')))"

definition supply_of :: "system \<Rightarrow> int \<times> int" where
  "supply_of st = (supplyCOP (ws_view (stWallets (syStores st))), supplyVIB (ws_view (stWallets (syStores st))))"

lemma sys_step_supply: "sys_step st st' \<Longrightarrow> sys_inv st \<Longrightarrow> supply_of st' = supply_of st \<or> seeded st st'"
proof (induction rule: sys_step.induct)
  case (Accept st c bytes t cmd o' ts)
  then show ?case using inv_Accept(2,3) [OF Accept(4,1,2,3)] by (simp add: supply_of_def)
next
  case (Reject st c bytes t cmd res ts)
  then show ?case using inv_Reject(2) by (simp add: supply_of_def)
next
  case (GiveUp st xs o' ys t0 t2 res ts)
  then show ?case using inv_GiveUp(2,3) [OF GiveUp(3,1,2)] by (simp add: supply_of_def)
next
  case (Settle st ev l' c t)
  then show ?case using inv_Settle(2,3) [OF Settle(2,1)] by (simp add: supply_of_def)
next
  case (Redeliver ev st c t)
  then show ?case using inv_Redeliver(2) [OF Redeliver(2,1)] by (simp add: supply_of_def)
next
  case (Seed c u cop vib st w ws)
  then show ?case by (auto simp: seeded_def)
qed (simp_all add: supply_of_def)

subsection \<open>The log of settlement\<close>

fun duplicate_note :: "log_line \<Rightarrow> bool" where
  "duplicate_note (LogDuplicate i) = True"
| "duplicate_note _ = False"

definition only_duplicates :: "system \<Rightarrow> bool" where
  "only_duplicates st \<longleftrightarrow> (\<forall>l\<in>set (stLog (syStores st)). duplicate_note l)"

lemma sys_step_log: "sys_step st st' \<Longrightarrow> sys_inv st \<Longrightarrow> only_duplicates st \<Longrightarrow> only_duplicates st'"
proof (induction rule: sys_step.induct)
  case (Settle st ev l' c t)
  then show ?case using inv_Settle(4) [OF Settle(2,1)] by (simp add: only_duplicates_def)
next
  case (Redeliver ev st c t)
  then have "stLog (handle mem_settlement c t ev (syStores st)) = stLog (syStores st) @ [LogDuplicate (eID ev)]"
    by (simp add: handle_def Journal_MarkProcessed_def)
  with Redeliver show ?case by (auto simp: only_duplicates_def)
qed (simp_all add: only_duplicates_def)

lemma reachable_log:
  "reachable (init_system symbol buffer producer now booknow) st \<Longrightarrow> only_duplicates st"
proof (induction rule: reachable.induct)
  case Start
  then show ?case by (simp add: only_duplicates_def init_system_def init_stores_def)
next
  case (Step st st')
  then show ?case using sys_step_log reachable_inv by blast
qed

subsection \<open>Each wallet under its user\<close>

lemma settle_user [simp]:
  "wUserID (snd (SettleBuy a b w)) = wUserID w" "wUserID (snd (SettleSell a b w)) = wUserID w"
  "wUserID (snd (ReleaseCOP a w)) = wUserID w" "wUserID (snd (ReleaseVibranium a w)) = wUserID w"
  by (auto simp: wallet_ops_defs)

lemma ws_wf_apply_event:
  assumes "ws_wf (stWallets s)"
  shows "ws_wf (stWallets (apply_event mem_settlement c ev s))"
proof (cases "eType ev")
  case EventTrade
  then show ?thesis using assms
    by (cases "eTrade ev") (simp_all add: apply_event_def applyTrade_wallets ws_wf_Update, simp add: applyTrade_def)
next
  case EventOrderUpdated
  then show ?thesis using assms
    by (cases "eOrder ev") (simp_all add: apply_event_def applyOrderUpdate_def ws_wf_Update Let_def)
next
  case EventOrderAccepted
  then show ?thesis using assms by (cases "eOrder ev") (simp_all add: apply_event_def)
qed

lemma ws_wf_handle: "ws_wf (stWallets s) \<Longrightarrow> ws_wf (stWallets (handle mem_settlement c t ev s))"
  using ws_wf_apply_event [of "s\<lparr>stJournal := j\<rparr>" c ev for j]
  by (simp add: handle_def Journal_MarkProcessed_def Let_def)

lemma ws_wf_accept:
  assumes "ws_wf (tsWallets s)" and "accept (mem_trading sy) c bytes t cmd s = (r, ts)"
  shows "ws_wf (tsWallets ts)"
proof -
  obtain err s2 where r: "reserve (mem_trading sy) c (new_order sy bytes t cmd) s = (err, s2)" by fastforce
  then have "tsWallets s2 = snd (WalletStore_Update c (pcUserID cmd) (reserve_fn (new_order sy bytes t cmd)) (tsWallets s))"
    by (auto simp: reserve_def mem_trading_unfold split: prod.splits)
  then have "ws_wf (tsWallets s2)" using assms(1) by (simp add: ws_wf_Update)
  then show ?thesis using assms r
    by (auto simp: accept_def observe_def Let_def split: option.splits if_splits)
qed

lemma sys_step_ws_wf: "sys_step st st' \<Longrightarrow> ws_wf (stWallets (syStores st)) \<Longrightarrow> ws_wf (stWallets (syStores st'))"
proof (induction rule: sys_step.induct)
  case (Accept st c bytes t cmd o' ts)
  then show ?case using ws_wf_accept [of "request_view st"] by simp
next
  case (Reject st c bytes t cmd res ts)
  then show ?case using ws_wf_accept [of "request_view st"] by simp
next
  case (GiveUp st xs o' ys t0 t2 res ts)
  then have "tsWallets ts = snd (WalletStore_Update CtxLive (oUserID o') (release_fn o') (stWallets (syStores st)))"
    by (auto simp: complete_def release_def observe_def)
  then show ?case using GiveUp by (simp add: ws_wf_Update)
next
  case (Seed c u cop vib st w ws)
  then show ?case
    using ws_wf_Upsert by (auto simp: Wallets_Seed_def Let_def split: if_splits prod.splits option.splits) (metis snd_conv)
qed (simp_all add: ws_wf_handle)

lemma reachable_ws_wf:
  "reachable (init_system symbol buffer producer now booknow) st \<Longrightarrow> ws_wf (stWallets (syStores st))"
  by (induction rule: reachable.induct) (auto simp: init_system_def init_stores_def ws_wf_New sys_step_ws_wf)

subsection \<open>Progress\<close>

lemma engine_answers:
  assumes "sys_inv st" and "syIn st = cmd # cmds"
  shows "\<exists>reply e' l'. handle_command mem_log cmd (syEngine st, syLog st) = Some (reply, e', l')"
proof -
  have wf: "book_wf (eBook (syEngine st))" and op: "\<not> lg_closed (syLog st)" and so: "sys_orders st"
    using assms by (auto simp: sys_inv_def sys_events_def)
  have "valid_new o' \<and> orders (eBook (syEngine st)) (oID o') = None" if "cmd = cmdPlace o'" for o'
  proof -
    have "oID o' \<notin> aids (book_of st)" "valid_new o'" using so that by (auto simp: sys_orders_def Let_def assms(2))
    then show ?thesis
      using wf book_core_new_id [of "eBook (syEngine st)" "oID o'"] by (auto simp: book_wf_def aids_def book_of_def)
  qed
  then show ?thesis using mem_sink.handle_command_works [OF wf op, of cmd] by blast
qed

lemma reachable_trans: "reachable s1 s2 \<Longrightarrow> reachable s0 s1 \<Longrightarrow> reachable s0 s2"
  by (induction rule: reachable.induct) (auto intro: reachable.intros)

text \<open>Settlement can empty the log from any state, and touches neither the engine nor the requests.\<close>

lemma settlement_drains:
  "\<exists>st'. reachable st st' \<and> lg_ch (syLog st') = [] \<and> syEngine st' = syEngine st \<and> syIn st' = syIn st
    \<and> sySubmitting st' = sySubmitting st"
proof (induction "length (lg_ch (syLog st))" arbitrary: st)
  case 0
  then show ?case using reachable.Start by auto
next
  case (Suc n)
  then obtain ev evs where ch: "lg_ch (syLog st) = ev # evs" by (cases "lg_ch (syLog st)") auto
  let ?st1 = "st\<lparr>syLog := (syLog st)\<lparr>lg_ch := evs\<rparr>, syStores := handle mem_settlement CtxLive 0 ev (syStores st)\<rparr>"
  have s: "sys_step st ?st1" by (rule sys_step.Settle) (simp add: Log_recv_def ch)
  have "n = length (lg_ch (syLog ?st1))" using Suc(2) ch by simp
  from Suc(1) [OF this] obtain st' where "reachable ?st1 st'" "lg_ch (syLog st') = []" "syEngine st' = syEngine st"
    "syIn st' = syIn st" "sySubmitting st' = sySubmitting st" by auto
  moreover have "reachable st ?st1" using reachable.Step [OF reachable.Start s] .
  ultimately show ?case using reachable_trans by blast
qed

subsection \<open>Trading without seeding\<close>

inductive trading_run :: "system \<Rightarrow> system \<Rightarrow> bool" for st0 where
  Here: "trading_run st0 st0"
| Then: "trading_run st0 st \<Longrightarrow> sys_step st st' \<Longrightarrow> \<not> seeded st st' \<Longrightarrow> trading_run st0 st'"

lemma trading_run_supply:
  assumes "trading_run st0 st" and "reachable (init_system symbol buffer producer now booknow) st0"
  shows "reachable (init_system symbol buffer producer now booknow) st \<and> supply_of st = supply_of st0"
  using assms
proof (induction rule: trading_run.induct)
  case (Then st st')
  then have r: "reachable (init_system symbol buffer producer now booknow) st" by simp
  with Then sys_step_supply [OF Then.hyps(2) reachable_inv [OF r]] show ?case
    using reachable.Step [OF r Then.hyps(2)] by simp
qed simp

end
