(* ===== verification/Exchange.thy ===== *)
theory Exchange
  imports Progress
begin

section \<open>The service as one atomic exchange\<close>

text \<open>
  What the whole service promises, without goroutines, log, journal, locked balances or machine
  integers: users who hold COP and Vibranium, a book of two lists, and orders on their way into it.
  Each step is atomic: an order is matched and paid for at once. Then the proof that the running
  system of \<open>System\<close> refines it: a step of the system is one step of the exchange or none, and
  when settlement has caught up, the wallets are the accounts of the exchange.
\<close>

record exchange =
  xHolds :: holding_view
  xBook :: abook
  xWaiting :: "aorder multiset"

text \<open>What the orders of a user may still cost, on their way or resting.\<close>

definition owedCOP :: "string \<Rightarrow> exchange \<Rightarrow> int" where
  "owedCOP u X = (\<Sum>x\<in>#xWaiting X. cop_of u x) + restingCOP u (xBook X)"

definition owedVIB :: "string \<Rightarrow> exchange \<Rightarrow> int" where
  "owedVIB u X = (\<Sum>x\<in>#xWaiting X. vib_of u x) + restingVIB u (xBook X)"

definition xIDs :: "exchange \<Rightarrow> string set" where
  "xIDs X = aID ` set_mset (xWaiting X) \<union> aids (xBook X)"

text \<open>Every fill of a taker is paid for.\<close>

definition pay_fills :: "aorder \<Rightarrow> afills \<Rightarrow> holding_view \<Rightarrow> holding_view" where
  "pay_fills x = fold (\<lambda>(m, q). pay (abuyer x m) (aseller x m) (aPrice m * q) q)"

inductive exch_step :: "exchange \<Rightarrow> exchange \<Rightarrow> bool" where
  xFund: "owedCOP u X = 0 \<Longrightarrow> owedVIB u X = 0 \<Longrightarrow> 0 \<le> c \<Longrightarrow> 0 \<le> v \<Longrightarrow>
     exch_step X (X\<lparr>xHolds := (xHolds X)(u \<mapsto> (c, v))\<rparr>)"
| xAccept: "xHolds X (aUser x) = Some (c, v) \<Longrightarrow> anew x \<Longrightarrow> aID x \<notin> xIDs X \<Longrightarrow>
     owedCOP (aUser x) X + cop_of (aUser x) x \<le> c \<Longrightarrow> owedVIB (aUser x) X + vib_of (aUser x) x \<le> v \<Longrightarrow>
     exch_step X (X\<lparr>xWaiting := add_mset x (xWaiting X)\<rparr>)"
| xWithdraw: "xWaiting X = add_mset x W \<Longrightarrow> exch_step X (X\<lparr>xWaiting := W\<rparr>)"
| xMatch: "xWaiting X = add_mset x W \<Longrightarrow> aPlace x (xBook X) = (x', fs, rel, B) \<Longrightarrow>
     exch_step X \<lparr>xHolds = pay_fills x fs (xHolds X), xBook = B, xWaiting = W\<rparr>"
| xCancel: "aCancel i (xBook X) = Some (x, B) \<Longrightarrow> exch_step X (X\<lparr>xBook := B\<rparr>)"

definition empty_exchange :: exchange where
  "empty_exchange = \<lparr>xHolds = (\<lambda>_. None), xBook = \<lparr>aBids = [], aAsks = []\<rparr>, xWaiting = {#}\<rparr>"

inductive exch_run :: "exchange \<Rightarrow> bool" where
  exch_start: "exch_run empty_exchange"
| exch_next: "exch_run X \<Longrightarrow> exch_step X X' \<Longrightarrow> exch_run X'"

subsection \<open>The exchange is solvent\<close>

text \<open>Everyone can pay for all of his orders at once, and the book is in order.\<close>

definition exch_inv :: "exchange \<Rightarrow> bool" where
  "exch_inv X \<longleftrightarrow> abook_wf (xBook X) \<and> (\<forall>x\<in>#xWaiting X. anew x)
     \<and> (\<forall>i. Multiset.count (image_mset aID (xWaiting X)) i \<le> 1) \<and> aID ` set_mset (xWaiting X) \<inter> aids (xBook X) = {}
     \<and> (\<forall>u. case xHolds X u of None \<Rightarrow> owedCOP u X = 0 \<and> owedVIB u X = 0
            | Some (c, v) \<Rightarrow> owedCOP u X \<le> c \<and> owedVIB u X \<le> v)"

lemma anew_worth: "anew x \<Longrightarrow> 0 \<le> cop_of u x \<and> 0 \<le> vib_of u x"
  by (auto simp: anew_def cop_of_def vib_of_def arem_def)

lemma pay_fills_Some:
  "pay_fills x fs H u = map_option (\<lambda>(c, v).
     (c + (\<Sum>(m, q)\<leftarrow>fs. if aseller x m = u then aPrice m * q else 0) - spentCOP u x fs,
      v + (\<Sum>(m, q)\<leftarrow>fs. if abuyer x m = u then q else 0) - deliveredVIB u x fs)) (H u)"
proof (induction fs arbitrary: H)
  case Nil
  then show ?case by (simp add: pay_fills_def spentCOP_def deliveredVIB_def option.map_ident split: option.split)
next
  case (Cons f fs)
  obtain m q where f: "f = (m, q)" by (cases f)
  have "pay_fills x (f # fs) H u = pay_fills x fs (pay (abuyer x m) (aseller x m) (aPrice m * q) q H) u"
    by (simp add: pay_fills_def f)
  also note Cons.IH
  finally show ?case
    by (cases "H u") (auto simp: pay_def f spentCOP_def deliveredVIB_def)
qed

lemma waiting_unique:
  assumes "exch_inv X" and "xWaiting X = add_mset x W"
  shows "aID x \<notin> aID ` set_mset W" and "aID x \<notin> aids (xBook X)" and "anew x"
    and "\<forall>i. Multiset.count (image_mset aID W) i \<le> 1"
proof -
  have c: "Multiset.count (image_mset aID (add_mset x W)) i \<le> 1" for i using assms by (simp add: exch_inv_def)
  have "Multiset.count (image_mset aID W) (aID x) = 0" using c [of "aID x"] by simp
  then have "aID x \<notin># image_mset aID W" by (simp only: count_eq_zero_iff not_False_eq_True)
  then show "aID x \<notin> aID ` set_mset W" unfolding set_image_mset .
  show "\<forall>i. Multiset.count (image_mset aID W) i \<le> 1"
  proof
    fix i
    have "Multiset.count (image_mset aID W) i \<le> Multiset.count (image_mset aID (add_mset x W)) i" by simp
    with c [of i] show "Multiset.count (image_mset aID W) i \<le> 1" by linarith
  qed
  show "aID x \<notin> aids (xBook X)" "anew x" using assms by (auto simp: exch_inv_def)
qed

lemma waiting_nonneg:
  assumes "\<forall>x\<in>#W. anew x"
  shows "0 \<le> (\<Sum>x\<in>#W. cop_of u x)" and "0 \<le> (\<Sum>x\<in>#W. vib_of u x)"
proof -
  have "0 \<le> (\<Sum>x\<in>#W. cop_of u x) \<and> 0 \<le> (\<Sum>x\<in>#W. vib_of u x)"
    using assms by (induction W) (auto dest: anew_worth [of _ u])
  then show "0 \<le> (\<Sum>x\<in>#W. cop_of u x)" "0 \<le> (\<Sum>x\<in>#W. vib_of u x)" by auto
qed

lemma owed_nonneg:
  assumes "exch_inv X"
  shows "0 \<le> owedCOP u X" and "0 \<le> owedVIB u X"
  using assms waiting_nonneg [of "xWaiting X" u] resting_nonneg [of "xBook X" u]
  by (auto simp: exch_inv_def owedCOP_def owedVIB_def)

text \<open>Matching: what a user owes goes down by at least what his fills cost him.\<close>

lemma match_solvent:
  assumes inv: "exch_inv X" and W: "xWaiting X = add_mset x W" and pl: "aPlace x (xBook X) = (x', fs, rel, B)"
  defines "X' \<equiv> \<lparr>xHolds = pay_fills x fs (xHolds X), xBook = B, xWaiting = W\<rparr>"
  shows "owedCOP u X' + spentCOP u x fs \<le> owedCOP u X" and "owedVIB u X' + deliveredVIB u x fs \<le> owedVIB u X"
    and "0 \<le> spentCOP u x fs" and "0 \<le> deliveredVIB u x fs"
    and "0 \<le> (\<Sum>(m, q)\<leftarrow>fs. if aseller x m = u then aPrice m * q else 0)" and "0 \<le> (\<Sum>(m, q)\<leftarrow>fs. if abuyer x m = u then q else 0)"
proof -
  note x = waiting_unique(3) [OF inv W]
  have side: "aSide x = Buy \<or> aSide x = Sell" and B: "abook_wf (xBook X)" using x inv by (auto simp: anew_def exch_inv_def)
  obtain ms' where m: "amatch x (aopposite x (xBook X)) = (x', fs, ms')" and rel: "rel = arelease x fs"
    by (rule aPlaceE [OF pl])
  have opp: "aside_wf (aSide x = Sell) (aopposite x (xBook X))"
    using B side by (auto simp: aopposite_def abook_wf_def)
  have f: "0 < aPrice m \<and> 0 < q \<and> acrosses x (aPrice m)" if "(m, q) \<in> set fs" for m q
    using fills_ok [OF m x opp] that by auto
  have "0 \<le> rel" unfolding rel by (rule arelease_nonneg) (use f in auto)
  note sides = abook_sides [OF B, THEN conjunct1] abook_sides [OF B, THEN conjunct2]
  with \<open>0 \<le> rel\<close> aPlace_collateral_COP [OF side sides pl, of u] aPlace_collateral_VIB [OF side sides pl, of u]
  show "owedCOP u X' + spentCOP u x fs \<le> owedCOP u X" "owedVIB u X' + deliveredVIB u x fs \<le> owedVIB u X"
    by (auto simp: owedCOP_def owedVIB_def W X'_def split: if_splits)
  have nn: "0 \<le> (\<Sum>(m, q)\<leftarrow>fs. if P m then aPrice m * q else 0) \<and> 0 \<le> (\<Sum>(m, q)\<leftarrow>fs. if P m then q else 0)" for P
    using f by (fastforce intro!: sum_list_nonneg_map mult_nonneg_nonneg)
  then show "0 \<le> spentCOP u x fs" "0 \<le> deliveredVIB u x fs"
    "0 \<le> (\<Sum>(m, q)\<leftarrow>fs. if aseller x m = u then aPrice m * q else 0)"
    "0 \<le> (\<Sum>(m, q)\<leftarrow>fs. if abuyer x m = u then q else 0)"
    by (auto simp: spentCOP_def deliveredVIB_def)
qed

lemma exch_invI:
  assumes "abook_wf (xBook X)" and "\<forall>x\<in>#xWaiting X. anew x"
    and "\<forall>i. Multiset.count (image_mset aID (xWaiting X)) i \<le> 1" and "aID ` set_mset (xWaiting X) \<inter> aids (xBook X) = {}"
    and "\<And>u. xHolds X u = None \<Longrightarrow> owedCOP u X = 0 \<and> owedVIB u X = 0"
    and "\<And>u c v. xHolds X u = Some (c, v) \<Longrightarrow> owedCOP u X \<le> c \<and> owedVIB u X \<le> v"
  shows "exch_inv X"
  using assms by (auto simp: exch_inv_def split: option.split)

lemma exch_invD:
  assumes "exch_inv X"
  shows "abook_wf (xBook X)" and "x \<in># xWaiting X \<Longrightarrow> anew x" and "x \<in># xWaiting X \<Longrightarrow> aID x \<notin> aids (xBook X)"
    and "xHolds X u = None \<Longrightarrow> owedCOP u X = 0" and "xHolds X u = None \<Longrightarrow> owedVIB u X = 0"
    and "xHolds X u = Some (c, v) \<Longrightarrow> owedCOP u X \<le> c" and "xHolds X u = Some (c, v) \<Longrightarrow> owedVIB u X \<le> v"
    and "Multiset.count (image_mset aID (xWaiting X)) i \<le> 1"
proof -
  have "case xHolds X u of None \<Rightarrow> owedCOP u X = 0 \<and> owedVIB u X = 0 | Some (c, v) \<Rightarrow> owedCOP u X \<le> c \<and> owedVIB u X \<le> v"
    using assms by (simp add: exch_inv_def)
  then show "xHolds X u = None \<Longrightarrow> owedCOP u X = 0" "xHolds X u = None \<Longrightarrow> owedVIB u X = 0"
    "xHolds X u = Some (c, v) \<Longrightarrow> owedCOP u X \<le> c" "xHolds X u = Some (c, v) \<Longrightarrow> owedVIB u X \<le> v" by auto
qed (use assms in \<open>auto simp: exch_inv_def\<close>)

lemma exch_inv_match:
  assumes inv: "exch_inv X" and W: "xWaiting X = add_mset x W" and pl: "aPlace x (xBook X) = (x', fs, rel, B)"
  shows "exch_inv \<lparr>xHolds = pay_fills x fs (xHolds X), xBook = B, xWaiting = W\<rparr>" (is "exch_inv ?X")
proof (rule exch_invI)
  note u = waiting_unique [OF inv W] and D = exch_invD [OF inv]
  have fresh: "aID x \<notin> set (map aID (aorders (xBook X)))" using u(2) by (simp add: aids_def)
  show "abook_wf (xBook ?X)" using aPlace_wf [OF D(1) u(3) fresh pl] by simp
  show "\<forall>y\<in>#xWaiting ?X. anew y" "\<forall>i. Multiset.count (image_mset aID (xWaiting ?X)) i \<le> 1"
    using D(2) u(4) by (auto simp: W)
  have "aids B \<subseteq> insert (aID x) (aids (xBook X))" by (rule aPlace_ids [OF pl])
  moreover have "aID y \<notin> insert (aID x) (aids (xBook X))" if "y \<in># W" for y
  proof -
    have "aID y \<noteq> aID x" using that u(1) by (metis imageI)
    with D(3) [of y] that show ?thesis by (auto simp: W)
  qed
  ultimately show "aID ` set_mset (xWaiting ?X) \<inter> aids (xBook ?X) = {}" by auto
  note m = match_solvent [OF inv W pl]
  show "owedCOP a ?X = 0 \<and> owedVIB a ?X = 0" if "xHolds ?X a = None" for a
  proof -
    have "xHolds X a = None" using that by (simp add: pay_fills_Some)
    from D(4,5) [OF this] have "owedCOP a ?X \<le> 0" "owedVIB a ?X \<le> 0" using m [of a] by linarith+
    moreover have "0 \<le> owedCOP a ?X" "0 \<le> owedVIB a ?X"
      using waiting_nonneg [of W a] resting_nonneg [OF aPlace_wf [OF D(1) u(3) fresh pl], of a] D(2)
      by (auto simp: owedCOP_def owedVIB_def W)
    ultimately show ?thesis by simp
  qed
  show "owedCOP a ?X \<le> c \<and> owedVIB a ?X \<le> v" if h': "xHolds ?X a = Some (c, v)" for a c v
  proof -
    obtain c0 v0 where h: "xHolds X a = Some (c0, v0)" using h' by (auto simp: pay_fills_Some)
    with h' have "c = c0 + (\<Sum>(m, q)\<leftarrow>fs. if aseller x m = a then aPrice m * q else 0) - spentCOP a x fs"
      "v = v0 + (\<Sum>(m, q)\<leftarrow>fs. if abuyer x m = a then q else 0) - deliveredVIB a x fs" by (auto simp: pay_fills_Some)
    with D(6,7) [OF h] m [of a] show ?thesis by linarith
  qed
qed

lemma exch_inv_accept:
  assumes inv: "exch_inv X" and h: "xHolds X (aUser x) = Some (c, v)" and x: "anew x" and new: "aID x \<notin> xIDs X"
    and le: "owedCOP (aUser x) X + cop_of (aUser x) x \<le> c" "owedVIB (aUser x) X + vib_of (aUser x) x \<le> v"
  shows "exch_inv (X\<lparr>xWaiting := add_mset x (xWaiting X)\<rparr>)" (is "exch_inv ?X")
proof (rule exch_invI)
  note D = exch_invD [OF inv]
  have o: "owedCOP a ?X = owedCOP a X + cop_of a x" "owedVIB a ?X = owedVIB a X + vib_of a x" for a
    by (simp_all add: owedCOP_def owedVIB_def)
  have other: "cop_of a x = 0" "vib_of a x = 0" if "a \<noteq> aUser x" for a using that by (auto simp: cop_of_def vib_of_def)
  show "abook_wf (xBook ?X)" "\<forall>y\<in>#xWaiting ?X. anew y" using D(1,2) x by auto
  have "aID x \<notin># image_mset aID (xWaiting X)" using new unfolding xIDs_def set_image_mset by blast
  then have nx: "Multiset.count (image_mset aID (xWaiting X)) (aID x) = 0" by (simp only: count_eq_zero_iff not_False_eq_True)
  show "\<forall>i. Multiset.count (image_mset aID (xWaiting ?X)) i \<le> 1"
    using D(8) nx by simp
  show "aID ` set_mset (xWaiting ?X) \<inter> aids (xBook ?X) = {}" using D(3) new by (auto simp: xIDs_def)
  show "owedCOP a ?X = 0 \<and> owedVIB a ?X = 0" if "xHolds ?X a = None" for a
    using that h D(4,5) [of a] other [of a] by (cases "a = aUser x") (auto simp: o)
  show "owedCOP a ?X \<le> c' \<and> owedVIB a ?X \<le> v'" if "xHolds ?X a = Some (c', v')" for a c' v'
    using that h le D(6,7) [of a c' v'] other [of a] by (cases "a = aUser x") (auto simp: o)
qed

lemma exch_step_inv: "exch_step X X' \<Longrightarrow> exch_inv X \<Longrightarrow> exch_inv X'"
proof (induction rule: exch_step.induct)
  case (xFund u X c v)
  note D = exch_invD [OF xFund.prems]
  have o: "owedCOP a (X\<lparr>xHolds := H\<rparr>) = owedCOP a X" "owedVIB a (X\<lparr>xHolds := H\<rparr>) = owedVIB a X" for a H
    by (simp_all add: owedCOP_def owedVIB_def)
  show ?case
  proof (rule exch_invI)
    fix a
    show "owedCOP a (X\<lparr>xHolds := (xHolds X)(u \<mapsto> (c, v))\<rparr>) = 0 \<and> owedVIB a (X\<lparr>xHolds := (xHolds X)(u \<mapsto> (c, v))\<rparr>) = 0"
      if "xHolds (X\<lparr>xHolds := (xHolds X)(u \<mapsto> (c, v))\<rparr>) a = None"
      using that D(4,5) [of a] by (simp add: o split: if_splits)
    show "owedCOP a (X\<lparr>xHolds := (xHolds X)(u \<mapsto> (c, v))\<rparr>) \<le> c' \<and> owedVIB a (X\<lparr>xHolds := (xHolds X)(u \<mapsto> (c, v))\<rparr>) \<le> v'"
      if "xHolds (X\<lparr>xHolds := (xHolds X)(u \<mapsto> (c, v))\<rparr>) a = Some (c', v')" for c' v'
      using that D(6,7) [of a c' v'] xFund.hyps by (auto simp: o split: if_splits)
  qed (use D(1-3,8) in auto)
next
  case (xAccept X x c v)
  then show ?case by (intro exch_inv_accept)
next
  case (xWithdraw X x W)
  note D = exch_invD [OF xWithdraw.prems]
  have le: "owedCOP u (X\<lparr>xWaiting := W\<rparr>) \<le> owedCOP u X \<and> owedVIB u (X\<lparr>xWaiting := W\<rparr>) \<le> owedVIB u X" for u
    using anew_worth [OF waiting_unique(3) [OF xWithdraw.prems xWithdraw.hyps], of u]
    by (simp add: owedCOP_def owedVIB_def xWithdraw.hyps)
  have nn: "0 \<le> owedCOP u (X\<lparr>xWaiting := W\<rparr>) \<and> 0 \<le> owedVIB u (X\<lparr>xWaiting := W\<rparr>)" for u
    using waiting_nonneg [of W u] resting_nonneg [OF D(1), of u] D(2) by (auto simp: owedCOP_def owedVIB_def xWithdraw.hyps)
  show ?case
  proof (rule exch_invI)
    show "\<forall>i. Multiset.count (image_mset aID (xWaiting (X\<lparr>xWaiting := W\<rparr>))) i \<le> 1"
      using waiting_unique(4) [OF xWithdraw.prems xWithdraw.hyps] by simp
    show "aID ` set_mset (xWaiting (X\<lparr>xWaiting := W\<rparr>)) \<inter> aids (xBook (X\<lparr>xWaiting := W\<rparr>)) = {}"
      using D(3) by (auto simp: xWithdraw.hyps)
    show "owedCOP u (X\<lparr>xWaiting := W\<rparr>) = 0 \<and> owedVIB u (X\<lparr>xWaiting := W\<rparr>) = 0" if "xHolds (X\<lparr>xWaiting := W\<rparr>) u = None" for u
      using le [of u] nn [of u] D(4,5) [of u] that by simp
    show "owedCOP u (X\<lparr>xWaiting := W\<rparr>) \<le> c \<and> owedVIB u (X\<lparr>xWaiting := W\<rparr>) \<le> v"
      if "xHolds (X\<lparr>xWaiting := W\<rparr>) u = Some (c, v)" for u c v
      using le [of u] D(6,7) [of u c v] that by simp
  qed (use D(1,2) in \<open>auto simp: xWithdraw.hyps\<close>)
next
  case (xMatch X x W x' fs rel B)
  then show ?case by (intro exch_inv_match)
next
  case (xCancel i X x B)
  note D = exch_invD [OF xCancel.prems]
  have wf: "abook_wf B" by (rule aCancel_wf [OF D(1) xCancel.hyps])
  have x: "x \<in> set (aorders (xBook X))" and ids: "aids B \<subseteq> aids (xBook X)"
    using aCancel_collateral(3) [OF D(1) xCancel.hyps] aCancel_ids [OF xCancel.hyps] by auto
  then obtain bid where "aresting bid x" using D(1) by (auto simp: aorders_def abook_wf_def aside_wf_def)
  then have le: "owedCOP u (X\<lparr>xBook := B\<rparr>) \<le> owedCOP u X \<and> owedVIB u (X\<lparr>xBook := B\<rparr>) \<le> owedVIB u X" for u
    using aCancel_collateral(1,2) [OF D(1) xCancel.hyps, of u] cop_vib_nonneg [of bid x u]
    by (simp add: owedCOP_def owedVIB_def)
  have nn: "0 \<le> owedCOP u (X\<lparr>xBook := B\<rparr>) \<and> 0 \<le> owedVIB u (X\<lparr>xBook := B\<rparr>)" for u
    using waiting_nonneg [of "xWaiting X" u] resting_nonneg [OF wf, of u] D(2) by (auto simp: owedCOP_def owedVIB_def)
  show ?case
  proof (rule exch_invI)
    show "aID ` set_mset (xWaiting (X\<lparr>xBook := B\<rparr>)) \<inter> aids (xBook (X\<lparr>xBook := B\<rparr>)) = {}"
      using D(3) ids by auto
    show "owedCOP u (X\<lparr>xBook := B\<rparr>) = 0 \<and> owedVIB u (X\<lparr>xBook := B\<rparr>) = 0" if "xHolds (X\<lparr>xBook := B\<rparr>) u = None" for u
      using le [of u] nn [of u] D(4,5) [of u] that by simp
    show "owedCOP u (X\<lparr>xBook := B\<rparr>) \<le> c \<and> owedVIB u (X\<lparr>xBook := B\<rparr>) \<le> v"
      if "xHolds (X\<lparr>xBook := B\<rparr>) u = Some (c, v)" for u c v
      using le [of u] D(6,7) [of u c v] that by simp
  qed (use D(2,8) wf in auto)
qed

lemma exch_run_inv: "exch_run X \<Longrightarrow> exch_inv X"
proof (induction rule: exch_run.induct)
  case exch_start
  show ?case
    by (simp add: exch_inv_def empty_exchange_def abook_wf_def aside_wf_def uncrossed_def aorders_def aids_def
        owedCOP_def owedVIB_def restingCOP_def restingVIB_def)
qed (rule exch_step_inv)

subsection \<open>The system as an exchange\<close>

text \<open>The accounts are the wallets after every event that is still in the log.\<close>

definition exch_of :: "system \<Rightarrow> exchange" where
  "exch_of st = \<lparr>xHolds = fold effect (map abs_event (lg_ch (syLog st))) (holdings (ws_view (stWallets (syStores st)))),
     xBook = book_of st, xWaiting = mset (map absO (sySubmitting st @ placed (syIn st)))\<rparr>"

lemma fold_effect_fills: "fold effect (afill_events x fs @ [AUpdate x' rel rv]) H = pay_fills x fs H"
  by (induction fs arbitrary: H) (auto simp: afill_events_def pay_fills_def)

text \<open>Who is not party to a trade is not touched by it; who pays, pays what he had locked for it.\<close>

lemma fold_effect_upd:
  assumes "\<And>ev. ev \<in> set evs \<Longrightarrow> aevent_ok ev \<and> pendCOP u ev = 0 \<and> pendVIB u ev = 0"
  shows "fold effect evs (H(u \<mapsto> h)) = (fold effect evs H)(u \<mapsto> h)"
  using assms
proof (induction evs arbitrary: H)
  case (Cons ev evs)
  have "effect ev (H(u \<mapsto> h)) = (effect ev H)(u \<mapsto> h)"
  proof (cases ev)
    case (ATrade b s p q)
    then have "0 < p" "0 < q" "b \<noteq> u" "s \<noteq> u"
      using Cons.prems [of ev] by (auto simp: aevent_ok_def pendCOP_def pendVIB_def split: if_splits)
    then show ?thesis by (auto simp: ATrade pay_def fun_eq_iff)
  qed simp
  then have "fold effect (ev # evs) (H(u \<mapsto> h)) = fold effect evs ((effect ev H)(u \<mapsto> h))"
    by (simp only: fold.simps o_apply)
  also have "\<dots> = (fold effect evs (effect ev H))(u \<mapsto> h)" by (rule Cons.IH) (use Cons.prems in auto)
  finally show ?case by (simp only: fold.simps o_apply)
qed simp

lemma fold_effect_ge:
  assumes "\<And>ev. ev \<in> set evs \<Longrightarrow> aevent_ok ev" and "H u = Some (c, v)"
  shows "\<exists>c' v'. fold effect evs H u = Some (c', v') \<and> c - (\<Sum>ev\<leftarrow>evs. pendCOP u ev) \<le> c'
    \<and> v - (\<Sum>ev\<leftarrow>evs. pendVIB u ev) \<le> v'"
  using assms
proof (induction evs arbitrary: H c v)
  case (Cons ev evs)
  have "aevent_ok ev" using Cons.prems(1) by simp
  then have "\<exists>c1 v1. effect ev H u = Some (c1, v1) \<and> c - pendCOP u ev \<le> c1 \<and> v - pendVIB u ev \<le> v1"
    using Cons.prems(2) by (cases ev) (auto simp: pay_def pendCOP_def pendVIB_def aevent_ok_def)
  then obtain c1 v1 where 1: "effect ev H u = Some (c1, v1)" "c - pendCOP u ev \<le> c1" "v - pendVIB u ev \<le> v1" by blast
  from Cons.IH [of "effect ev H", OF _ 1(1)] Cons.prems(1) obtain c' v' where
    "fold effect evs (effect ev H) u = Some (c', v')" "c1 - (\<Sum>ev\<leftarrow>evs. pendCOP u ev) \<le> c'" "v1 - (\<Sum>ev\<leftarrow>evs. pendVIB u ev) \<le> v'"
    by auto
  with 1 show ?case by auto
qed simp

lemma sum_waiting:
  fixes g :: "aorder \<Rightarrow> int"
  shows "(\<Sum>x\<in>#mset xs. g x) = (\<Sum>x\<leftarrow>xs. g x)"
  by (induction xs) simp_all

lemma exch_of_simps [simp]:
  "xBook (exch_of st) = book_of st" "xWaiting (exch_of st) = mset (map absO (sySubmitting st @ placed (syIn st)))"
  "xHolds (exch_of st) = fold effect (map abs_event (lg_ch (syLog st))) (holdings (ws_view (stWallets (syStores st))))"
  by (simp_all only: exch_of_def exchange.simps)

lemma owed_need:
  "owedCOP u (exch_of st) = needCOP st u - (\<Sum>ev\<leftarrow>lg_ch (syLog st). pendCOP u (abs_event ev))"
  "owedVIB u (exch_of st) = needVIB st u - (\<Sum>ev\<leftarrow>lg_ch (syLog st). pendVIB u (abs_event ev))"
  unfolding owedCOP_def owedVIB_def exch_of_simps sum_waiting needCOP_def needVIB_def sum_cmds
  by (simp_all add: comp_def)

lemma exch_of_ids: "sys_inv st \<Longrightarrow> xIDs (exch_of st) \<subseteq> syUsed st"
  by (auto simp: xIDs_def sys_inv_def sys_orders_def Let_def)

lemma valid_new_anew: "valid_new o' \<Longrightarrow> anew (absO o')"
  by (auto simp: valid_new_def Validate_None_iff anew_def fits_def)

text \<open>A wallet that has funds available has them free in the exchange.\<close>

lemma available_free:
  assumes inv: "sys_inv st" and w: "ws_view (stWallets (syStores st)) u = Some w"
  obtains c v where "xHolds (exch_of st) u = Some (c, v)" and "owedCOP u (exch_of st) + COPAvailable w \<le> c"
    and "owedVIB u (exch_of st) + VibraniumAvailable w \<le> v"
proof -
  have l: "ledger_bal (ws_view (stWallets (syStores st))) (needCOP st) (needVIB st)"
    and e: "\<And>ev. ev \<in> set (map abs_event (lg_ch (syLog st))) \<Longrightarrow> aevent_ok ev"
    using inv by (auto simp: sys_inv_def ledger_ok_def sys_events_def)
  have "holdings (ws_view (stWallets (syStores st))) u = Some (COPAvailable w + needCOP st u, VibraniumAvailable w + needVIB st u)"
    using ledger_balD(5,6) [OF l w] w by (simp add: holdings_def)
  from fold_effect_ge [where evs = "map abs_event (lg_ch (syLog st))" and u = u and H = "holdings (ws_view (stWallets (syStores st)))", OF e this] obtain c v where
    "xHolds (exch_of st) u = Some (c, v)"
    "COPAvailable w + needCOP st u - (\<Sum>ev\<leftarrow>lg_ch (syLog st). pendCOP u (abs_event ev)) \<le> c"
    "VibraniumAvailable w + needVIB st u - (\<Sum>ev\<leftarrow>lg_ch (syLog st). pendVIB u (abs_event ev)) \<le> v"
    by (auto simp: comp_def)
  then show ?thesis by (intro that) (simp_all add: owed_need algebra_simps)
qed

lemma refines_Accept:
  assumes inv: "sys_inv st"
    and acc: "accept (mem_trading (sySymbol st)) c bytes t cmd (request_view st) = (Inr o', ts)"
    and new: "oID o' \<notin> syUsed st" and fit: "fits o'"
  shows "exch_step (exch_of st) (exch_of ((after_request ts st)\<lparr>sySubmitting := sySubmitting st @ [o'], syUsed := insert (oID o') (syUsed st)\<rparr>))"
    (is "exch_step _ (exch_of ?st)")
proof -
  have o': "o' = new_order (sySymbol st) bytes t cmd" "Validate o' = None" using accept_order [OF acc] by auto
  then have vn: "valid_new o'" "oFilledQuantity o' = 0" "oUserID o' = pcUserID cmd" using fit by (auto simp: valid_new_def)
  obtain w where w: "ws_view (stWallets (syStores st)) (oUserID o') = Some w" "fst (reserve_fn o' w) = None"
    using mem_ledger.accept_accepted(1) [OF _ acc] vn(3) by auto
  have ok: "wallet_ok w"
    using ledger_wallet_ok [where v = "ws_view (stWallets (syStores st))" and u = "oUserID o'", OF _ w(1)] inv
    by (auto simp: sys_inv_def)
  obtain c v where h: "xHolds (exch_of st) (oUserID o') = Some (c, v)"
    "owedCOP (oUserID o') (exch_of st) + COPAvailable w \<le> c" "owedVIB (oUserID o') (exch_of st) + VibraniumAvailable w \<le> v"
    by (rule available_free [OF inv w(1)])
  have "exch_of ?st = (exch_of st)\<lparr>xWaiting := add_mset (absO o') (xWaiting (exch_of st))\<rparr>"
    using inv_Accept(4) [OF inv acc new fit] by (simp add: exch_of_def book_of_def)
  moreover have "exch_step (exch_of st) ((exch_of st)\<lparr>xWaiting := add_mset (absO o') (xWaiting (exch_of st))\<rparr>)"
    using h reserve_fn_exact(2,3) [OF ok fit o'(2) w(2)] fits_new_cop [OF fit o'(2) vn(2), of "oUserID o'"]
      exch_of_ids [OF inv] new valid_new_anew [OF vn(1)]
    by (intro exch_step.xAccept) auto
  ultimately show ?thesis by simp
qed

lemma refines_Enqueue:
  assumes "sySubmitting st = xs @ o' # ys"
  shows "exch_of (st\<lparr>sySubmitting := xs @ ys, syIn := syIn st @ [cmdPlace o']\<rparr>) = exch_of st"
  by (simp add: exch_of_def book_of_def assms)

lemma refines_GiveUp:
  assumes inv: "sys_inv st" and sub: "sySubmitting st = xs @ o' # ys"
    and com: "complete (mem_trading (sySymbol st)) o' (Inl ErrContext) t0 t2 (request_view st) = (res, ts)"
  shows "exch_step (exch_of st) (exch_of ((after_request ts st)\<lparr>sySubmitting := xs @ ys\<rparr>))"
proof -
  let ?W = "mset (map absO (xs @ ys @ placed (syIn st)))"
  have "xWaiting (exch_of st) = add_mset (absO o') ?W" by (simp add: sub)
  then have "exch_step (exch_of st) ((exch_of st)\<lparr>xWaiting := ?W\<rparr>)" by (rule exch_step.xWithdraw)
  moreover have "exch_of ((after_request ts st)\<lparr>sySubmitting := xs @ ys\<rparr>) = (exch_of st)\<lparr>xWaiting := ?W\<rparr>"
    using inv_GiveUp(4) [OF inv sub com] by (simp add: exch_of_def book_of_def)
  ultimately show ?thesis by simp
qed

lemma refines_EngineStep:
  assumes inv: "sys_inv st" and cmds: "syIn st = cmd # cmds"
    and hc: "handle_command mem_log cmd (syEngine st, syLog st) = Some (reply, e', l')"
  defines "st' \<equiv> st\<lparr>syIn := cmds, syEngine := e', syLog := l'\<rparr>"
  shows "exch_of st' = exch_of st \<or> exch_step (exch_of st) (exch_of st')"
proof -
  obtain evs b' where ch: "lg_ch l' = lg_ch (syLog st) @ stamp_events (syEngine st) evs"
    and as: "astep cmd (book_of st) = (map abs_event evs, absB b')" and e': "e' = (stamped_n (length evs) (syEngine st))\<lparr>eBook := b'\<rparr>"
    by (rule engine_step_spec [OF inv cmds hc])
  have b: "book_of st' = absB b'" by (simp add: st'_def book_of_def e')
  have h: "xHolds (exch_of st') = fold effect (map abs_event evs) (xHolds (exch_of st))"
    by (simp add: st'_def ch)
  show ?thesis
  proof (cases cmd)
    case (cmdPlace o')
    let ?W = "mset (map absO (sySubmitting st @ placed cmds))"
    obtain t' fs rel where pl: "aPlace (absO o') (xBook (exch_of st)) = (t', fs, rel, absB b')"
      and evs: "map abs_event evs = afill_events (absO o') fs @ [AUpdate t' rel 0]"
      using as cmdPlace by (auto simp: Let_def split: prod.splits)
    have "xWaiting (exch_of st) = add_mset (absO o') ?W" by (simp add: cmds cmdPlace)
    from exch_step.xMatch [OF this pl]
    have "exch_step (exch_of st) \<lparr>xHolds = pay_fills (absO o') fs (xHolds (exch_of st)), xBook = absB b', xWaiting = ?W\<rparr>" .
    moreover have "exch_of st' = \<lparr>xHolds = pay_fills (absO o') fs (xHolds (exch_of st)), xBook = absB b', xWaiting = ?W\<rparr>"
      using h b evs fold_effect_fills [of "absO o'" fs t' rel 0] by (simp add: exch_of_def st'_def)
    ultimately show ?thesis by simp
  next
    case (cmdCancel i)
    have w: "xWaiting (exch_of st') = xWaiting (exch_of st)" by (simp add: st'_def cmds cmdCancel)
    show ?thesis
    proof (cases "aCancel i (book_of st)")
      case None
      then have "evs = []" "absB b' = book_of st" using as cmdCancel by auto
      with h b w have "exch_of st' = exch_of st" by (simp add: exch_of_def)
      then show ?thesis ..
    next
      case (Some p)
      then obtain x where x: "aCancel i (xBook (exch_of st)) = Some (x, absB b')"
        and evs: "map abs_event evs = [AUpdate x (cop_of (aUser x) x) (vib_of (aUser x) x)]"
        using as cmdCancel by (cases p) auto
      have "exch_of st' = (exch_of st)\<lparr>xBook := absB b'\<rparr>" using h b w evs by (simp add: exch_of_def)
      with exch_step.xCancel [OF x] show ?thesis by simp
    qed
  next
    case (cmdSnapshot d)
    then have "evs = []" "absB b' = book_of st" using as by auto
    with h b have "exch_of st' = exch_of st" by (simp add: exch_of_def st'_def cmds cmdSnapshot)
    then show ?thesis ..
  qed
qed

lemma refines_Settle:
  fixes c :: ctx and t :: time
  assumes inv: "sys_inv st" and recv: "Log_recv (syLog st) = Some (Some ev, l')"
  shows "exch_of (st\<lparr>syLog := l', syStores := handle mem_settlement c t ev (syStores st)\<rparr>) = exch_of st"
  using inv_Settle(5) [OF inv recv, of c t] Log_recv_Some [OF recv] by (simp add: exch_of_def book_of_def)

lemma exch_of_cong:
  assumes "syEngine st' = syEngine st" and "syLog st' = syLog st" and "placed (syIn st') = placed (syIn st)"
    and "sySubmitting st' = sySubmitting st" and "ws_view (stWallets (syStores st')) = ws_view (stWallets (syStores st))"
  shows "exch_of st' = exch_of st"
  using assms by (simp add: exch_of_def book_of_def)

lemma need_0:
  assumes inv: "sys_inv st" and need: "needCOP st u = 0" "needVIB st u = 0"
  shows "owedCOP u (exch_of st) = 0" and "owedVIB u (exch_of st) = 0"
    and "ev \<in> set (map abs_event (lg_ch (syLog st))) \<Longrightarrow> aevent_ok ev \<and> pendCOP u ev = 0 \<and> pendVIB u ev = 0"
proof -
  note p = parts_nonneg [OF inv, of u]
  have z: "(\<Sum>ev\<leftarrow>lg_ch (syLog st). pendCOP u (abs_event ev)) = 0" "(\<Sum>ev\<leftarrow>lg_ch (syLog st). pendVIB u (abs_event ev)) = 0"
    using need p unfolding needCOP_def needVIB_def by linarith+
  then show "owedCOP u (exch_of st) = 0" "owedVIB u (exch_of st) = 0" by (simp_all add: owed_need need)
  assume ev: "ev \<in> set (map abs_event (lg_ch (syLog st)))"
  have ok: "\<forall>x\<in>set (lg_ch (syLog st)). aevent_ok (abs_event x)" using inv by (auto simp: sys_inv_def sys_events_def)
  with pend_nonneg have nn: "\<forall>x\<in>set (lg_ch (syLog st)). 0 \<le> pendCOP u (abs_event x) \<and> 0 \<le> pendVIB u (abs_event x)" by blast
  have "\<forall>x\<in>set (lg_ch (syLog st)). pendCOP u (abs_event x) = 0 \<and> pendVIB u (abs_event x) = 0"
    using z nn sum_list_nonneg_eq_0_iff [of "map (\<lambda>x. pendCOP u (abs_event x)) (lg_ch (syLog st))"]
      sum_list_nonneg_eq_0_iff [of "map (\<lambda>x. pendVIB u (abs_event x)) (lg_ch (syLog st))"] by auto
  with ok ev show "aevent_ok ev \<and> pendCOP u ev = 0 \<and> pendVIB u ev = 0" by auto
qed

lemma refines_Seed:
  assumes inv: "sys_inv st"
    and seed: "Wallets_Seed mem_wallets c u cop vib (stWallets (syStores st)) = (Inr w, ws)"
    and idle: "\<And>w0. ws_view (stWallets (syStores st)) u = Some w0 \<Longrightarrow> COPLocked w0 = 0 \<and> VibraniumLocked w0 = 0"
  shows "exch_step (exch_of st) (exch_of (st\<lparr>syStores := (syStores st)\<lparr>stWallets := ws\<rparr>\<rparr>))" (is "exch_step _ (exch_of ?st)")
proof -
  let ?v = "ws_view (stWallets (syStores st))" and ?evs = "map abs_event (lg_ch (syLog st))"
  have bal: "ledger_bal ?v (needCOP st) (needVIB st)" using inv by (simp add: sys_inv_def ledger_ok_def)
  have w: "ws_view ws = ?v(u \<mapsto> w)" "COPLocked w = 0" "VibraniumLocked w = 0" "COPAvailable w = cop" "VibraniumAvailable w = vib"
    "0 \<le> cop" "0 \<le> vib"
    using mem_ledger.Seed_view(1) [OF seed refl] by auto
  have need: "needCOP st u = 0" "needVIB st u = 0"
    using ledger_balD(4) [OF bal, of u] ledger_balD(5,6) [OF bal, of u] idle by (cases "?v u", auto)+
  note z = need_0 [OF inv need]
  have "holdings (ws_view ws) = (holdings ?v)(u \<mapsto> (cop, vib))" using w by (auto simp: fun_eq_iff holdings_def)
  then have "fold effect ?evs (holdings (ws_view ws)) = (fold effect ?evs (holdings ?v))(u \<mapsto> (cop, vib))"
    by (simp only: fold_effect_upd [OF z(3)])
  then have "exch_of ?st = (exch_of st)\<lparr>xHolds := (xHolds (exch_of st))(u \<mapsto> (cop, vib))\<rparr>"
    by (simp add: exch_of_def book_of_def)
  with exch_step.xFund [OF z(1,2) w(6,7)] show ?thesis by simp
qed

text \<open>The refinement: a step of the system is a step of the exchange or none.\<close>

lemma sys_step_refines: "sys_step st st' \<Longrightarrow> sys_inv st \<Longrightarrow> exch_of st' = exch_of st \<or> exch_step (exch_of st) (exch_of st')"
proof (induction rule: sys_step.induct)
  case (Accept st c bytes t cmd o' ts)
  then show ?case by (intro disjI2 refines_Accept)
next
  case (Reject st c bytes t cmd res ts)
  then show ?case using inv_Reject(2) by (intro disjI1 exch_of_cong) auto
next
  case (Enqueue st xs o' ys)
  then show ?case by (intro disjI1 refines_Enqueue)
next
  case (GiveUp st xs o' ys t0 t2 res ts)
  then show ?case by (intro disjI2 refines_GiveUp)
next
  case (EngineStep st cmd cmds reply e' l')
  then show ?case by (intro refines_EngineStep)
next
  case (Settle st ev l' c t)
  then show ?case by (intro disjI1 refines_Settle)
next
  case (Redeliver ev st c t)
  then show ?case using inv_Redeliver(2) by (intro disjI1 exch_of_cong) auto
next
  case (Seed c u cop vib st w ws)
  then show ?case by (intro disjI2 refines_Seed)
qed (intro disjI1 exch_of_cong; simp)+

lemma exch_of_init: "exch_of (init_system symbol buffer producer now booknow) = empty_exchange"
  by (simp add: exch_of_def empty_exchange_def book_of_def init_system_def NewEngine_def absB_def NewOrderBook_def NewLog_def
      init_stores_def NewWalletStore_def ws_view_def holdings_def fun_eq_iff)

lemma reachable_exch_run:
  "reachable (init_system symbol buffer producer now booknow) st \<Longrightarrow> exch_run (exch_of st)"
proof (induction rule: reachable.induct)
  case Start
  show ?case by (simp only: exch_of_init exch_start)
next
  case (Step st st')
  then show ?case using sys_step_refines [OF Step.hyps(2) reachable_inv [OF Step.hyps(1)]] exch_next by auto
qed

text \<open>Once the log is empty, what is available is what the exchange says is free.\<close>

definition free :: "exchange \<Rightarrow> holding_view" where
  "free X u = map_option (\<lambda>(c, v). (c - owedCOP u X, v - owedVIB u X)) (xHolds X u)"

lemma settled_free:
  assumes "sys_inv st" and "lg_ch (syLog st) = []"
  shows "free (exch_of st) u = map_option (\<lambda>w. (COPAvailable w, VibraniumAvailable w)) (ws_view (stWallets (syStores st)) u)"
proof -
  have "ledger_bal (ws_view (stWallets (syStores st))) (needCOP st) (needVIB st)"
    using assms(1) by (simp add: sys_inv_def ledger_ok_def)
  from ledger_balD(5,6) [OF this, of u]
  show ?thesis by (cases "ws_view (stWallets (syStores st)) u") (auto simp: free_def owed_need assms(2) holdings_def)
qed

end
