(* ===== verification/Polling.thy ===== *)
theory Polling
  imports Ports
begin

section \<open>Waiting for a dependency\<close>

text \<open>
  At startup the adapters wait for Postgres, Redis and the Kafka brokers: they ping until an
  answer comes, the deadline passes or the context ends. The three loops have one shape; they
  differ in what they report and in who closes the client. What the world answers in each
  round is a record of functions of the round: the result of the ping, the clock reading
  after it, \<open>ctx.Err()\<close> and which case of the \<open>select\<close> comes first.
\<close>

text \<open>\<open>fmt.Errorf\<close> with one \<open>%w\<close>: a text around an error; \<open>errors.Is\<close> never asks for a text.\<close>

definition Errorf :: "string \<Rightarrow> goerr \<Rightarrow> goerr" where
  "Errorf msg err = ErrWrap (ErrInfra msg) err"

record poll =
  plPing :: "nat \<Rightarrow> goerr option"
  plNow :: "nat \<Rightarrow> time"
  plCtxErr :: "nat \<Rightarrow> goerr option"
  plDone :: "nat \<Rightarrow> goerr option"

text \<open>The loop may run for ever in principle; its result is then \<open>None\<close>. The count is the round.\<close>

partial_function (option) poll_loop :: "string \<Rightarrow> poll \<Rightarrow> time \<Rightarrow> nat \<Rightarrow> (goerr option \<times> nat) option" where
  "poll_loop msg w deadline i =
     (case plPing w i of
        None \<Rightarrow> Some (None, i)
      | Some err \<Rightarrow>
          if plNow w i > deadline \<or> plCtxErr w i \<noteq> None then Some (Some (Errorf msg err), i)
          else (case plDone w i of
                  Some e \<Rightarrow> Some (Some e, i)
                | None \<Rightarrow> poll_loop msg w deadline (Suc i)))"

text \<open>The half second of \<open>time.After(500 * time.Millisecond)\<close> passes between two rounds.\<close>

definition half_second :: time where
  "half_second = 500000000"

definition clock_runs :: "poll \<Rightarrow> bool" where
  "clock_runs w \<longleftrightarrow> (\<forall>i. plNow w i + half_second \<le> plNow w (Suc i))"

lemma clock_lower: "clock_runs w \<Longrightarrow> plNow w 0 + int i * half_second \<le> plNow w i"
proof (induction i)
  case (Suc i)
  then have "plNow w i + half_second \<le> plNow w (Suc i)" by (simp add: clock_runs_def)
  with Suc show ?case by (simp add: algebra_simps)
qed simp

lemma poll_stops:
  assumes "clock_runs w" and "deadline < plNow w n" and "i \<le> n"
  shows "\<exists>r k. poll_loop msg w deadline i = Some (r, k) \<and> k \<le> n"
  using assms(3)
proof (induction "n - i" arbitrary: i)
  case 0
  with assms(2) show ?case by (subst poll_loop.simps) (auto split: option.split)
next
  case (Suc m)
  then have "\<exists>r k. poll_loop msg w deadline (Suc i) = Some (r, k) \<and> k \<le> n" by simp
  with Suc.prems show ?case by (subst poll_loop.simps) (auto split: option.split)
qed

lemma poll_returns:
  assumes "clock_runs w"
  shows "poll_loop msg w deadline 0 \<noteq> None"
proof -
  let ?n = "nat (deadline - plNow w 0) + 1"
  have "int ?n \<le> int ?n * half_second" by (simp add: half_second_def)
  then have "deadline < plNow w ?n" using clock_lower [OF assms, of ?n] by linarith
  from poll_stops [OF assms this, of 0 msg] show ?thesis by auto
qed

lemma rounds_cover:
  assumes "0 < m" and "0 \<le> wait"
  shows "wait < int (nat (wait div m) + 1) * m"
proof -
  have "m * (wait div m) + wait mod m = wait" by (rule mult_div_mod_eq)
  moreover have "(wait div m + 1) * m = m * (wait div m) + m" by (simp add: algebra_simps)
  ultimately have "wait < (wait div m + 1) * m" using pos_mod_bound [OF assms(1), of wait] by linarith
  moreover have "0 \<le> wait div m" using assms by (simp add: pos_imp_zdiv_nonneg_iff)
  ultimately show ?thesis by (simp add: add.commute)
qed

text \<open>A wait of \<open>wait\<close> ends in round \<open>wait div half_second + 1\<close> at the latest.\<close>

lemma poll_bounded:
  assumes "clock_runs w" and "plNow w 0 \<ge> start" and "0 \<le> wait"
  shows "\<exists>r k. poll_loop msg w (start + wait) 0 = Some (r, k) \<and> k \<le> nat (wait div half_second) + 1"
proof (rule poll_stops [OF assms(1)])
  let ?n = "nat (wait div half_second) + 1"
  have "wait < int ?n * half_second" using assms(3) by (intro rounds_cover) (simp_all add: half_second_def)
  with clock_lower [OF assms(1), of ?n] assms(2) show "start + wait < plNow w ?n" by linarith
qed simp

text \<open>The loop succeeds only on an answer, and fails only on a ping that failed.\<close>

lemma poll_result:
  assumes "poll_loop msg w deadline i = Some x"
  shows "i \<le> snd x \<and> (fst x = None \<longleftrightarrow> plPing w (snd x) = None) \<and> (\<forall>j. i \<le> j \<longrightarrow> j < snd x \<longrightarrow> plPing w j \<noteq> None)"
proof (induction msg w deadline i x rule: poll_loop.raw_induct)
  case (1 rec msg w deadline i x)
  show ?case
  proof (cases "plPing w i = None \<or> plNow w i > deadline \<or> plCtxErr w i \<noteq> None \<or> plDone w i \<noteq> None")
    case True
    with 1(2) show ?thesis by (auto split: option.splits if_splits)
  next
    case False
    with 1(2) have "rec msg w deadline (Suc i) = Some x" by (auto split: option.splits)
    from 1(1) [OF this] have ih: "Suc i \<le> snd x" "fst x = None \<longleftrightarrow> plPing w (snd x) = None"
      "\<And>j. Suc i \<le> j \<Longrightarrow> j < snd x \<Longrightarrow> plPing w j \<noteq> None" by blast+
    have "plPing w j \<noteq> None" if "i \<le> j" "j < snd x" for j
      using ih(3) [of j] False that by (cases "j = i") auto
    with ih show ?thesis by auto
  qed
qed (rule assms)

end
