(* ===== verification/Postgres.thy ===== *)
theory Postgres
  imports Settlement Trading Queries Polling
begin

section \<open>The durable stores on Postgres\<close>

text \<open>
  \<open>internal/adapter/driven/postgres\<close>. The four tables of \<open>schema.sql\<close> are the state: rows
  under their primary keys, in the order they were inserted. An SQL statement is the change
  that its text asks for. The database can fail: an oracle says for every statement, by its
  number, whether it is done and answered, not done, or done with the answer lost on the way
  (\<open>PgLost\<close>); a context that ends is one of its reasons. Inside a transaction nothing is done before \<open>COMMIT\<close>, so a lost answer there
  only fails the transaction. \<open>SELECT ... FOR UPDATE\<close> holds the row until the end of the
  transaction, so that \<open>Update\<close> is one step for everyone who changes the row.
\<close>

datatype pg_fate = PgOk | PgFailed goerr | PgLost goerr

text \<open>\<open>pgCalls\<close> counts the statements sent. \<open>trades\<close> and \<open>processed_events\<close> keep insertion order.\<close>

record pg =
  pgWallets :: "(string \<times> wallet) list"
  pgTrades :: "trade list"
  pgOrders :: "(string \<times> order) list"
  pgEvents :: "string list"
  pgCalls :: nat

type_synonym pg_oracle = "nat \<Rightarrow> pg_fate"

definition empty_pg :: pg where
  "empty_pg = \<lparr>pgWallets = [], pgTrades = [], pgOrders = [], pgEvents = [], pgCalls = 0\<rparr>"

text \<open>What becomes of the next statement.\<close>

definition pg_next :: "pg_oracle \<Rightarrow> pg \<Rightarrow> pg_fate \<times> pg" where
  "pg_next orc db = (orc (pgCalls db), db\<lparr>pgCalls := Suc (pgCalls db)\<rparr>)"

text \<open>A statement outside a transaction: what it answers and does, or the error of the server.\<close>

definition pg_exec :: "pg_oracle \<Rightarrow> (pg \<Rightarrow> goerr + 'a \<times> pg) \<Rightarrow> pg \<Rightarrow> (goerr + 'a) \<times> pg" where
  "pg_exec orc stmt db =
     (let (fate, db1) = pg_next orc db
      in case fate of
           PgFailed e \<Rightarrow> (Inl e, db1)
         | PgOk \<Rightarrow> (case stmt db1 of Inl e \<Rightarrow> (Inl e, db1) | Inr (a, db2) \<Rightarrow> (Inr a, db2))
         | PgLost e \<Rightarrow> (Inl e, case stmt db1 of Inl e' \<Rightarrow> db1 | Inr (a, db2) \<Rightarrow> db2))"

text \<open>A query changes nothing; losing its answer is a failure like any other.\<close>

definition pg_query :: "pg_oracle \<Rightarrow> (pg \<Rightarrow> 'a) \<Rightarrow> pg \<Rightarrow> (goerr + 'a) \<times> pg" where
  "pg_query orc q = pg_exec orc (\<lambda>db. Inr (q db, db))"

subsection \<open>Connecting\<close>

text \<open>
  What pgx answers: \<open>pgParseConfig\<close> the configuration of a URL (of which only the pool size
  matters), \<open>pgNewPool\<close> whether the pool can be created, \<open>pgPings\<close> the pings. The result says
  whether a pool is left open.
\<close>

record pgx =
  pgParseConfig :: "string \<Rightarrow> goerr + int"
  pgNewPool :: "int \<Rightarrow> goerr option"
  pgPings :: poll
  pgStart :: time
  pgSchema :: "goerr option"

definition postgres_Connect :: "pgx \<Rightarrow> string \<Rightarrow> int \<Rightarrow> int \<Rightarrow> ((goerr + int) \<times> bool) option" where
  "postgres_Connect d url maxConns wait =
     (case pgParseConfig d url of
        Inl err \<Rightarrow> Some (Inl (Errorf ''parse DATABASE_URL'' err), False)
      | Inr dflt \<Rightarrow>
          (let conns = (if maxConns > 0 then maxConns else dflt)
           in case pgNewPool d conns of
                Some err \<Rightarrow> Some (Inl (Errorf ''create pool'' err), False)
              | None \<Rightarrow>
                  map_option (\<lambda>(r, k). case r of None \<Rightarrow> (Inr conns, True) | Some e \<Rightarrow> (Inl e, False))
                    (poll_loop ''postgres unreachable'' (pgPings d) (pgStart d + wait) 0)))"

definition postgres_Migrate :: "pgx \<Rightarrow> goerr option" where
  "postgres_Migrate d = (case pgSchema d of Some err \<Rightarrow> Some (Errorf ''apply schema'' err) | None \<Rightarrow> None)"

subsection \<open>Wallets\<close>

text \<open>The \<open>CHECK\<close> constraints of the table.\<close>

definition wallet_check :: "wallet \<Rightarrow> bool" where
  "wallet_check w \<longleftrightarrow> COPAvailable w \<ge> 0 \<and> COPLocked w \<ge> 0 \<and> VibraniumAvailable w \<ge> 0 \<and> VibraniumLocked w \<ge> 0"

definition check_violation :: goerr where
  "check_violation = ErrInfra ''new row violates check constraint''"

text \<open>The four columns of \<open>w\<close> in the row of user \<open>u\<close>, scanned into a wallet of that user.\<close>

definition wallet_row :: "string \<Rightarrow> wallet \<Rightarrow> wallet" where
  "wallet_row u w = \<lparr>wUserID = u, COPAvailable = COPAvailable w, COPLocked = COPLocked w,
     VibraniumAvailable = VibraniumAvailable w, VibraniumLocked = VibraniumLocked w\<rparr>"

definition PgWallets_Get :: "pg_oracle \<Rightarrow> ctx \<Rightarrow> string \<Rightarrow> pg \<Rightarrow> (goerr + wallet) \<times> pg" where
  "PgWallets_Get orc c u db =
     (let (r, db1) = pg_query orc (\<lambda>db. map_of (pgWallets db) u) db
      in (case r of
            Inl err \<Rightarrow> Inl (Errorf (''get wallet '' @ u) err)
          | Inr None \<Rightarrow> Inl ErrWalletNotFound
          | Inr (Some row) \<Rightarrow> Inr (wallet_row u row), db1))"

definition PgWallets_Upsert :: "pg_oracle \<Rightarrow> ctx \<Rightarrow> wallet \<Rightarrow> pg \<Rightarrow> goerr option \<times> pg" where
  "PgWallets_Upsert orc c w db =
     (let (r, db1) = pg_exec orc
            (\<lambda>db. if wallet_check w
                  then Inr ((), db\<lparr>pgWallets := AList.update (wUserID w) (wallet_row (wUserID w) w) (pgWallets db)\<rparr>)
                  else Inl check_violation) db
      in (case r of Inl err \<Rightarrow> Some (Errorf (''upsert wallet '' @ wUserID w) err) | Inr _ \<Rightarrow> None, db1))"

text \<open>
  \<open>Begin\<close>, \<open>SELECT ... FOR UPDATE\<close>, the function, \<open>UPDATE\<close>, \<open>Commit\<close>. Every return before the
  commit rolls back, which leaves the tables as they are; a commit may happen although its
  answer is lost.
\<close>

definition fate_error :: "pg_fate \<Rightarrow> goerr option" where
  "fate_error f = (case f of PgOk \<Rightarrow> None | PgFailed e \<Rightarrow> Some e | PgLost e \<Rightarrow> Some e)"

definition tx_commit :: "pg_oracle \<Rightarrow> string \<Rightarrow> wallet \<Rightarrow> pg \<Rightarrow> goerr option \<times> pg" where
  "tx_commit orc u w db =
     (let (f, db1) = pg_next orc db;
          written = db1\<lparr>pgWallets := AList.update u (wallet_row u w) (pgWallets db1)\<rparr>
      in case f of
           PgOk \<Rightarrow> (None, written)
         | PgFailed e \<Rightarrow> (Some (Errorf (''commit wallet '' @ u) e), db1)
         | PgLost e \<Rightarrow> (Some (Errorf (''commit wallet '' @ u) e), written))"

definition PgWallets_Update :: "pg_oracle \<Rightarrow> ctx \<Rightarrow> string \<Rightarrow> wallet_fn \<Rightarrow> pg \<Rightarrow> goerr option \<times> pg" where
  "PgWallets_Update orc c u f db =
     (let (fb, db1) = pg_next orc db
      in case fate_error fb of
           Some e \<Rightarrow> (Some (Errorf ''begin wallet tx'' e), db1)
         | None \<Rightarrow>
             (let (fs, db2) = pg_next orc db1
              in case fate_error fs of
                   Some e \<Rightarrow> (Some (Errorf (''lock wallet '' @ u) e), db2)
                 | None \<Rightarrow>
                     (case map_of (pgWallets db2) u of
                        None \<Rightarrow> (Some ErrWalletNotFound, db2)
                      | Some row \<Rightarrow>
                          (let (err, w) = f (wallet_row u row)
                           in case err of
                                Some e \<Rightarrow> (Some e, db2)
                              | None \<Rightarrow>
                                  (let (fu, db3) = pg_next orc db2
                                   in case fate_error fu of
                                        Some e \<Rightarrow> (Some (Errorf (''update wallet '' @ u) e), db3)
                                      | None \<Rightarrow>
                                          if \<not> wallet_check w
                                          then (Some (Errorf (''update wallet '' @ u) check_violation), db3)
                                          else tx_commit orc u w db3)))))"

text \<open>\<open>ORDER BY user_id\<close>, in the collation where the order of texts is that of their bytes.\<close>

definition PgWallets_List :: "pg_oracle \<Rightarrow> ctx \<Rightarrow> pg \<Rightarrow> (goerr + wallet list) \<times> pg" where
  "PgWallets_List orc c db =
     (let (r, db1) = pg_query orc
            (\<lambda>db. map (\<lambda>(u, w). wallet_row u w) (sort_key fst (pgWallets db))) db
      in (case r of Inl err \<Rightarrow> Inl (Errorf ''list wallets'' err) | Inr out \<Rightarrow> Inr out, db1))"

definition pg_wallets :: "pg_oracle \<Rightarrow> pg WalletRepository" where
  "pg_wallets orc = \<lparr>wr_Get = PgWallets_Get orc, wr_Upsert = PgWallets_Upsert orc,
     wr_Update = PgWallets_Update orc, wr_List = PgWallets_List orc\<rparr>"

definition pg_view :: "pg \<Rightarrow> string \<Rightarrow> wallet option" where
  "pg_view db u = map_option (wallet_row u) (map_of (pgWallets db) u)"

subsection \<open>Orders, trades and the journal\<close>

text \<open>\<open>tz\<close> is what comes back of a time stored in a \<open>TIMESTAMPTZ\<close> column.\<close>

definition order_row :: "(time \<Rightarrow> time) \<Rightarrow> order \<Rightarrow> order" where
  "order_row tz x = x\<lparr>oCreatedAt := tz (oCreatedAt x), oUpdatedAt := tz (oUpdatedAt x)\<rparr>"

text \<open>A row that is there takes four columns of the new state, and only under the guard.\<close>

definition merge_order :: "order \<Rightarrow> order \<Rightarrow> order" where
  "merge_order old new =
     (if oSequence old \<le> oSequence new
      then old\<lparr>oStatus := oStatus new, oFilledQuantity := oFilledQuantity new,
               oSequence := oSequence new, oUpdatedAt := oUpdatedAt new\<rparr>
      else old)"

definition PgOrders_Upsert :: "(time \<Rightarrow> time) \<Rightarrow> pg_oracle \<Rightarrow> ctx \<Rightarrow> order \<Rightarrow> pg \<Rightarrow> goerr option \<times> pg" where
  "PgOrders_Upsert tz orc c x db =
     (let (r, db1) = pg_exec orc
            (\<lambda>db. let new = order_row tz x;
                      row = (case map_of (pgOrders db) (oID x) of None \<Rightarrow> new | Some old \<Rightarrow> merge_order old new)
                  in Inr ((), db\<lparr>pgOrders := AList.update (oID x) row (pgOrders db)\<rparr>)) db
      in (case r of Inl err \<Rightarrow> Some (Errorf (''upsert order '' @ oID x) err) | Inr _ \<Rightarrow> None, db1))"

definition PgOrders_Get :: "pg_oracle \<Rightarrow> ctx \<Rightarrow> string \<Rightarrow> pg \<Rightarrow> (goerr + order option) \<times> pg" where
  "PgOrders_Get orc c i db =
     (let (r, db1) = pg_query orc (\<lambda>db. map_of (pgOrders db) i) db
      in (case r of Inl err \<Rightarrow> Inl (Errorf (''get order '' @ i) err) | Inr row \<Rightarrow> Inr row, db1))"

definition PgTrades_Append :: "(time \<Rightarrow> time) \<Rightarrow> pg_oracle \<Rightarrow> ctx \<Rightarrow> trade \<Rightarrow> pg \<Rightarrow> goerr option \<times> pg" where
  "PgTrades_Append tz orc c t db =
     (let (r, db1) = pg_exec orc
            (\<lambda>db. Inr ((), if tID t \<in> tID ` set (pgTrades db) then db
                           else db\<lparr>pgTrades := pgTrades db @ [t\<lparr>tExecutedAt := tz (tExecutedAt t)\<rparr>]\<rparr>)) db
      in (case r of Inl err \<Rightarrow> Some (Errorf (''append trade '' @ tID t) err) | Inr _ \<Rightarrow> None, db1))"

text \<open>\<open>ORDER BY sequence DESC\<close>, and \<open>LIMIT\<close> when there is one; SQL leaves open the order of equal sequences.\<close>

definition PgTrades_Recent :: "pg_oracle \<Rightarrow> ctx \<Rightarrow> int \<Rightarrow> pg \<Rightarrow> (goerr + trade list) \<times> pg" where
  "PgTrades_Recent orc c limit db =
     (let (r, db1) = pg_query orc
            (\<lambda>db. let rows = rev (sort_key tSequence (pgTrades db))
                  in if limit > 0 then take (nat limit) rows else rows) db
      in (case r of Inl err \<Rightarrow> Inl (Errorf ''recent trades'' err) | Inr out \<Rightarrow> Inr out, db1))"

definition PgTrades_Count :: "pg_oracle \<Rightarrow> ctx \<Rightarrow> pg \<Rightarrow> (goerr + int) \<times> pg" where
  "PgTrades_Count orc c db =
     (let (r, db1) = pg_query orc (\<lambda>db. int (length (pgTrades db))) db
      in (case r of Inl err \<Rightarrow> Inl (Errorf ''count trades'' err) | Inr n \<Rightarrow> Inr n, db1))"

definition PgJournal_MarkProcessed :: "pg_oracle \<Rightarrow> ctx \<Rightarrow> string \<Rightarrow> pg \<Rightarrow> (goerr + bool) \<times> pg" where
  "PgJournal_MarkProcessed orc c eventID db =
     (let (r, db1) = pg_exec orc
            (\<lambda>db. Inr (if eventID \<in> set (pgEvents db) then (0::int, db)
                       else (1, db\<lparr>pgEvents := eventID # pgEvents db\<rparr>))) db
      in (case r of
            Inl err \<Rightarrow> Inl (Errorf (''mark event '' @ eventID @ '' processed'') err)
          | Inr rows \<Rightarrow> Inr (rows = 1), db1))"

definition pg_orders :: "(time \<Rightarrow> time) \<Rightarrow> pg_oracle \<Rightarrow> pg OrderRepository" where
  "pg_orders tz orc = \<lparr>or_Upsert = PgOrders_Upsert tz orc, or_Get = PgOrders_Get orc\<rparr>"

definition pg_trades :: "(time \<Rightarrow> time) \<Rightarrow> pg_oracle \<Rightarrow> pg TradeRepository" where
  "pg_trades tz orc = \<lparr>tr_Append = PgTrades_Append tz orc, tr_Recent = PgTrades_Recent orc, tr_Count = PgTrades_Count orc\<rparr>"

definition pg_journal :: "pg_oracle \<Rightarrow> pg EventJournal" where
  "pg_journal orc = \<lparr>ej_MarkProcessed = PgJournal_MarkProcessed orc\<rparr>"

lemma pg_repo_simps [simp]:
  "wr_Get (pg_wallets orc) = PgWallets_Get orc" "wr_Upsert (pg_wallets orc) = PgWallets_Upsert orc"
  "wr_Update (pg_wallets orc) = PgWallets_Update orc" "wr_List (pg_wallets orc) = PgWallets_List orc"
  "or_Upsert (pg_orders tz orc) = PgOrders_Upsert tz orc" "or_Get (pg_orders tz orc) = PgOrders_Get orc"
  "tr_Append (pg_trades tz orc) = PgTrades_Append tz orc" "tr_Recent (pg_trades tz orc) = PgTrades_Recent orc"
  "tr_Count (pg_trades tz orc) = PgTrades_Count orc" "ej_MarkProcessed (pg_journal orc) = PgJournal_MarkProcessed orc"
  by (simp_all add: pg_wallets_def pg_orders_def pg_trades_def pg_journal_def)

subsection \<open>The laws of the ports\<close>

text \<open>The oracle in which no answer is lost: what was not answered was not done.\<close>

definition answered :: "pg_oracle \<Rightarrow> pg_oracle" where
  "answered orc n = (case orc n of PgLost e \<Rightarrow> PgFailed e | f \<Rightarrow> f)"

lemma answered_not_lost [simp]: "answered orc n \<noteq> PgLost e"
  by (simp add: answered_def split: pg_fate.split)

lemma pg_next_simps [simp]:
  "fst (pg_next orc db) = orc (pgCalls db)" "pgWallets (snd (pg_next orc db)) = pgWallets db"
  "pgTrades (snd (pg_next orc db)) = pgTrades db" "pgOrders (snd (pg_next orc db)) = pgOrders db"
  "pgEvents (snd (pg_next orc db)) = pgEvents db"
  by (simp_all add: pg_next_def)

lemma pg_next_fate: "pg_next orc db = (f, db1) \<Longrightarrow> \<exists>n. orc n = f"
  by (auto simp: pg_next_def)

lemma pg_next_tables: "pg_next orc db = (f, db1) \<Longrightarrow> pgWallets db1 = pgWallets db
  \<and> pgTrades db1 = pgTrades db \<and> pgOrders db1 = pgOrders db \<and> pgEvents db1 = pgEvents db"
  by (auto simp: pg_next_def)

lemma pg_next_answered: "pg_next (answered orc) db \<noteq> (PgLost e, db')"
  by (simp add: pg_next_def)

text \<open>A query leaves the tables alone and answers from them.\<close>

lemma pg_query_tables:
  assumes "pg_query orc q db = (r, db1)"
  shows "pgWallets db1 = pgWallets db" and "pgTrades db1 = pgTrades db" and "pgOrders db1 = pgOrders db"
    and "pgEvents db1 = pgEvents db" and "r = Inr x \<Longrightarrow> x = q (db\<lparr>pgCalls := Suc (pgCalls db)\<rparr>)"
  using assms by (auto simp: pg_query_def pg_exec_def pg_next_def split: pg_fate.splits)

lemma wallet_row_id [simp]: "wallet_row u (wallet_row u w) = wallet_row u w" "wUserID (wallet_row u w) = u"
  by (simp_all add: wallet_row_def)

lemma wallet_row_same: "wUserID w = u \<Longrightarrow> wallet_row u w = w"
  by (simp add: wallet_row_def)

lemma keeps_user_row: "keeps_user f \<Longrightarrow> f (wallet_row u row) = (e, w) \<Longrightarrow> wallet_row u w = w"
  by (metis keeps_user_def snd_conv wallet_row_id(2) wallet_row_same)

lemma pg_view_written:
  "pgWallets db1 = AList.update u (wallet_row u w) (pgWallets db) \<Longrightarrow> pg_view db1 = (pg_view db)(u \<mapsto> wallet_row u w)"
  by (auto simp: pg_view_def map_of_update)

lemma pg_view_cong: "pgWallets db1 = pgWallets db \<Longrightarrow> pg_view db1 = pg_view db"
  by (auto simp: pg_view_def)

text \<open>
  What \<open>Update\<close> can come to, whatever fails: nothing happened and there is an error, or the
  function accepted, the constraints hold and the row is written; then an error can only be
  the lost answer of the commit.
\<close>

lemma PgWallets_Update_cases:
  assumes "PgWallets_Update orc c u f db = (r, db')" and "keeps_user f"
  shows "pg_view db' = pg_view db \<and> r \<noteq> None
    \<or> (\<exists>w. pg_view db u = Some w \<and> fst (f w) = None \<and> wallet_check (snd (f w))
        \<and> pg_view db' = (pg_view db)(u \<mapsto> snd (f w))
        \<and> (r = None \<or> (\<exists>n e. orc n = PgLost e \<and> r = Some (Errorf (''commit wallet '' @ u) e))))"
proof -
  obtain fb db1 fs db2 where n: "pg_next orc db = (fb, db1)" "pg_next orc db1 = (fs, db2)" by fastforce
  note t1 = pg_next_tables [OF n(1)] and t2 = pg_next_tables [OF n(2)]
  show ?thesis
  proof (cases "fate_error fb \<noteq> None \<or> fate_error fs \<noteq> None \<or> map_of (pgWallets db2) u = None")
    case True
    then have "pgWallets db' = pgWallets db \<and> r \<noteq> None"
      using assms(1) n t1 t2 by (auto simp: PgWallets_Update_def split: option.splits)
    then show ?thesis using pg_view_cong by blast
  next
    case False
    then obtain row where row: "map_of (pgWallets db2) u = Some row" and ok: "fate_error fb = None" "fate_error fs = None"
      by auto
    obtain err w where f: "f (wallet_row u row) = (err, w)" by fastforce
    obtain fu db3 where n3: "pg_next orc db2 = (fu, db3)" by fastforce
    note t3 = pg_next_tables [OF n3]
    have view: "pg_view db u = Some (wallet_row u row)" using row t1 t2 by (simp add: pg_view_def)
    show ?thesis
    proof (cases "err \<noteq> None \<or> fate_error fu \<noteq> None \<or> \<not> wallet_check w")
      case True
      then have "pgWallets db' = pgWallets db \<and> r \<noteq> None"
        using assms(1) n n3 t1 t2 t3 row ok f by (auto simp: PgWallets_Update_def split: option.splits)
      then show ?thesis using pg_view_cong by blast
    next
      case False
      then have com: "tx_commit orc u w db3 = (r, db')"
        using assms(1) n n3 row ok f by (simp add: PgWallets_Update_def)
      have rw: "wallet_row u w = w" by (rule keeps_user_row [OF assms(2) f])
      have wr: "pg_view db' = (pg_view db)(u \<mapsto> w)" if "pgWallets db' = AList.update u w (pgWallets db)"
        using pg_view_written [of db' u w db] that rw by simp
      obtain fc db4 where n4: "pg_next orc db3 = (fc, db4)" by fastforce
      note t4 = pg_next_tables [OF n4]
      show ?thesis
      proof (cases fc)
        case (PgFailed e)
        then have "pgWallets db' = pgWallets db \<and> r \<noteq> None"
          using com n4 t1 t2 t3 t4 by (auto simp: tx_commit_def)
        then show ?thesis using pg_view_cong by blast
      next
        case PgOk
        then have "r = None" "pgWallets db' = AList.update u w (pgWallets db)"
          using com n4 t1 t2 t3 t4 rw by (auto simp: tx_commit_def)
        with wr False f view rw show ?thesis by simp
      next
        case (PgLost e)
        then have "r = Some (Errorf (''commit wallet '' @ u) e)" "pgWallets db' = AList.update u w (pgWallets db)"
          using com n4 t1 t2 t3 t4 rw by (auto simp: tx_commit_def)
        with wr False f view rw pg_next_fate [OF n4] PgLost show ?thesis by auto
      qed
    qed
  qed
qed

interpretation pg_ledger: wallet_ledger "pg_wallets (answered orc)" pg_view for orc
proof
  fix c u f s s' e w
  assume "keeps_user f" "wr_Update (pg_wallets (answered orc)) c u f s = (None, s')"
  then show "\<exists>w. pg_view s u = Some w \<and> fst (f w) = None \<and> pg_view s' = (pg_view s)(u \<mapsto> snd (f w))"
    using PgWallets_Update_cases [of "answered orc" c u f s None s'] by auto
next
  show "pg_view s' = pg_view s" if "wr_Update (pg_wallets (answered orc)) c u f s = (Some e, s')" for c u f s e s'
    using that
    by (auto simp: PgWallets_Update_def tx_commit_def Let_def pg_next_answered intro!: pg_view_cong dest!: pg_next_tables
        split: option.splits prod.splits pg_fate.splits if_splits)
  show "pg_view s' = (pg_view s)(wUserID w \<mapsto> w)" if "wr_Upsert (pg_wallets (answered orc)) c w s = (None, s')" for c w s s'
  proof -
    have "pgWallets s' = AList.update (wUserID w) (wallet_row (wUserID w) w) (pgWallets s)"
      using that by (auto simp: PgWallets_Upsert_def pg_exec_def pg_next_def split: pg_fate.splits if_splits sum.splits prod.splits)
    from pg_view_written [OF this] show ?thesis by (simp add: wallet_row_same)
  qed
  show "pg_view s' = pg_view s" if "wr_Upsert (pg_wallets (answered orc)) c w s = (Some e, s')" for c w s e s'
    using that answered_not_lost
    by (auto simp: PgWallets_Upsert_def pg_exec_def pg_next_def intro!: pg_view_cong
        split: pg_fate.splits if_splits sum.splits prod.splits)
  show "pg_view (snd (wr_Get (pg_wallets (answered orc)) c u s)) = pg_view s" for c u s
    by (auto simp: PgWallets_Get_def intro!: pg_view_cong dest: pg_query_tables split: prod.splits)
  show "pg_view (snd (wr_List (pg_wallets (answered orc)) c s)) = pg_view s" for c s
    by (auto simp: PgWallets_List_def intro!: pg_view_cong dest: pg_query_tables split: prod.splits)
qed

text \<open>The journal keeps its promise even when answers are lost.\<close>

interpretation pg_marks: event_journal "pg_journal orc" "\<lambda>db. set (pgEvents db)" for orc
  by unfold_locales
    (auto simp: PgJournal_MarkProcessed_def pg_exec_def pg_next_def split: pg_fate.splits sum.splits prod.splits if_splits)

text \<open>
  A database whose answers arrive takes every update without negative balances: the
  constraints reject nothing else.
\<close>

lemma answered_ok [simp]: "answered (\<lambda>_. PgOk) = (\<lambda>_. PgOk)"
  by (simp add: answered_def fun_eq_iff)

interpretation pg_sound: sound_wallet_ledger "pg_wallets (\<lambda>_. PgOk)" pg_view
proof (rule sound_wallet_ledger.intro)
  show "wallet_ledger (pg_wallets (\<lambda>_. PgOk)) pg_view"
    using pg_ledger.wallet_ledger_axioms [of "\<lambda>_. PgOk"] by simp
  show "sound_wallet_ledger_axioms (pg_wallets (\<lambda>_. PgOk)) pg_view"
  proof
    fix f :: wallet_fn and s u w c
    assume "pg_view s u = Some w" "fst (f w) = None" "wallet_nonneg (snd (f w))"
    then show "fst (wr_Update (pg_wallets (\<lambda>_. PgOk)) c u f s) = None"
      by (auto simp: pg_view_def PgWallets_Update_def tx_commit_def pg_next_def fate_error_def Let_def wallet_nonneg_def
          wallet_check_def split: prod.split)
  qed
qed

end
