(* ===== verification/Rediscache.thy ===== *)
theory Rediscache
  imports Postgres
begin

section \<open>The Redis read cache in front of a wallet repository\<close>

text \<open>
  \<open>internal/adapter/driven/rediscache/wallet.go\<close>: a decorator that implements the port it
  wraps. Redis is a map from keys to bytes with a time to live; the bytes of an entry are what
  they decode to, \<open>None\<close> when \<open>json.Unmarshal\<close> fails on them. Redis can fail: for every
  command, by its number, \<open>rdFate\<close> says whether it is done and answered, not done, or done
  without an answer, and \<open>rdTime\<close> when it runs.
\<close>

datatype redis_fate = RedisOk | RedisFailed goerr | RedisLost goerr

record redis_env =
  rdFate :: "nat \<Rightarrow> redis_fate"
  rdTime :: "nat \<Rightarrow> time"

datatype cache_warning =
    CacheReadFailed string goerr
  | CacheWriteFailed string goerr
  | CacheInvalidationFailed string goerr

record 'w cached =
  wcInner :: 'w
  wcKeys :: "string \<rightharpoonup> wallet option \<times> time"
  wcCalls :: nat
  wcWarnings :: "cache_warning list"

definition keyPrefix :: string where
  "keyPrefix = ''wallet:''"

subsection \<open>Redis\<close>

definition fate_err :: "redis_fate \<Rightarrow> goerr option" where
  "fate_err f = (case f of RedisOk \<Rightarrow> None | RedisFailed e \<Rightarrow> Some e | RedisLost e \<Rightarrow> Some e)"

definition is_done :: "redis_fate \<Rightarrow> bool" where
  "is_done f = (case f of RedisFailed e \<Rightarrow> False | _ \<Rightarrow> True)"

text \<open>\<open>GET\<close>: the bytes of a key that is there and has not expired (\<open>redis.Nil\<close> otherwise).\<close>

definition redis_Get :: "redis_env \<Rightarrow> string \<Rightarrow> 'w cached \<Rightarrow> (goerr + wallet option option) \<times> 'w cached" where
  "redis_Get env key s =
     (let f = rdFate env (wcCalls s); now = rdTime env (wcCalls s); s1 = s\<lparr>wcCalls := Suc (wcCalls s)\<rparr>
      in (case fate_err f of
            Some e \<Rightarrow> Inl e
          | None \<Rightarrow> Inr (case wcKeys s key of
                           Some (raw, expires) \<Rightarrow> if now < expires then Some raw else None
                         | None \<Rightarrow> None), s1))"

definition redis_Set :: "redis_env \<Rightarrow> string \<Rightarrow> wallet \<Rightarrow> int \<Rightarrow> 'w cached \<Rightarrow> goerr option \<times> 'w cached" where
  "redis_Set env key w ttl s =
     (let f = rdFate env (wcCalls s); now = rdTime env (wcCalls s); s1 = s\<lparr>wcCalls := Suc (wcCalls s)\<rparr>
      in (fate_err f, if is_done f then s1\<lparr>wcKeys := (wcKeys s1)(key \<mapsto> (Some w, now + ttl))\<rparr> else s1))"

definition redis_Del :: "redis_env \<Rightarrow> string \<Rightarrow> 'w cached \<Rightarrow> goerr option \<times> 'w cached" where
  "redis_Del env key s =
     (let f = rdFate env (wcCalls s); s1 = s\<lparr>wcCalls := Suc (wcCalls s)\<rparr>
      in (fate_err f, if is_done f then s1\<lparr>wcKeys := (wcKeys s1)(key := None)\<rparr> else s1))"

definition warn :: "goerr option \<Rightarrow> (goerr \<Rightarrow> cache_warning) \<Rightarrow> 'w cached \<Rightarrow> 'w cached" where
  "warn err line s = (case err of None \<Rightarrow> s | Some e \<Rightarrow> s\<lparr>wcWarnings := wcWarnings s @ [line e]\<rparr>)"

subsection \<open>Connecting\<close>

text \<open>What go-redis answers: whether the URL parses, and the pings.\<close>

record go_redis =
  rdParseURL :: "string \<Rightarrow> goerr option"
  rdPings :: poll
  rdStart :: time

definition redis_Connect :: "go_redis \<Rightarrow> string \<Rightarrow> int \<Rightarrow> (goerr option \<times> bool) option" where
  "redis_Connect d url wait =
     (case rdParseURL d url of
        Some err \<Rightarrow> Some (Some (Errorf ''parse REDIS_URL'' err), False)
      | None \<Rightarrow>
          map_option (\<lambda>(r, k). case r of None \<Rightarrow> (None, True) | Some e \<Rightarrow> (Some e, False))
            (poll_loop ''redis unreachable'' (rdPings d) (rdStart d + wait) 0))"

subsection \<open>The decorator\<close>

text \<open>\<open>NewWalletCache\<close>: the time to live that is used, and the cache, empty at first.\<close>

definition cache_ttl :: "int \<Rightarrow> int" where
  "cache_ttl ttl = (if ttl \<le> 0 then 2000000000 else ttl)"

definition NewWalletCache :: "'w \<Rightarrow> 'w cached" where
  "NewWalletCache inner = \<lparr>wcInner = inner, wcKeys = Map.empty, wcCalls = 0, wcWarnings = []\<rparr>"

text \<open>
  \<open>Get\<close> in two parts, between which other requests can run: the look into the cache, and what
  comes after the repository has answered.
\<close>

definition cache_lookup :: "redis_env \<Rightarrow> string \<Rightarrow> 'w cached \<Rightarrow> wallet option \<times> 'w cached" where
  "cache_lookup env u s =
     (let key = keyPrefix @ u; (r, s1) = redis_Get env key s
      in case r of
           Inr (Some (Some w)) \<Rightarrow> (Some w, s1)
         | Inr (Some None) \<Rightarrow> (None, snd (redis_Del env key s1))
         | Inr None \<Rightarrow> (None, s1)
         | Inl e \<Rightarrow> (None, warn (Some e) (CacheReadFailed u) s1))"

definition cache_fill :: "redis_env \<Rightarrow> int \<Rightarrow> string \<Rightarrow> wallet \<Rightarrow> 'w cached \<Rightarrow> 'w cached" where
  "cache_fill env ttl u w s =
     (let (err, s1) = redis_Set env (keyPrefix @ u) w (cache_ttl ttl) s
      in warn err (CacheWriteFailed u) s1)"

definition WalletCache_Get :: "redis_env \<Rightarrow> int \<Rightarrow> 'w WalletRepository \<Rightarrow> ctx \<Rightarrow> string \<Rightarrow> 'w cached
    \<Rightarrow> (goerr + wallet) \<times> 'w cached" where
  "WalletCache_Get env ttl repo c u s =
     (let (hit, s1) = cache_lookup env u s
      in case hit of
           Some w \<Rightarrow> (Inr w, s1)
         | None \<Rightarrow>
             (let (r, i) = wr_Get repo c u (wcInner s1); s2 = s1\<lparr>wcInner := i\<rparr>
              in case r of Inl e \<Rightarrow> (Inl e, s2) | Inr w \<Rightarrow> (Inr w, cache_fill env ttl u w s2)))"

definition invalidate :: "redis_env \<Rightarrow> string \<Rightarrow> 'w cached \<Rightarrow> 'w cached" where
  "invalidate env u s =
     (let (err, s1) = redis_Del env (keyPrefix @ u) s in warn err (CacheInvalidationFailed u) s1)"

definition WalletCache_Upsert :: "redis_env \<Rightarrow> 'w WalletRepository \<Rightarrow> ctx \<Rightarrow> wallet \<Rightarrow> 'w cached
    \<Rightarrow> goerr option \<times> 'w cached" where
  "WalletCache_Upsert env repo c w s =
     (let (err, i) = wr_Upsert repo c w (wcInner s); s1 = s\<lparr>wcInner := i\<rparr>
      in case err of Some e \<Rightarrow> (Some e, s1) | None \<Rightarrow> (None, invalidate env (wUserID w) s1))"

definition WalletCache_Update :: "redis_env \<Rightarrow> 'w WalletRepository \<Rightarrow> ctx \<Rightarrow> string \<Rightarrow> wallet_fn \<Rightarrow> 'w cached
    \<Rightarrow> goerr option \<times> 'w cached" where
  "WalletCache_Update env repo c u f s =
     (let (err, i) = wr_Update repo c u f (wcInner s)
      in (err, invalidate env u (s\<lparr>wcInner := i\<rparr>)))"

definition WalletCache_List :: "'w WalletRepository \<Rightarrow> ctx \<Rightarrow> 'w cached \<Rightarrow> (goerr + wallet list) \<times> 'w cached" where
  "WalletCache_List repo c s = (let (r, i) = wr_List repo c (wcInner s) in (r, s\<lparr>wcInner := i\<rparr>))"

definition wallet_cache :: "redis_env \<Rightarrow> int \<Rightarrow> 'w WalletRepository \<Rightarrow> 'w cached WalletRepository" where
  "wallet_cache env ttl repo = \<lparr>wr_Get = WalletCache_Get env ttl repo, wr_Upsert = WalletCache_Upsert env repo,
     wr_Update = WalletCache_Update env repo, wr_List = WalletCache_List repo\<rparr>"

lemma wallet_cache_simps [simp]:
  "wr_Get (wallet_cache env ttl repo) = WalletCache_Get env ttl repo"
  "wr_Upsert (wallet_cache env ttl repo) = WalletCache_Upsert env repo"
  "wr_Update (wallet_cache env ttl repo) = WalletCache_Update env repo"
  "wr_List (wallet_cache env ttl repo) = WalletCache_List repo"
  by (simp_all add: wallet_cache_def)

subsection \<open>The cache is a ledger\<close>

text \<open>No command of Redis touches the repository.\<close>

lemma redis_inner [simp]:
  "wcInner (snd (redis_Get env k s)) = wcInner s" "wcInner (snd (redis_Set env k w t s)) = wcInner s"
  "wcInner (snd (redis_Del env k s)) = wcInner s" "wcInner (warn err line s) = wcInner s"
  "wcKeys (warn err line s) = wcKeys s" "wcKeys (snd (redis_Get env k s)) = wcKeys s"
  by (auto simp: redis_Get_def redis_Set_def redis_Del_def warn_def Let_def split: option.splits)

lemma cache_inner [simp]:
  "wcInner (snd (cache_lookup env u s)) = wcInner s" "wcInner (cache_fill env ttl u w s) = wcInner s"
  "wcInner (invalidate env u s) = wcInner s"
  by (simp_all add: cache_lookup_def cache_fill_def invalidate_def Let_def case_prod_beta split: sum.split option.split)

text \<open>
  Whatever Redis does, the decorator promises of the wallets behind it what the repository
  promises: the cache is not on the path that moves money.
\<close>

context wallet_ledger
begin

lemma cached_ledger: "wallet_ledger (wallet_cache env ttl repo) (\<lambda>s. view (wcInner s))"
proof
  show "\<exists>w. view (wcInner s) u = Some w \<and> fst (f w) = None \<and> view (wcInner s') = (view (wcInner s))(u \<mapsto> snd (f w))"
    if "keeps_user f" "wr_Update (wallet_cache env ttl repo) c u f s = (None, s')" for f c u s s'
    using that update_kept [OF that(1), of c u "wcInner s"] by (auto simp: WalletCache_Update_def split: prod.splits)
  show "view (wcInner s') = view (wcInner s)"
    if "wr_Update (wallet_cache env ttl repo) c u f s = (Some e, s')" for c u f s e s'
    using that update_rolled_back [of c u f "wcInner s"] by (auto simp: WalletCache_Update_def split: prod.splits)
  show "view (wcInner s') = (view (wcInner s))(wUserID w \<mapsto> w)"
    if "wr_Upsert (wallet_cache env ttl repo) c w s = (None, s')" for c w s s'
    using that upsert_applied [of c w "wcInner s"]
    by (auto simp: WalletCache_Upsert_def Let_def split: prod.splits option.splits)
  show "view (wcInner s') = view (wcInner s)"
    if "wr_Upsert (wallet_cache env ttl repo) c w s = (Some e, s')" for c w s e s'
    using that upsert_failed [of c w "wcInner s"]
    by (auto simp: WalletCache_Upsert_def Let_def split: prod.splits option.splits)
  show "view (wcInner (snd (wr_Get (wallet_cache env ttl repo) c u s))) = view (wcInner s)" for c u s
    by (simp add: WalletCache_Get_def Let_def case_prod_beta get_view split: option.split sum.split)
  show "view (wcInner (snd (wr_List (wallet_cache env ttl repo) c s))) = view (wcInner s)" for c s
    using list_view [of c "wcInner s"] by (auto simp: WalletCache_List_def split: prod.splits)
qed

end

context sound_wallet_ledger
begin

lemma cached_sound: "sound_wallet_ledger (wallet_cache env ttl repo) (\<lambda>s. view (wcInner s))"
  by (intro sound_wallet_ledger.intro cached_ledger sound_wallet_ledger_axioms.intro)
    (auto simp: WalletCache_Update_def Let_def split: prod.splits, metis fst_conv update_sound)

end

interpretation mem_cached: wallet_ledger "wallet_cache env ttl mem_wallets" "\<lambda>s. ws_view (wcInner s)" for env ttl
  by (rule mem_ledger.cached_ledger)

interpretation pg_cached: wallet_ledger "wallet_cache env ttl (pg_wallets (answered orc))" "\<lambda>s. pg_view (wcInner s)"
  for env ttl orc
  by (rule pg_ledger.cached_ledger)

interpretation pg_cached_sound: sound_wallet_ledger "wallet_cache env ttl (pg_wallets (\<lambda>_. PgOk))" "\<lambda>s. pg_view (wcInner s)"
  for env ttl
  by (rule pg_sound.cached_sound)

subsection \<open>One request at a time the cache is invisible\<close>

text \<open>Every entry that decodes is the wallet of the repository.\<close>

definition coherent :: "('w \<Rightarrow> string \<Rightarrow> wallet option) \<Rightarrow> 'w cached \<Rightarrow> bool" where
  "coherent view s \<longleftrightarrow> (\<forall>u w x. wcKeys s (keyPrefix @ u) = Some (Some w, x) \<longrightarrow> view (wcInner s) u = Some w)"

text \<open>Redis does every command, though its answers may get lost.\<close>

definition redis_does :: "redis_env \<Rightarrow> bool" where
  "redis_does env \<longleftrightarrow> (\<forall>n. is_done (rdFate env n))"

lemma redis_Del_keys: "redis_does env \<Longrightarrow> wcKeys (snd (redis_Del env k s)) = (wcKeys s)(k := None)"
  by (simp add: redis_Del_def redis_does_def Let_def)

lemma redis_Get_hit: "fst (redis_Get env k s) = Inr (Some raw) \<Longrightarrow> \<exists>x. wcKeys s k = Some (raw, x)"
  by (auto simp: redis_Get_def Let_def split: option.splits if_splits)

lemma lookup_hit:
  "fst (cache_lookup env u s) = Some w \<Longrightarrow> \<exists>x. wcKeys s (keyPrefix @ u) = Some (Some w, x)"
  by (auto simp: cache_lookup_def Let_def case_prod_beta dest!: redis_Get_hit split: sum.splits option.splits)

lemma coherent_lookup: "coherent view s \<Longrightarrow> redis_does env \<Longrightarrow> coherent view (snd (cache_lookup env u s))"
  by (auto simp: coherent_def cache_lookup_def Let_def case_prod_beta redis_Del_keys split: sum.splits option.splits if_splits)

lemma coherent_fill: "coherent view s \<Longrightarrow> view (wcInner s) u = Some w \<Longrightarrow> coherent view (cache_fill env ttl u w s)"
  by (auto simp: coherent_def cache_fill_def redis_Set_def warn_def Let_def split: option.splits if_splits)

lemma coherent_invalidate:
  assumes "\<And>v w x. v \<noteq> u \<Longrightarrow> wcKeys s (keyPrefix @ v) = Some (Some w, x) \<Longrightarrow> view (wcInner s) v = Some w"
    and "redis_does env"
  shows "coherent view (invalidate env u s)"
  using assms by (auto simp: coherent_def invalidate_def case_prod_beta redis_Del_keys split: if_splits)

text \<open>The calls of the port as data, and what a repository answers to a list of them.\<close>

datatype wallet_call = CallGet string | CallUpsert wallet | CallUpdate string wallet_fn | CallList

datatype wallet_answer = AnswerWallet "goerr + wallet" | AnswerDone "goerr option" | AnswerList "goerr + wallet list"

primrec do_call :: "'w WalletRepository \<Rightarrow> ctx \<Rightarrow> wallet_call \<Rightarrow> 'w \<Rightarrow> wallet_answer \<times> 'w" where
  "do_call repo c (CallGet u) s = map_prod AnswerWallet id (wr_Get repo c u s)"
| "do_call repo c (CallUpsert w) s = map_prod AnswerDone id (wr_Upsert repo c w s)"
| "do_call repo c (CallUpdate u f) s = map_prod AnswerDone id (wr_Update repo c u f s)"
| "do_call repo c CallList s = map_prod AnswerList id (wr_List repo c s)"

fun wallet_calls :: "'w WalletRepository \<Rightarrow> (ctx \<times> wallet_call) list \<Rightarrow> 'w \<Rightarrow> wallet_answer list \<times> 'w" where
  "wallet_calls repo [] s = ([], s)"
| "wallet_calls repo ((c, x) # xs) s =
     (let (a, s1) = do_call repo c x s; (as, s2) = wallet_calls repo xs s1 in (a # as, s2))"

lemma cached_call:
  assumes "coherent ws_view s" and "redis_does env"
  shows "fst (do_call (wallet_cache env ttl mem_wallets) c x s) = fst (do_call mem_wallets c x (wcInner s))"
    and "wcInner (snd (do_call (wallet_cache env ttl mem_wallets) c x s)) = snd (do_call mem_wallets c x (wcInner s))"
    and "coherent ws_view (snd (do_call (wallet_cache env ttl mem_wallets) c x s))"
proof -
  let ?R = "do_call (wallet_cache env ttl mem_wallets) c x s" and ?I = "do_call mem_wallets c x (wcInner s)"
  have "fst ?R = fst ?I \<and> wcInner (snd ?R) = snd ?I \<and> coherent ws_view (snd ?R)"
  proof (cases x)
    case (CallGet u)
    show ?thesis
    proof (cases "fst (cache_lookup env u s)")
      case (Some w)
      then have "ws_view (wcInner s) u = Some w" using lookup_hit assms(1) by (fastforce simp: coherent_def)
      then show ?thesis using Some coherent_lookup [OF assms, of u]
        by (simp add: CallGet WalletCache_Get_def case_prod_beta WalletStore_Get_def ws_view_def)
    next
      case None
      have i: "(snd (cache_lookup env u s))\<lparr>wcInner := wcInner s\<rparr> = snd (cache_lookup env u s)"
        by (metis cache_inner(1) cached.surjective cached.update_convs(1) old.unit.exhaust cached.ext_inject)
      show ?thesis using None coherent_lookup [OF assms, of u]
        by (cases "map_of (ws_wallets (wcInner s)) u")
          (simp_all add: CallGet WalletCache_Get_def case_prod_beta WalletStore_Get_def ws_view_def i coherent_fill)
    qed
  next
    case (CallUpsert w)
    have "coherent ws_view (invalidate env (wUserID w) (s\<lparr>wcInner := snd (WalletStore_Upsert c w (wcInner s))\<rparr>))"
      using assms by (intro coherent_invalidate)
        (auto simp: coherent_def WalletStore_Upsert_def ws_view_def map_of_update)
    then show ?thesis by (simp add: CallUpsert WalletCache_Upsert_def WalletStore_Upsert_def)
  next
    case (CallUpdate u f)
    have "ws_view (snd (WalletStore_Update c u f (wcInner s))) v = ws_view (wcInner s) v" if "v \<noteq> u" for v
      using that by (simp add: WalletStore_Update_def ws_view_def map_of_update Let_def case_prod_beta split: option.split)
    then have "coherent ws_view (invalidate env u (s\<lparr>wcInner := snd (WalletStore_Update c u f (wcInner s))\<rparr>))"
      using assms by (intro coherent_invalidate) (auto simp: coherent_def)
    then show ?thesis by (simp add: CallUpdate WalletCache_Update_def case_prod_beta)
  next
    case CallList
    then show ?thesis using assms(1) by (simp add: WalletCache_List_def WalletStore_List_def coherent_def)
  qed
  then show "fst ?R = fst ?I" "wcInner (snd ?R) = snd ?I" "coherent ws_view (snd ?R)" by auto
qed

lemma cached_calls:
  "coherent ws_view s \<Longrightarrow> redis_does env \<Longrightarrow>
   fst (wallet_calls (wallet_cache env ttl mem_wallets) xs s) = fst (wallet_calls mem_wallets xs (wcInner s))
   \<and> wcInner (snd (wallet_calls (wallet_cache env ttl mem_wallets) xs s)) = snd (wallet_calls mem_wallets xs (wcInner s))"
proof (induction xs arbitrary: s)
  case (Cons y xs)
  obtain c x where y: "y = (c, x)" by (cases y)
  note st = cached_call [OF Cons.prems, of ttl c x]
  from Cons.IH [OF st(3) Cons.prems(2)] show ?case by (simp add: y case_prod_beta st)
qed simp

end
