(* ===== verification/Kafkalog.thy ===== *)
theory Kafkalog
  imports Memstore Polling "HOL-Library.Sublist"
begin

section \<open>The durable event log on Kafka\<close>

text \<open>
  \<open>internal/adapter/driven/kafkalog/kafkalog.go\<close>. The log is a pipeline: the channel \<open>in\<close>, the
  producer goroutine, the buffer of the client, the topic (one partition: a list of records
  with a key and a payload), the consumer goroutine, the channel \<open>out\<close>, settlement. JSON is a
  codec, an argument of the definitions: \<open>codec_ok\<close> is what the log relies on, that what was
  marshalled is read back. What the brokers and the client answer are arguments, too.
\<close>

record 'p codec =
  jsMarshal :: "event \<Rightarrow> goerr + 'p"
  jsUnmarshal :: "'p \<Rightarrow> goerr + event"

definition codec_ok :: "'p codec \<Rightarrow> bool" where
  "codec_ok c \<longleftrightarrow> (\<forall>ev p. jsMarshal c ev = Inr p \<longrightarrow> jsUnmarshal c p = Inr ev)"

type_synonym 'p krecord = "string \<times> 'p"

datatype kafka_line =
    KMarshalFailed string goerr
  | KProduceFailed goerr
  | KUnmarshalFailed nat goerr
  | KFetchError goerr
  | KFlushFailed goerr
  | KCommitFailed goerr

text \<open>
  \<open>kPos\<close> is the next offset the consumer fetches, \<open>kMarked\<close> the next offset after the marked
  records and \<open>kCommitted\<close> what the broker knows of it. \<open>kPublished\<close> and \<open>kSettled\<close> are ghosts:
  all that was sent to the log, and all that settlement received from it.
\<close>

record 'p klog =
  kInCap :: int
  kIn :: "event list"
  kInClosed :: bool
  kBuffer :: "'p krecord list"
  kTopic :: "'p krecord list"
  kPos :: nat
  kOut :: "event list"
  kOutClosed :: bool
  kStarted :: bool
  kMarked :: nat
  kCommitted :: nat
  kLines :: "kafka_line list"
  kPublished :: "event list"
  kSettled :: "event list"

subsection \<open>Starting\<close>

record kafka_world =
  kwNewClient :: "string list \<Rightarrow> goerr option"
  kwPings :: poll
  kwStart :: time
  kwAdmin :: "string list \<Rightarrow> goerr option"
  kwCreate :: "string \<Rightarrow> goerr + goerr option list"
  kwTopicExists :: goerr

definition waitForBrokers :: "kafka_world \<Rightarrow> int \<Rightarrow> goerr option option" where
  "waitForBrokers w wait = map_option fst (poll_loop ''kafka unreachable'' (kwPings w) (kwStart w + wait) 0)"

text \<open>The loop over the answers of \<open>CreateTopics\<close>: a topic that is there already is no error.\<close>

fun topic_errors :: "kafka_world \<Rightarrow> string \<Rightarrow> goerr option list \<Rightarrow> goerr option" where
  "topic_errors w topic [] = None"
| "topic_errors w topic (t # ts) =
     (case t of
        Some e \<Rightarrow> if \<not> errors_Is e (kwTopicExists w) then Some (Errorf (''create topic '' @ topic) e)
                  else topic_errors w topic ts
      | None \<Rightarrow> topic_errors w topic ts)"

definition ensureTopic :: "kafka_world \<Rightarrow> string list \<Rightarrow> string \<Rightarrow> goerr option" where
  "ensureTopic w brokers topic =
     (case kwAdmin w brokers of
        Some e \<Rightarrow> Some (Errorf ''create admin client'' e)
      | None \<Rightarrow>
          (case kwCreate w topic of
             Inl e \<Rightarrow> Some (Errorf (''create topic '' @ topic) e)
           | Inr resp \<Rightarrow> topic_errors w topic resp))"

definition new_klog :: "int \<Rightarrow> 'p krecord list \<Rightarrow> nat \<Rightarrow> 'p klog" where
  "new_klog buffer topic committed =
     \<lparr>kInCap = (if buffer \<le> 0 then 65536 else buffer), kIn = [], kInClosed = False, kBuffer = [],
      kTopic = topic, kPos = committed, kOut = [], kOutClosed = False, kStarted = False,
      kMarked = committed, kCommitted = committed, kLines = [], kPublished = [], kSettled = []\<rparr>"

text \<open>\<open>New\<close>: the log or an error, and whether a client is left open. \<open>None\<close>: the wait never ends.\<close>

definition kafka_New :: "kafka_world \<Rightarrow> string list \<Rightarrow> string \<Rightarrow> int \<Rightarrow> int \<Rightarrow> 'p krecord list \<Rightarrow> nat
    \<Rightarrow> ((goerr + 'p klog) \<times> bool) option" where
  "kafka_New w brokers topic buffer wait stored committed =
     (case kwNewClient w brokers of
        Some e \<Rightarrow> Some (Inl (Errorf ''create kafka client'' e), False)
      | None \<Rightarrow>
          (case waitForBrokers w wait of
             None \<Rightarrow> None
           | Some (Some e) \<Rightarrow> Some (Inl e, False)
           | Some None \<Rightarrow>
               (case ensureTopic w brokers topic of
                  Some e \<Rightarrow> Some (Inl e, False)
                | None \<Rightarrow> Some (Inr (new_klog buffer stored committed), True))))"

subsection \<open>Producing\<close>

text \<open>Sending on a closed channel panics.\<close>

definition Kafka_Publish :: "event \<Rightarrow> 'p klog \<Rightarrow> 'p klog option" where
  "Kafka_Publish ev l =
     (if kInClosed l then None else Some (l\<lparr>kIn := kIn l @ [ev], kPublished := kPublished l @ [ev]\<rparr>))"

definition symbolOf :: "event \<Rightarrow> string" where
  "symbolOf ev = (case eTrade ev of Some t \<Rightarrow> tSymbol t
     | None \<Rightarrow> (case eOrder ev of Some x \<Rightarrow> oSymbol x | None \<Rightarrow> ''unknown''))"

text \<open>One round of \<open>produceLoop\<close>.\<close>

definition produce_one :: "'p codec \<Rightarrow> event \<Rightarrow> 'p klog \<Rightarrow> 'p klog" where
  "produce_one c ev l =
     (case jsMarshal c ev of
        Inl e \<Rightarrow> l\<lparr>kLines := kLines l @ [KMarshalFailed (eID ev) e]\<rparr>
      | Inr payload \<Rightarrow> l\<lparr>kBuffer := kBuffer l @ [(symbolOf ev, payload)]\<rparr>)"

fun produceLoop :: "'p codec \<Rightarrow> event list \<Rightarrow> 'p klog \<Rightarrow> 'p klog" where
  "produceLoop c [] l = l"
| "produceLoop c (ev # evs) l = produceLoop c evs (produce_one c ev l)"

subsection \<open>Consuming\<close>

text \<open>
  The body of \<open>EachRecord\<close>: \<open>handed\<close> says which case of the \<open>select\<close> is taken. The result
  is the log and \<open>stop\<close>.
\<close>

definition mark :: "nat \<Rightarrow> 'p klog \<Rightarrow> 'p klog" where
  "mark offset l = l\<lparr>kMarked := max (kMarked l) (Suc offset)\<rparr>"

definition consume_record :: "'p codec \<Rightarrow> bool \<Rightarrow> nat \<Rightarrow> 'p krecord \<Rightarrow> 'p klog \<Rightarrow> 'p klog \<times> bool" where
  "consume_record c handed offset rec l =
     (case jsUnmarshal c (snd rec) of
        Inl e \<Rightarrow> (mark offset (l\<lparr>kLines := kLines l @ [KUnmarshalFailed offset e]\<rparr>), False)
      | Inr ev \<Rightarrow>
          if handed then (mark offset (l\<lparr>kOut := kOut l @ [ev]\<rparr>), False)
          else (l, True))"

definition out_cap :: nat where
  "out_cap = 1024"

text \<open>The next record of the topic, taken by a consumer that is not told to stop.\<close>

definition consume_next :: "'p codec \<Rightarrow> 'p klog \<Rightarrow> 'p klog option" where
  "consume_next c l =
     (if kStarted l \<and> \<not> kOutClosed l \<and> kPos l < length (kTopic l) \<and> length (kOut l) < out_cap
      then Some (fst (consume_record c True (kPos l) (kTopic l ! kPos l) (l\<lparr>kPos := Suc (kPos l)\<rparr>)))
      else None)"

fun consume_some :: "'p codec \<Rightarrow> nat \<Rightarrow> 'p klog \<Rightarrow> 'p klog" where
  "consume_some c 0 l = l"
| "consume_some c (Suc n) l = (case consume_next c l of Some l' \<Rightarrow> consume_some c n l' | None \<Rightarrow> l)"

text \<open>\<open>Events\<close> starts the consumer the first time.\<close>

definition Kafka_Events :: "'p klog \<Rightarrow> 'p klog" where
  "Kafka_Events l = l\<lparr>kStarted := True\<rparr>"

subsection \<open>Closing\<close>

text \<open>
  What happens around \<open>Close\<close>: the errors of the flush and of the commit, and how many
  records the consumer still hands over before it is stopped.
\<close>

record close_world =
  cwFlush :: "goerr option"
  cwConsumed :: nat
  cwCommit :: "goerr option"

definition kafka_drain :: "'p codec \<Rightarrow> 'p klog \<Rightarrow> 'p klog" where
  "kafka_drain c l = produceLoop c (kIn l) (l\<lparr>kInClosed := True, kIn := []\<rparr>)"

definition kafka_flush :: "goerr option \<Rightarrow> 'p klog \<Rightarrow> 'p klog" where
  "kafka_flush err l =
     (case err of
        Some e \<Rightarrow> l\<lparr>kLines := kLines l @ [KFlushFailed e]\<rparr>
      | None \<Rightarrow> l\<lparr>kTopic := kTopic l @ kBuffer l, kBuffer := []\<rparr>)"

definition kafka_commit :: "goerr option \<Rightarrow> 'p klog \<Rightarrow> 'p klog" where
  "kafka_commit err l =
     (case err of Some e \<Rightarrow> l\<lparr>kLines := kLines l @ [KCommitFailed e]\<rparr> | None \<Rightarrow> l\<lparr>kCommitted := kMarked l\<rparr>)"

definition Kafka_Close :: "'p codec \<Rightarrow> close_world \<Rightarrow> 'p klog \<Rightarrow> 'p klog" where
  "Kafka_Close c w l =
     (if kInClosed l then l
      else (let l1 = kafka_drain c l;
                l2 = kafka_flush (cwFlush w) l1;
                l3 = consume_some c (cwConsumed w) l2;
                l4 = (if kStarted l3 then l3\<lparr>kOutClosed := True\<rparr> else l3)
            in kafka_commit (cwCommit w) l4))"

definition kafka_log :: "'p codec \<Rightarrow> close_world \<Rightarrow> 'p klog EventLog" where
  "kafka_log c w = \<lparr>el_Publish = Kafka_Publish, el_Close = (\<lambda>l. Some (Kafka_Close c w l))\<rparr>"

subsection \<open>The pipeline as a state machine\<close>

text \<open>
  What can happen between two points where another goroutine, the broker or the machine can
  come in. \<open>KProduceFails\<close> is the callback with an error; \<open>KCrash\<close> a crash of the process and
  its restart: what was in memory is gone, and the consumer resumes at the committed offset.
\<close>

datatype kstep =
    KPublish event | KProduce | KDeliver | KProduceFails goerr | KStart | KConsume | KReceive | KCommit | KCrash

fun kdo :: "'p codec \<Rightarrow> kstep \<Rightarrow> 'p klog \<Rightarrow> 'p klog option" where
  "kdo c (KPublish ev) l = (if int (length (kIn l)) < kInCap l then Kafka_Publish ev l else None)"
| "kdo c KProduce l = (case kIn l of [] \<Rightarrow> None | ev # evs \<Rightarrow> Some (produce_one c ev (l\<lparr>kIn := evs\<rparr>)))"
| "kdo c KDeliver l = (case kBuffer l of [] \<Rightarrow> None
     | r # rs \<Rightarrow> Some (l\<lparr>kBuffer := rs, kTopic := kTopic l @ [r]\<rparr>))"
| "kdo c (KProduceFails e) l = (case kBuffer l of [] \<Rightarrow> None
     | r # rs \<Rightarrow> Some (l\<lparr>kBuffer := rs, kLines := kLines l @ [KProduceFailed e]\<rparr>))"
| "kdo c KStart l = Some (Kafka_Events l)"
| "kdo c KConsume l = consume_next c l"
| "kdo c KReceive l = (case kOut l of [] \<Rightarrow> None | ev # evs \<Rightarrow> Some (l\<lparr>kOut := evs, kSettled := kSettled l @ [ev]\<rparr>))"
| "kdo c KCommit l = Some (kafka_commit None l)"
| "kdo c KCrash l = Some (l\<lparr>kIn := [], kInClosed := False, kBuffer := [], kOut := [], kOutClosed := False,
     kStarted := False, kPos := kCommitted l, kMarked := kCommitted l\<rparr>)"

fun krun :: "'p codec \<Rightarrow> kstep list \<Rightarrow> 'p klog \<Rightarrow> 'p klog option" where
  "krun c [] l = Some l"
| "krun c (x # xs) l = (case kdo c x l of None \<Rightarrow> None | Some l' \<Rightarrow> krun c xs l')"

subsection \<open>What is on its way\<close>

text \<open>The events of a list of records, and those of the events that can be marshalled.\<close>

definition decoded :: "'p codec \<Rightarrow> 'p krecord list \<Rightarrow> event list" where
  "decoded c rs = concat (map (\<lambda>r. case jsUnmarshal c (snd r) of Inr ev \<Rightarrow> [ev] | Inl e \<Rightarrow> []) rs)"

definition marshals :: "'p codec \<Rightarrow> event \<Rightarrow> bool" where
  "marshals c ev \<longleftrightarrow> (\<exists>p. jsMarshal c ev = Inr p)"

lemma decoded_simps [simp]:
  "decoded c [] = []"
  "decoded c (r # rs) = (case jsUnmarshal c (snd r) of Inr ev \<Rightarrow> [ev] | Inl e \<Rightarrow> []) @ decoded c rs"
  "decoded c (rs @ rs') = decoded c rs @ decoded c rs'"
  by (simp_all add: decoded_def)

text \<open>Settled, then handed over, then stored, then buffered, then queued.\<close>

definition in_flight :: "'p codec \<Rightarrow> 'p klog \<Rightarrow> event list" where
  "in_flight c l = kSettled l @ kOut l @ decoded c (drop (kPos l) (kTopic l)) @ decoded c (kBuffer l)
     @ filter (marshals c) (kIn l)"

lemma decoded_drop:
  "n < length rs \<Longrightarrow> decoded c (drop n rs) =
    (case jsUnmarshal c (snd (rs ! n)) of Inr ev \<Rightarrow> [ev] | Inl e \<Rightarrow> []) @ decoded c (drop (Suc n) rs)"
  by (simp add: Cons_nth_drop_Suc [symmetric] del: Cons_nth_drop_Suc)

definition faultless :: "kstep \<Rightarrow> bool" where
  "faultless x \<longleftrightarrow> x \<noteq> KCrash \<and> (\<forall>e. x \<noteq> KProduceFails e)"

text \<open>The offsets are in order: nothing is committed that was not marked, nothing marked that was not fetched.\<close>

definition offsets_ok :: "'p klog \<Rightarrow> bool" where
  "offsets_ok l \<longleftrightarrow> kCommitted l \<le> kMarked l \<and> kMarked l \<le> kPos l \<and> kPos l \<le> length (kTopic l)"

lemma produce_one_fields [simp]:
  "kIn (produce_one c ev l) = kIn l" "kPos (produce_one c ev l) = kPos l" "kOut (produce_one c ev l) = kOut l"
  "kTopic (produce_one c ev l) = kTopic l" "kSettled (produce_one c ev l) = kSettled l"
  "kPublished (produce_one c ev l) = kPublished l" "kMarked (produce_one c ev l) = kMarked l"
  "kCommitted (produce_one c ev l) = kCommitted l" "kStarted (produce_one c ev l) = kStarted l"
  "kInClosed (produce_one c ev l) = kInClosed l" "kOutClosed (produce_one c ev l) = kOutClosed l"
  by (simp_all add: produce_one_def split: sum.split)

lemma produce_one_buffer:
  "codec_ok c \<Longrightarrow> decoded c (kBuffer (produce_one c ev l)) = decoded c (kBuffer l) @ (if marshals c ev then [ev] else [])"
  by (auto simp: produce_one_def marshals_def codec_ok_def split: sum.split)

lemma kdo_offsets: "offsets_ok l \<Longrightarrow> kdo c x l = Some l' \<Longrightarrow> offsets_ok l'"
  by (cases x)
    (auto simp: offsets_ok_def Kafka_Publish_def Kafka_Events_def consume_next_def consume_record_def mark_def kafka_commit_def
      split: if_splits list.splits sum.splits)

lemma consume_next_in_flight:
  assumes "codec_ok c" and "consume_next c l = Some l'"
  shows "in_flight c l' = in_flight c l" and "kPublished l' = kPublished l" and "kTopic l' = kTopic l"
    and "kBuffer l' = kBuffer l" and "kIn l' = kIn l" and "kStarted l' = kStarted l" and "kInClosed l' = kInClosed l"
  using assms
  by (auto simp: consume_next_def consume_record_def mark_def in_flight_def decoded_drop split: if_splits sum.splits)

lemma kdo_published: "kdo c x l = Some l' \<Longrightarrow> kPublished l' = kPublished l @ (case x of KPublish ev \<Rightarrow> [ev] | _ \<Rightarrow> [])"
  by (cases x)
    (auto simp: Kafka_Publish_def Kafka_Events_def consume_next_def consume_record_def mark_def kafka_commit_def
      split: if_splits list.splits sum.splits)

lemma kdo_in_flight:
  assumes "codec_ok c" and "offsets_ok l" and "kdo c x l = Some l'" and "faultless x"
  shows "in_flight c l' = in_flight c l @ filter (marshals c) (case x of KPublish ev \<Rightarrow> [ev] | _ \<Rightarrow> [])"
proof (cases x)
  case (KPublish ev)
  then show ?thesis using assms(3) by (auto simp: Kafka_Publish_def in_flight_def split: if_splits)
next
  case KProduce
  then show ?thesis using assms(3) produce_one_buffer [OF assms(1)]
    by (auto simp: in_flight_def split: list.splits)
next
  case KDeliver
  then show ?thesis using assms(2,3)
    by (auto simp: in_flight_def offsets_ok_def split: list.splits)
next
  case KConsume
  then show ?thesis using consume_next_in_flight(1) [OF assms(1)] assms(3) by simp
next
  case KReceive
  then show ?thesis using assms(3) by (auto simp: in_flight_def split: list.splits)
qed (use assms(3,4) in \<open>auto simp: in_flight_def Kafka_Events_def kafka_commit_def faultless_def\<close>)

text \<open>A record whose production fails is a gap: what is left is still in order.\<close>

lemma kdo_gap:
  assumes "kdo c (KProduceFails e) l = Some l'"
  shows "subseq (in_flight c l') (in_flight c l)"
proof -
  obtain r rs where "kBuffer l = r # rs" "l' = l\<lparr>kBuffer := rs, kLines := kLines l @ [KProduceFailed e]\<rparr>"
    using assms by (auto split: list.splits)
  moreover have "subseq ys (decoded c [r] @ ys)" for ys by (rule list_emb_append2) simp
  ultimately show ?thesis unfolding in_flight_def by (simp add: subseq_append')
qed

lemma krun_in_flight:
  "codec_ok c \<Longrightarrow> offsets_ok l \<Longrightarrow> krun c xs l = Some l' \<Longrightarrow> list_all (\<lambda>x. x \<noteq> KCrash) xs \<Longrightarrow>
   \<exists>pubs. kPublished l' = kPublished l @ pubs \<and> subseq (in_flight c l') (in_flight c l @ filter (marshals c) pubs)
     \<and> (list_all faultless xs \<longrightarrow> in_flight c l' = in_flight c l @ filter (marshals c) pubs)"
proof (induction xs arbitrary: l)
  case (Cons x xs)
  then obtain l1 where d: "kdo c x l = Some l1" and k: "krun c xs l1 = Some l'" by (auto split: option.splits)
  let ?p = "case x of KPublish ev \<Rightarrow> [ev] | _ \<Rightarrow> []"
  have s1: "subseq (in_flight c l1) (in_flight c l @ filter (marshals c) ?p)"
    and e1: "faultless x \<longrightarrow> in_flight c l1 = in_flight c l @ filter (marshals c) ?p"
  proof -
    show e: "faultless x \<longrightarrow> in_flight c l1 = in_flight c l @ filter (marshals c) ?p"
      using kdo_in_flight [OF Cons.prems(1,2) d] by blast
    show "subseq (in_flight c l1) (in_flight c l @ filter (marshals c) ?p)"
    proof (cases "faultless x")
      case False
      then obtain e where "x = KProduceFails e" using Cons.prems(4) by (auto simp: faultless_def)
      with d kdo_gap show ?thesis by fastforce
    qed (use e in simp)
  qed
  obtain pubs where p: "kPublished l' = kPublished l1 @ pubs"
    "subseq (in_flight c l') (in_flight c l1 @ filter (marshals c) pubs)"
    "list_all faultless xs \<longrightarrow> in_flight c l' = in_flight c l1 @ filter (marshals c) pubs"
    using Cons.IH [OF Cons.prems(1) kdo_offsets [OF Cons.prems(2) d] k] Cons.prems(4) by auto
  have "subseq (in_flight c l') ((in_flight c l @ filter (marshals c) ?p) @ filter (marshals c) pubs)"
    using p(2) list_emb_append_mono [OF s1 subseq_order.order_refl] subseq_order.order_trans by blast
  then show ?case using p kdo_published [OF d] e1 by (intro exI [of _ "?p @ pubs"]) auto
qed (auto intro: exI [of _ "[]"])

subsection \<open>Closing flushes\<close>

lemma produceLoop_fields [simp]:
  "kIn (produceLoop c evs l) = kIn l" "kTopic (produceLoop c evs l) = kTopic l" "kPos (produceLoop c evs l) = kPos l"
  "kStarted (produceLoop c evs l) = kStarted l" "kInClosed (produceLoop c evs l) = kInClosed l"
  by (induction evs arbitrary: l) simp_all

lemma produceLoop_buffer:
  "codec_ok c \<Longrightarrow> decoded c (kBuffer (produceLoop c evs l)) = decoded c (kBuffer l) @ filter (marshals c) evs"
  by (induction evs arbitrary: l) (auto simp: produce_one_buffer)

lemma consume_some_fields:
  "codec_ok c \<Longrightarrow> kTopic (consume_some c n l) = kTopic l \<and> kBuffer (consume_some c n l) = kBuffer l
     \<and> kIn (consume_some c n l) = kIn l \<and> kInClosed (consume_some c n l) = kInClosed l"
  by (induction n arbitrary: l) (auto split: option.split dest: consume_next_in_flight)


lemma consume_some_closed: "kInClosed (consume_some c n l) = kInClosed l"
proof (induction n arbitrary: l)
  case (Suc n)
  have "kInClosed l' = kInClosed l" if "consume_next c l = Some l'" for l'
    using that by (auto simp: consume_next_def consume_record_def mark_def split: if_splits sum.splits)
  with Suc show ?case by (auto split: option.split)
qed simp

lemma close_steps_closed [simp]:
  "kInClosed (kafka_flush e l) = kInClosed l" "kInClosed (kafka_commit e l) = kInClosed l" "kInClosed (kafka_drain c l)"
  by (simp_all add: kafka_flush_def kafka_commit_def kafka_drain_def split: option.split)

lemma Close_closed: "kInClosed (Kafka_Close c w l)"
  by (simp add: Kafka_Close_def Let_def consume_some_closed)

interpretation kafka_sink: event_sink "kafka_log c w" kPublished kInClosed for c w
  by unfold_locales (auto simp: kafka_log_def Kafka_Publish_def Close_closed)

subsection \<open>The consumer's loop\<close>

text \<open>
  \<open>consumeLoop\<close> fetches batches. One round: whether the context is done before and after the
  poll, whether the client is closed, the errors of the fetch, and for each fetched record
  which case of the \<open>select\<close> comes first. \<open>EachRecord\<close> goes on over the batch after \<open>stop\<close>, but
  does nothing any more; the client's position is behind the whole batch.
\<close>

record fetch =
  fcDone :: bool
  fcClosed :: bool
  fcDoneAfter :: bool
  fcErrors :: "goerr list"
  fcHanded :: "bool list"

fun each_record :: "'p codec \<Rightarrow> bool list \<Rightarrow> bool \<Rightarrow> 'p klog \<Rightarrow> 'p klog \<times> bool" where
  "each_record c [] stop l = (l, stop)"
| "each_record c (h # hs) stop l =
     (let l0 = l\<lparr>kPos := Suc (kPos l)\<rparr>
      in if stop then each_record c hs True l0
         else (let (l1, stop1) = consume_record c h (kPos l) (kTopic l ! kPos l) l0
               in each_record c hs stop1 l1))"

definition each_error :: "goerr list \<Rightarrow> 'p klog \<Rightarrow> 'p klog" where
  "each_error errs l = l\<lparr>kLines := kLines l @ map KFetchError errs\<rparr>"

fun consumeLoop :: "'p codec \<Rightarrow> fetch list \<Rightarrow> 'p klog \<Rightarrow> 'p klog" where
  "consumeLoop c [] l = l"
| "consumeLoop c (f # fs) l =
     (if fcDone f then l\<lparr>kOutClosed := True\<rparr>
      else if fcClosed f \<or> fcDoneAfter f then l\<lparr>kOutClosed := True\<rparr>
      else consumeLoop c fs (fst (each_record c (fcHanded f) False (each_error (fcErrors f) l))))"

text \<open>A batch that is handed over completely is so many rounds of \<open>consume_next\<close>.\<close>

lemma each_record_handed:
  assumes "kStarted l" and "\<not> kOutClosed l" and "kPos l + n \<le> length (kTopic l)" and "length (kOut l) + n \<le> out_cap"
  shows "each_record c (replicate n True) False l = (consume_some c n l, False)"
  using assms
proof (induction n arbitrary: l)
  case (Suc n)
  let ?l = "fst (consume_record c True (kPos l) (kTopic l ! kPos l) (l\<lparr>kPos := Suc (kPos l)\<rparr>))"
  have n: "consume_next c l = Some ?l" using Suc.prems by (simp add: consume_next_def)
  have f: "kStarted ?l" "\<not> kOutClosed ?l" "kPos ?l = Suc (kPos l)" "kTopic ?l = kTopic l" "length (kOut ?l) \<le> Suc (length (kOut l))"
    "snd (consume_record c True (kPos l) (kTopic l ! kPos l) (l\<lparr>kPos := Suc (kPos l)\<rparr>)) = False"
    using Suc.prems by (auto simp: consume_record_def mark_def split: sum.split)
  have "each_record c (replicate n True) False ?l = (consume_some c n ?l, False)"
    using Suc.prems f by (intro Suc.IH) auto
  then show ?case using n f(6) by (simp add: Let_def case_prod_beta)
qed simp

text \<open>
  A consumer that is stopped in the middle of a batch marks nothing it has not handed over:
  what is handed over and what is not marked yet are together what they were.
\<close>

lemma each_record_stopped: "fst (each_record c hs True l) = l\<lparr>kPos := kPos l + length hs\<rparr>"
  by (induction hs arbitrary: l) simp_all

lemma each_record_marks:
  fixes c :: "'p codec"
  assumes "kMarked l = kPos l" and "kPos l + length hs \<le> length (kTopic l)"
  defines "l' \<equiv> fst (each_record c hs False l)"
  shows "kOut l' @ decoded c (drop (kMarked l') (kTopic l')) = kOut l @ decoded c (drop (kMarked l) (kTopic l))"
  using assms(1,2) unfolding l'_def
proof (induction hs arbitrary: l)
  case (Cons h hs)
  let ?o = "kPos l"
  have pos: "?o < length (kTopic l)" using Cons.prems(2) by simp
  show ?case
  proof (cases "h \<or> (\<exists>e. jsUnmarshal c (snd (kTopic l ! ?o)) = Inl e)")
    case True
    let ?l = "fst (consume_record c h ?o (kTopic l ! ?o) (l\<lparr>kPos := Suc ?o\<rparr>))"
    have st: "snd (consume_record c h ?o (kTopic l ! ?o) (l\<lparr>kPos := Suc ?o\<rparr>)) = False"
      using True by (auto simp: consume_record_def split: sum.split)
    have f: "kMarked ?l = kPos ?l" "kPos ?l = Suc ?o" "kTopic ?l = kTopic l"
      "kOut ?l = kOut l @ (case jsUnmarshal c (snd (kTopic l ! ?o)) of Inr ev \<Rightarrow> [ev] | Inl e \<Rightarrow> [])"
      using True Cons.prems(1) by (auto simp: consume_record_def mark_def split: sum.split)
    have "kOut (fst (each_record c hs False ?l)) @ decoded c (drop (kMarked (fst (each_record c hs False ?l))) (kTopic (fst (each_record c hs False ?l))))
      = kOut ?l @ decoded c (drop (kMarked ?l) (kTopic ?l))"
      using Cons.prems(2) f by (intro Cons.IH) auto
    also have "\<dots> = kOut l @ decoded c (drop (kMarked l) (kTopic l))"
      using decoded_drop [OF pos, of c] Cons.prems(1) f by simp
    finally show ?thesis using st by (simp add: Let_def case_prod_beta)
  next
    case False
    then have "consume_record c h ?o (kTopic l ! ?o) (l\<lparr>kPos := Suc ?o\<rparr>) = (l\<lparr>kPos := Suc ?o\<rparr>, True)"
      by (auto simp: consume_record_def split: sum.split)
    then show ?thesis by (simp add: each_record_stopped)
  qed
qed simp

end
