(* ===== verification/Delivery.thy ===== *)
theory Delivery
  imports Kafkalog Settlement Postgres
begin

section \<open>Delivery across crashes: Kafka, the journal and settlement together\<close>

text \<open>
  The package comment of \<open>kafkalog.go\<close> claims that a crash can redeliver but not lose, and that
  the journal makes redelivery harmless. Here is what it takes: offsets may be committed only
  while nothing is on its way from the consumer to settlement (\<open>careful\<close>). Then, whatever
  crashes happen, settlement sees the topic in order with repetitions, and a journal in
  Postgres turns that into each event once. Without the condition events are lost.
\<close>

subsection \<open>A stream without its repetitions\<close>

fun firsts :: "string set \<Rightarrow> event list \<Rightarrow> event list" where
  "firsts A [] = []"
| "firsts A (ev # evs) = (if eID ev \<in> A then firsts A evs else ev # firsts (insert (eID ev) A) evs)"

lemma firsts_first_seen: "map snd (first_seen A evs) = firsts A (map snd evs)"
  by (induction A evs rule: first_seen.induct) auto

lemma firsts_snoc:
  "firsts A (evs @ [ev]) = firsts A evs @ (if eID ev \<in> A \<union> eID ` set evs then [] else [ev])"
  by (induction evs arbitrary: A) auto

lemma firsts_ids: "eID ` set (firsts A evs) = eID ` set evs - A"
  by (induction evs arbitrary: A) auto

lemma firsts_distinct: "distinct (map eID evs) \<Longrightarrow> A \<inter> eID ` set evs = {} \<Longrightarrow> firsts A evs = evs"
proof (induction evs arbitrary: A)
  case (Cons ev evs)
  then have "firsts (insert (eID ev) A) evs = evs" by (intro Cons.IH) auto
  with Cons.prems show ?case by auto
qed simp

context reliable_journal
begin

text \<open>The readings of the clock move nothing, and a redelivered event moves nothing.\<close>

lemma run_times:
  assumes "spJournal S = journal" and "map snd evs = map snd evs'" and "moved s = moved s'"
    and "processed (stJournal s) = processed (stJournal s')"
  shows "moved (run_settlement S c evs s) = moved (run_settlement S c evs' s')"
  using assms(2-4)
proof (induction evs arbitrary: evs' s s')
  case (Cons x evs)
  obtain t ev where x: "x = (t, ev)" by (cases x)
  obtain t' evs2 where evs': "evs' = (t', ev) # evs2" "map snd evs = map snd evs2"
    using Cons.prems(1) x by (cases evs') auto
  have "moved (handle S c t ev s) = moved (handle S c t' ev s')"
    using handle_moved(1) [OF assms(1), of c] Cons.prems(2,3) apply_event_moved [OF Cons.prems(2), of S c ev] by simp
  moreover have "processed (stJournal (handle S c t ev s)) = processed (stJournal (handle S c t' ev s'))"
    using handle_moved(2) [OF assms(1), of c] Cons.prems(3) by simp
  ultimately show ?case using Cons.IH [OF evs'(2)] by (simp add: x evs'(1))
qed simp

lemma run_firsts:
  assumes "spJournal S = journal" and "processed (stJournal s) = {}" and "firsts {} (map snd evs) = map snd evs'"
    and "distinct (map (eID \<circ> snd) evs')"
  shows "moved (run_settlement S c evs s) = moved (run_settlement S c evs' s)"
proof -
  have "map snd (first_seen {} evs) = map snd evs'" using assms(3) by (simp add: firsts_first_seen)
  from run_times [OF assms(1) this refl refl] run_first_seen [OF assms(1), of s s c evs] assms(2)
  show ?thesis by simp
qed

end

text \<open>A database whose answers arrive is a reliable journal.\<close>

interpretation pg_reliable: reliable_journal "pg_journal (\<lambda>_. PgOk)" "\<lambda>db. set (pgEvents db)"
  by unfold_locales (auto simp: pg_journal_def PgJournal_MarkProcessed_def pg_exec_def pg_next_def)

subsection \<open>What settlement sees of the topic\<close>

text \<open>Commits happen only while no event is between the consumer and settlement.\<close>

fun careful :: "'p codec \<Rightarrow> kstep list \<Rightarrow> 'p klog \<Rightarrow> bool" where
  "careful c [] l \<longleftrightarrow> True"
| "careful c (x # xs) l \<longleftrightarrow> (x = KCommit \<longrightarrow> kOut l = []) \<and> (case kdo c x l of None \<Rightarrow> True | Some l' \<Rightarrow> careful c xs l')"

definition reached :: "'p codec \<Rightarrow> nat \<Rightarrow> 'p klog \<Rightarrow> nat" where
  "reached c k l = length (decoded c (take k (kTopic l)))"

text \<open>
  \<open>n\<close> events of the topic have been settled at least once; this incarnation of the consumer
  has settled up to event \<open>a\<close>, and what is on its way follows there.
\<close>

definition delivery_inv :: "'p codec \<Rightarrow> nat \<Rightarrow> nat \<Rightarrow> 'p klog \<Rightarrow> bool" where
  "delivery_inv c n a l \<longleftrightarrow> offsets_ok l \<and> firsts {} (kSettled l) = take n (decoded c (kTopic l))
     \<and> n \<le> length (decoded c (kTopic l)) \<and> a \<le> n \<and> a \<le> reached c (kPos l) l
     \<and> kOut l = drop a (take (reached c (kPos l) l) (decoded c (kTopic l))) \<and> reached c (kCommitted l) l \<le> n"

lemma decoded_take: "decoded c (take k rs) = take (length (decoded c (take k rs))) (decoded c rs)"
proof -
  have "decoded c rs = decoded c (take k rs) @ decoded c (drop k rs)"
    using decoded_simps(3) [of c "take k rs" "drop k rs"] by simp
  then show ?thesis by (metis append_eq_conv_conj)
qed

lemma reached_le: "reached c k l \<le> length (decoded c (kTopic l))"
  unfolding reached_def by (subst decoded_take) simp

lemma reached_mono: "j \<le> k \<Longrightarrow> reached c j l \<le> reached c k l"
proof -
  assume "j \<le> k"
  then have "take k (kTopic l) = take j (kTopic l) @ take (k - j) (drop j (kTopic l))"
    by (metis le_add_diff_inverse take_add)
  then show ?thesis by (simp add: reached_def)
qed

lemma kdo_topic: "kdo c x l = Some l' \<Longrightarrow> prefix (kTopic l) (kTopic l')"
  by (cases x)
    (auto simp: Kafka_Publish_def Kafka_Events_def consume_next_def consume_record_def mark_def kafka_commit_def
      split: if_splits list.splits sum.splits)

lemma krun_topic: "krun c xs l = Some l' \<Longrightarrow> prefix (kTopic l) (kTopic l')"
  by (induction xs arbitrary: l) (auto split: option.splits dest: kdo_topic intro: prefix_order.trans)

text \<open>A log that differs only in other parts, or whose topic only grew, keeps the invariant.\<close>

lemma delivery_inv_grow:
  assumes "delivery_inv c n a l" and "kTopic l' = kTopic l @ rs" and "kSettled l' = kSettled l" and "kPos l' = kPos l"
    and "kOut l' = kOut l" and "kCommitted l' = kCommitted l" and "kMarked l' = kMarked l"
  shows "delivery_inv c n a l'"
proof -
  have o: "kCommitted l \<le> length (kTopic l)" "kPos l \<le> length (kTopic l)" using assms(1) by (auto simp: delivery_inv_def offsets_ok_def)
  then have r: "reached c (kPos l') l' = reached c (kPos l) l" "reached c (kCommitted l') l' = reached c (kCommitted l) l"
    by (simp_all add: reached_def assms)
  have t: "take k (decoded c (kTopic l')) = take k (decoded c (kTopic l))" if "k \<le> length (decoded c (kTopic l))" for k
    using that by (simp add: assms(2))
  show ?thesis
    using assms(1) reached_le [of c "kPos l" l] unfolding delivery_inv_def r
    by (auto simp: t assms(3-) offsets_ok_def) (auto simp: assms(2))
qed

lemma delivery_consume:
  assumes inv: "delivery_inv c n a l" and st: "consume_next c l = Some l'"
  shows "delivery_inv c n a l'"
proof -
  let ?T = "decoded c (kTopic l)" and ?p = "reached c (kPos l) l"
  have pos: "kPos l < length (kTopic l)" using st by (auto simp: consume_next_def split: if_splits)
  have f: "kTopic l' = kTopic l" "kPos l' = Suc (kPos l)" "kSettled l' = kSettled l" "kCommitted l' = kCommitted l"
    and off: "offsets_ok l'"
    using st inv by (auto simp: consume_next_def consume_record_def mark_def delivery_inv_def offsets_ok_def split: if_splits sum.splits)
  have tk: "take (Suc (kPos l)) (kTopic l) = take (kPos l) (kTopic l) @ [kTopic l ! kPos l]"
    using pos by (simp add: take_Suc_conv_app_nth)
  have rest: "reached c (kCommitted l') l' = reached c (kCommitted l) l" by (simp add: reached_def f)
  show ?thesis
  proof (cases "jsUnmarshal c (snd (kTopic l ! kPos l))")
    case (Inl e)
    then have "kOut l' = kOut l" using st by (auto simp: consume_next_def consume_record_def mark_def split: if_splits)
    moreover have "reached c (kPos l') l' = ?p" by (simp add: reached_def f tk Inl)
    ultimately show ?thesis using inv off rest by (simp add: delivery_inv_def f)
  next
    case (Inr ev)
    then have out: "kOut l' = kOut l @ [ev]" using st by (auto simp: consume_next_def consume_record_def mark_def split: if_splits)
    have p: "reached c (kPos l') l' = Suc ?p" by (simp add: reached_def f tk Inr)
    have "take (Suc ?p) ?T = take ?p ?T @ [ev]"
    proof -
      have "take (Suc ?p) ?T = decoded c (take (Suc (kPos l)) (kTopic l))"
        using decoded_take [of c "Suc (kPos l)" "kTopic l"] p by (simp add: reached_def f)
      also have "\<dots> = decoded c (take (kPos l) (kTopic l)) @ [ev]" by (simp add: tk Inr)
      also have "\<dots> = take ?p ?T @ [ev]" using decoded_take [of c "kPos l" "kTopic l"] by (simp add: reached_def)
      finally show ?thesis .
    qed
    moreover have "length (take ?p ?T) = ?p" using reached_le [of c "kPos l" l] by simp
    ultimately have "drop a (take (Suc ?p) ?T) = drop a (take ?p ?T) @ [ev]"
      using inv by (simp add: delivery_inv_def)
    with inv out p off rest show ?thesis by (simp add: delivery_inv_def f)
  qed
qed

lemma delivery_receive:
  assumes inv: "delivery_inv c n a l" and out: "kOut l = ev # evs" and ids: "distinct (map eID (decoded c (kTopic l)))"
  defines "l' \<equiv> l\<lparr>kOut := evs, kSettled := kSettled l @ [ev]\<rparr>"
  shows "delivery_inv c (max n (Suc a)) (Suc a) l'"
proof -
  let ?T = "decoded c (kTopic l)" and ?p = "reached c (kPos l) l"
  have o: "drop a (take ?p ?T) = ev # evs" and n: "n \<le> length ?T" "a \<le> n" and s: "firsts {} (kSettled l) = take n ?T"
    using inv out by (auto simp: delivery_inv_def)
  have "a < length (take ?p ?T)" using o by (metis drop_all list.distinct(1) linorder_not_less)
  then have a: "a < ?p" "a < length ?T" by simp_all
  have ev: "ev = ?T ! a" and evs: "evs = drop (Suc a) (take ?p ?T)"
    using o a Cons_nth_drop_Suc [of a "take ?p ?T"] by auto
  have seen: "eID ` set (kSettled l) = eID ` set (take n ?T)" using firsts_ids [of "{}" "kSettled l"] s by simp
  have "firsts {} (kSettled l') = take (max n (Suc a)) ?T"
  proof (cases "a < n")
    case True
    then have "ev \<in> set (take n ?T)" unfolding ev using n by (auto simp: in_set_conv_nth intro!: exI [of _ a])
    then have "eID ev \<in> eID ` set (kSettled l)" unfolding seen by (rule imageI)
    moreover have "max n (Suc a) = n" using True by simp
    ultimately show ?thesis using s by (simp add: l'_def firsts_snoc)
  next
    case False
    with n have an: "a = n" by simp
    have tk: "take (Suc n) ?T = take n ?T @ [ev]" using a by (simp add: an ev take_Suc_conv_app_nth)
    have "distinct (map eID (take (Suc n) ?T))" using ids by (simp only: take_map [symmetric] distinct_take)
    then have "eID ev \<notin> eID ` set (kSettled l)" unfolding seen tk by auto
    with s tk an show ?thesis by (simp add: l'_def firsts_snoc)
  qed
  moreover have "reached c (kCommitted l) l \<le> max n (Suc a)" using inv by (simp add: delivery_inv_def le_max_iff_disj)
  ultimately show ?thesis using inv a evs n by (simp add: delivery_inv_def l'_def offsets_ok_def reached_def)
qed

lemma delivery_step:
  assumes inv: "delivery_inv c n a l" and st: "kdo c x l = Some l'" and care: "x = KCommit \<longrightarrow> kOut l = []"
    and ids: "distinct (map eID (decoded c (kTopic l)))"
  shows "\<exists>n' a'. delivery_inv c n' a' l'"
proof (cases x)
  case (KPublish ev)
  then have "delivery_inv c n a l'" using st by (intro delivery_inv_grow [OF inv, of _ "[]"]) (auto simp: Kafka_Publish_def split: if_splits)
  then show ?thesis by blast
next
  case KProduce
  then have "delivery_inv c n a l'" using st by (intro delivery_inv_grow [OF inv, of _ "[]"]) (auto split: list.splits)
  then show ?thesis by blast
next
  case KDeliver
  then obtain r rs where "l' = l\<lparr>kBuffer := rs, kTopic := kTopic l @ [r]\<rparr>" using st by (auto split: list.splits)
  then have "delivery_inv c n a l'" by (intro delivery_inv_grow [OF inv, of _ "[r]"]) auto
  then show ?thesis by blast
next
  case (KProduceFails e)
  then have "delivery_inv c n a l'" using st by (intro delivery_inv_grow [OF inv, of _ "[]"]) (auto split: list.splits)
  then show ?thesis by blast
next
  case KStart
  then have "delivery_inv c n a l'" using st by (intro delivery_inv_grow [OF inv, of _ "[]"]) (auto simp: Kafka_Events_def)
  then show ?thesis by blast
next
  case KConsume
  then show ?thesis using st delivery_consume [OF inv] by auto
next
  case KReceive
  then obtain ev evs where "kOut l = ev # evs" "l' = l\<lparr>kOut := evs, kSettled := kSettled l @ [ev]\<rparr>"
    using st by (auto split: list.splits)
  then show ?thesis using delivery_receive [OF inv _ ids] by blast
next
  case KCommit
  let ?p = "reached c (kPos l) l"
  have "?p \<le> a" using inv care KCommit reached_le [of c "kPos l" l] by (simp add: delivery_inv_def)
  moreover have "reached c (kMarked l) l \<le> ?p" using inv by (intro reached_mono) (simp add: delivery_inv_def offsets_ok_def)
  moreover have "l' = l\<lparr>kCommitted := kMarked l\<rparr>" using st KCommit by (simp add: kafka_commit_def)
  ultimately have "delivery_inv c n a l'"
    using inv by (simp add: delivery_inv_def offsets_ok_def reached_def)
  then show ?thesis by blast
next
  case KCrash
  let ?k = "reached c (kCommitted l) l"
  have "l' = l\<lparr>kIn := [], kInClosed := False, kBuffer := [], kOut := [], kOutClosed := False,
      kStarted := False, kPos := kCommitted l, kMarked := kCommitted l\<rparr>" using st KCrash by simp
  then have "delivery_inv c n ?k l'" using inv by (simp add: delivery_inv_def offsets_ok_def reached_def)
  then show ?thesis by blast
qed

lemma delivery_run:
  assumes "delivery_inv c n a l" and "krun c xs l = Some l'" and "careful c xs l"
    and ids: "distinct (map eID (decoded c (kTopic l')))"
  shows "\<exists>n' a'. delivery_inv c n' a' l'"
  using assms(1-3)
proof (induction xs arbitrary: l n a)
  case (Cons x xs)
  then obtain l1 where d: "kdo c x l = Some l1" and k: "krun c xs l1 = Some l'" by (auto split: option.splits)
  obtain rs where "kTopic l' = kTopic l @ rs" using krun_topic [OF Cons.prems(2)] by (auto elim: prefixE)
  then have "distinct (map eID (decoded c (kTopic l)))" using ids by simp
  from delivery_step [OF Cons.prems(1) d _ this] Cons.prems(3) obtain n1 a1 where "delivery_inv c n1 a1 l1" by auto
  from Cons.IH [OF this k] Cons.prems(3) d show ?case by simp
qed auto

text \<open>When the consumer has caught up, settlement has seen the topic, with repetitions.\<close>

lemma caught_up:
  assumes "krun c xs (new_klog buffer [] 0) = Some l" and "careful c xs (new_klog buffer [] 0)"
    and "distinct (map eID (decoded c (kTopic l)))" and "kPos l = length (kTopic l)" and "kOut l = []"
  shows "firsts {} (kSettled l) = decoded c (kTopic l)"
proof -
  have "delivery_inv c 0 0 (new_klog buffer [] 0)" by (simp add: delivery_inv_def new_klog_def offsets_ok_def reached_def)
  from delivery_run [OF this assms(1-3)] obtain n a where i: "delivery_inv c n a l" by blast
  have "reached c (kPos l) l = length (decoded c (kTopic l))" by (simp add: reached_def assms(4))
  with i assms(5) have "length (decoded c (kTopic l)) \<le> n" by (simp add: delivery_inv_def)
  with i show ?thesis by (simp add: delivery_inv_def)
qed

end
