(* ===== verification/Pipeline.thy ===== *)
theory Pipeline
  imports Kafkalog Engine_Spec
begin

section \<open>A log as the engine and settlement see it\<close>

text \<open>
  The log in memory and the log on Kafka are different machines, but between the engine and
  settlement both are a queue: what the engine publishes is appended to what is pending, settlement
  receives the oldest pending event, and what the log does by itself (producing, delivering,
  consuming, committing) leaves the pending events as they are. \<open>event_pipeline\<close> states this
  contract; an engine cannot tell two such logs apart. \<open>lpSeen\<close> are events that settlement has
  received, \<open>lpCrash\<close> a crash of the process followed by a restart.
\<close>

record 'l log_port =
  lpLog :: "'l EventLog"
  lpPending :: "'l \<Rightarrow> event list"
  lpRecv :: "'l \<Rightarrow> (event \<times> 'l) option"
  lpStep :: "'l \<Rightarrow> 'l \<Rightarrow> bool"
  lpSeen :: "'l \<Rightarrow> event list"
  lpCrash :: "'l \<Rightarrow> 'l \<Rightarrow> bool"

locale event_pipeline =
  fixes P :: "'l log_port" and ok :: "'l \<Rightarrow> bool"
  assumes publish_appends: "ok l \<Longrightarrow> \<exists>l'. el_Publish (lpLog P) ev l = Some l' \<and> ok l'
      \<and> lpPending P l' = lpPending P l @ [ev] \<and> set (lpSeen P l') \<subseteq> set (lpSeen P l)"
    and step_keeps: "ok l \<Longrightarrow> lpStep P l l' \<Longrightarrow> ok l' \<and> lpPending P l' = lpPending P l \<and> set (lpSeen P l') \<subseteq> set (lpSeen P l)"
    and recv_takes: "ok l \<Longrightarrow> lpRecv P l = Some (ev, l') \<Longrightarrow>
      ok l' \<and> lpPending P l = ev # lpPending P l' \<and> set (lpSeen P l') \<subseteq> insert ev (set (lpSeen P l))"

text \<open>A channel in memory and a log that the same events were appended to, after what they held before.\<close>

definition alike :: "'l log_port \<Rightarrow> ('l \<Rightarrow> bool) \<Rightarrow> event list \<Rightarrow> 'l \<Rightarrow> Log \<Rightarrow> 'l \<Rightarrow> bool" where
  "alike P ok xs l0 m l \<longleftrightarrow> ok l \<and> \<not> lg_closed m \<and> set (lpSeen P l) \<subseteq> set (lpSeen P l0)
     \<and> (\<exists>zs. lg_ch m = xs @ zs \<and> lpPending P l = lpPending P l0 @ zs)"

lemma alike_start: "ok l \<Longrightarrow> \<not> lg_closed m \<Longrightarrow> alike P ok (lg_ch m) l m l"
  by (simp add: alike_def)

context event_pipeline
begin

lemma publish_same:
  assumes "alike P ok xs l0 m l" and "publish (lpLog P) ev (e, l) = Some (e', l')"
  shows "\<exists>m'. publish mem_log ev (e, m) = Some (e', m') \<and> alike P ok xs l0 m' l'"
proof -
  obtain zs where ok: "ok l" and m: "\<not> lg_closed m" "lg_ch m = xs @ zs" "lpPending P l = lpPending P l0 @ zs"
    and sn: "set (lpSeen P l) \<subseteq> set (lpSeen P l0)" using assms(1) by (auto simp: alike_def)
  obtain l1 where l1: "el_Publish (lpLog P) (stamp e ev) l = Some l1" "ok l1" "lpPending P l1 = lpPending P l @ [stamp e ev]"
    "set (lpSeen P l1) \<subseteq> set (lpSeen P l)" using publish_appends [OF ok] by blast
  obtain m1 where m1: "el_Publish mem_log (stamp e ev) m = Some m1" "lg_ch m1 = lg_ch m @ [stamp e ev]" "\<not> lg_closed m1"
    using mem_sink.publish_open [OF m(1)] by blast
  have "alike P ok xs l0 m1 l1" using l1 m1 m sn by (auto simp: alike_def)
  with l1(1) m1(1) assms(2) show ?thesis by (auto simp: publish_def)
qed

lemma publish_fills_same:
  "alike P ok xs l0 m l \<Longrightarrow> publish_fills (lpLog P) fs (e, l) = Some (e', l')
   \<Longrightarrow> \<exists>m'. publish_fills mem_log fs (e, m) = Some (e', m') \<and> alike P ok xs l0 m' l'"
proof (induction fs arbitrary: e l m)
  case Nil
  then show ?case by simp
next
  case (Cons f fs)
  from Cons.prems(2) obtain e1 l1 e2 l2 where p: "publish (lpLog P) (trade_event f) (e, l) = Some (e1, l1)"
    "publish (lpLog P) (maker_event f) (e1, l1) = Some (e2, l2)" "publish_fills (lpLog P) fs (e2, l2) = Some (e', l')"
    by (auto split: option.splits)
  obtain m1 where 1: "publish mem_log (trade_event f) (e, m) = Some (e1, m1)" "alike P ok xs l0 m1 l1"
    using publish_same [OF Cons.prems(1) p(1)] by blast
  obtain m2 where 2: "publish mem_log (maker_event f) (e1, m1) = Some (e2, m2)" "alike P ok xs l0 m2 l2"
    using publish_same [OF 1(2) p(2)] by blast
  from Cons.IH [OF 2(2) p(3)] 1(1) 2(1) show ?case by simp
qed

lemma handle_command_same:
  assumes c: "alike P ok xs l0 m l" and h: "handle_command (lpLog P) cmd (e, l) = Some (r, e', l')"
  shows "\<exists>m'. handle_command mem_log cmd (e, m) = Some (r, e', m') \<and> alike P ok xs l0 m' l'"
proof (cases cmd)
  case (cmdPlace x)
  with h obtain res b e1 l1 where pl: "Place x (eBook e) = Some (res, b)"
    and fl: "publish_fills (lpLog P) (prFills res) (e\<lparr>eBook := b\<rparr>, l) = Some (e1, l1)"
    and pb: "publish (lpLog P) (taker_event res) (e1, l1) = Some (e', l')"
    and r: "r = zero_reply\<lparr>crpOrder := Some (CloneOrder (prTaker res))\<rparr>"
    by (auto simp: handlePlace_def split: option.splits prod.splits)
  obtain m1 where 1: "publish_fills mem_log (prFills res) (e\<lparr>eBook := b\<rparr>, m) = Some (e1, m1)" "alike P ok xs l0 m1 l1"
    using publish_fills_same [OF c fl] by blast
  from publish_same [OF 1(2) pb] 1(1) show ?thesis by (auto simp: cmdPlace handlePlace_def pl r)
next
  case (cmdCancel i)
  show ?thesis
  proof (cases "Cancel i (eBook e)")
    case None
    with h c show ?thesis by (auto simp: cmdCancel handleCancel_def)
  next
    case (Some p)
    then obtain res b where s: "Cancel i (eBook e) = Some (res, b)" by (cases p) auto
    with h cmdCancel have "publish (lpLog P) (cancel_event res) (e\<lparr>eBook := b\<rparr>, l) = Some (e', l')"
      and r: "r = zero_reply\<lparr>crpOrder := Some (CloneOrder (crOrder res))\<rparr>" by (auto simp: handleCancel_def)
    from publish_same [OF c this(1)] show ?thesis by (auto simp: cmdCancel handleCancel_def s r)
  qed
next
  case (cmdSnapshot d)
  with h c show ?thesis by (auto simp: handleSnapshot_def)
qed

end

text \<open>
  After a crash the log may deliver events again that settlement has seen, and may have lost events;
  of those it has not seen it delivers a part, in order.
\<close>

locale restarting_pipeline = event_pipeline P ok for P :: "'l log_port" and ok :: "'l \<Rightarrow> bool" +
  assumes crash_replays: "ok l \<Longrightarrow> lpCrash P l l' \<Longrightarrow> ok l' \<and> set (lpSeen P l') \<subseteq> set (lpSeen P l)
      \<and> subseq (filter (\<lambda>ev. ev \<notin> set (lpSeen P l)) (lpPending P l')) (lpPending P l)"

subsection \<open>The channel in memory\<close>

definition memory_pipe :: "Log log_port" where
  "memory_pipe = \<lparr>lpLog = mem_log, lpPending = lg_ch,
     lpRecv = (\<lambda>l. case Log_recv l of Some (Some ev, l') \<Rightarrow> Some (ev, l') | _ \<Rightarrow> None), lpStep = (\<lambda>_ _. False),
     lpSeen = (\<lambda>_. []), lpCrash = (\<lambda>l l'. l' = l\<lparr>lg_ch := [], lg_closed := False\<rparr>)\<rparr>"

interpretation memory_pipe: restarting_pipeline memory_pipe "\<lambda>l. \<not> lg_closed l"
  by unfold_locales
    (auto simp: memory_pipe_def Log_Publish_def Log_recv_def split: option.splits list.splits if_splits)

subsection \<open>Kafka\<close>

text \<open>Handed over, then stored, then buffered, then queued.\<close>

definition kafka_pending :: "'p codec \<Rightarrow> 'p klog \<Rightarrow> event list" where
  "kafka_pending c l = kOut l @ decoded c (drop (kPos l) (kTopic l)) @ decoded c (kBuffer l) @ filter (marshals c) (kIn l)"

lemma in_flight_pending: "in_flight c l = kSettled l @ kafka_pending c l"
  by (simp add: in_flight_def kafka_pending_def)

text \<open>
  The goroutines of the log, while the brokers take every record and the process lives. Settlement
  takes its events from \<open>out\<close>.
\<close>

definition kafka_work :: "kstep list" where
  "kafka_work = [KProduce, KDeliver, KStart, KConsume, KCommit]"

definition kafka_pipe :: "'p codec \<Rightarrow> close_world \<Rightarrow> 'p klog log_port" where
  "kafka_pipe c w = \<lparr>lpLog = kafka_log c w, lpPending = kafka_pending c,
     lpRecv = (\<lambda>l. case kOut l of [] \<Rightarrow> None | ev # evs \<Rightarrow> map_option (Pair ev) (kdo c KReceive l)),
     lpStep = (\<lambda>l l'. \<exists>x\<in>set kafka_work. kdo c x l = Some l'),
     lpSeen = kSettled, lpCrash = (\<lambda>l l'. kdo c KCrash l = Some l')\<rparr>"

lemma kafka_pipe_simps [simp]: "lpLog (kafka_pipe c w) = kafka_log c w" "lpPending (kafka_pipe c w) = kafka_pending c"
  "lpSeen (kafka_pipe c w) = kSettled" "kSettled (new_klog buffer topic committed) = []"
  by (simp_all add: kafka_pipe_def new_klog_def)

text \<open>
  The records behind the committed offset that the consumer has fetched: those that are not on their
  way to settlement have been settled. A commit may have gone beyond what is settled.
\<close>

definition fetched :: "'p codec \<Rightarrow> 'p klog \<Rightarrow> event list" where
  "fetched c l = decoded c (drop (kCommitted l) (take (kPos l) (kTopic l)))"

definition fetched_ok :: "'p codec \<Rightarrow> 'p klog \<Rightarrow> bool" where
  "fetched_ok c l \<longleftrightarrow> (\<exists>B. fetched c l = B @ kOut l \<and> set B \<subseteq> set (kSettled l)) \<or> (\<exists>B. kOut l = B @ fetched c l)"

text \<open>A log that is open, and a codec that marshals every event and reads it back.\<close>

definition kafka_ready :: "'p codec \<Rightarrow> 'p klog \<Rightarrow> bool" where
  "kafka_ready c l \<longleftrightarrow> codec_ok c \<and> (\<forall>ev. marshals c ev) \<and> \<not> kInClosed l \<and> \<not> kOutClosed l \<and> offsets_ok l \<and> fetched_ok c l"

lemma kafka_work_settled: "x \<in> set kafka_work \<Longrightarrow> kdo c x l = Some l' \<Longrightarrow>
  kSettled l' = kSettled l \<and> kInClosed l' = kInClosed l \<and> kOutClosed l' = kOutClosed l"
  by (auto simp: kafka_work_def Kafka_Events_def kafka_commit_def consume_next_def consume_record_def mark_def Let_def
      split: list.splits if_splits sum.splits)

lemma drop_split: "n \<le> m \<Longrightarrow> m \<le> length xs \<Longrightarrow> drop n xs = drop n (take m xs) @ drop m xs"
proof -
  assume "n \<le> m" "m \<le> length xs"
  then have "drop n (take m xs @ drop m xs) = drop n (take m xs) @ drop m xs"
    by (simp only: drop_append length_take min_absorb2 diff_is_0_eq' drop_0)
  then show ?thesis by (simp only: append_take_drop_id)
qed

lemma fetched_split:
  "offsets_ok l \<Longrightarrow> decoded c (drop (kCommitted l) (kTopic l)) = fetched c l @ decoded c (drop (kPos l) (kTopic l))"
  using drop_split [of "kCommitted l" "kPos l" "kTopic l"] by (simp add: offsets_ok_def fetched_def)

text \<open>Consuming appends to both, committing takes records away from the front.\<close>

lemma fetched_append:
  assumes "fetched_ok c l" and "fetched c l' = fetched c l @ xs" and "kOut l' = kOut l @ xs" and "kSettled l' = kSettled l"
  shows "fetched_ok c l'"
  using assms unfolding fetched_ok_def by fastforce

lemma fetched_consume:
  assumes ok: "fetched_ok c l" and of: "offsets_ok l" and st: "consume_next c l = Some l'"
  shows "fetched_ok c l'"
proof -
  let ?r = "kTopic l ! kPos l"
  have pos: "kPos l < length (kTopic l)" "kCommitted l \<le> kPos l" using st of by (auto simp: consume_next_def offsets_ok_def split: if_splits)
  have l': "kPos l' = Suc (kPos l)" "kTopic l' = kTopic l" "kCommitted l' = kCommitted l" "kSettled l' = kSettled l"
    "kOut l' = kOut l @ (case jsUnmarshal c (snd ?r) of Inr ev \<Rightarrow> [ev] | Inl e \<Rightarrow> [])"
    using st by (auto simp: consume_next_def consume_record_def mark_def split: if_splits sum.splits)
  have "fetched c l' = fetched c l @ (case jsUnmarshal c (snd ?r) of Inr ev \<Rightarrow> [ev] | Inl e \<Rightarrow> [])"
    using pos by (simp add: fetched_def l' take_Suc_conv_app_nth)
  with fetched_append [OF ok _ l'(5,4)] show ?thesis by simp
qed

lemma fetched_commit:
  assumes ok: "fetched_ok c l" and of: "offsets_ok l"
  shows "fetched_ok c (kafka_commit None l)"
proof -
  let ?l = "kafka_commit None l" and ?d = "\<lambda>n. drop n (take (kPos l) (kTopic l))"
  have l: "kOut ?l = kOut l" "kSettled ?l = kSettled l" "kTopic ?l = kTopic l" "kPos ?l = kPos l" "kCommitted ?l = kMarked l"
    by (simp_all add: kafka_commit_def)
  have "?d (kMarked l) = drop (kMarked l - kCommitted l) (?d (kCommitted l))" using of by (simp add: offsets_ok_def)
  then have "?d (kCommitted l) = take (kMarked l - kCommitted l) (?d (kCommitted l)) @ ?d (kMarked l)"
    by (simp only: append_take_drop_id)
  then obtain A where A: "fetched c l = A @ fetched c ?l" unfolding fetched_def l by (metis decoded_simps(3))
  from ok consider B where "A @ fetched c ?l = B @ kOut l" "set B \<subseteq> set (kSettled l)" | B where "kOut l = B @ A @ fetched c ?l"
    by (auto simp: fetched_ok_def A)
  then show ?thesis
  proof cases
    case 1
    from 1(1) have "(\<exists>us. B = A @ us \<and> fetched c ?l = us @ kOut l) \<or> (\<exists>us. kOut l = us @ fetched c ?l)"
      unfolding append_eq_append_conv2 by (metis (no_types))
    with 1(2) show ?thesis unfolding fetched_ok_def l by auto
  next
    case 2
    then show ?thesis unfolding fetched_ok_def l by (metis append_assoc)
  qed
qed

lemma fetched_work:
  assumes "x \<in> set kafka_work" and "kdo c x l = Some l'" and "fetched_ok c l" and of: "offsets_ok l"
  shows "fetched_ok c l'"
proof -
  have same: "fetched_ok c l'" if "fetched c l' = fetched c l" "kOut l' = kOut l" "kSettled l' = kSettled l"
    using assms(3) that by (simp add: fetched_ok_def)
  consider "x = KProduce" | "x = KDeliver" | "x = KStart" | "x = KConsume" | "x = KCommit" using assms(1) by (auto simp: kafka_work_def)
  then show ?thesis
  proof cases
    case 1
    with assms(2) show ?thesis by (intro same) (auto simp: fetched_def split: list.splits)
  next
    case 2
    with assms(2) of show ?thesis by (intro same) (auto simp: fetched_def offsets_ok_def split: list.splits)
  next
    case 3
    with assms(2) show ?thesis by (intro same) (auto simp: fetched_def Kafka_Events_def)
  next
    case 4
    with assms(2-4) fetched_consume show ?thesis by simp
  next
    case 5
    with assms(2-4) fetched_commit show ?thesis by auto
  qed
qed

lemma fetched_receive:
  assumes ok: "fetched_ok c l" and o: "kOut l = ev # evs"
  shows "fetched_ok c (l\<lparr>kOut := evs, kSettled := kSettled l @ [ev]\<rparr>)" (is "fetched_ok c ?l")
proof -
  have f: "fetched c ?l = fetched c l" by (simp add: fetched_def)
  from ok consider B where "fetched c l = B @ ev # evs" "set B \<subseteq> set (kSettled l)" | B where "ev # evs = B @ fetched c l"
    by (auto simp: fetched_ok_def o)
  then show ?thesis
  proof cases
    case 1
    then show ?thesis unfolding fetched_ok_def f by (intro disjI1 exI [of _ "B @ [ev]"]) auto
  next
    case 2
    then show ?thesis
    proof (cases B)
      case Nil
      with 2 show ?thesis unfolding fetched_ok_def f by (intro disjI1 exI [of _ "[ev]"]) auto
    next
      case (Cons b B')
      with 2 show ?thesis unfolding fetched_ok_def f by auto
    qed
  qed
qed

text \<open>What Kafka delivers after a crash and settlement has not seen was pending before.\<close>

lemma kafka_replays:
  assumes r: "kafka_ready c l" and k: "kdo c KCrash l = Some l'"
  shows "kafka_ready c l'" and "kSettled l' = kSettled l"
    and "subseq (filter (\<lambda>ev. ev \<notin> set (kSettled l)) (kafka_pending c l')) (kafka_pending c l)"
proof -
  let ?f = "filter (\<lambda>ev. ev \<notin> set (kSettled l))" and ?rest = "decoded c (drop (kPos l) (kTopic l))"
  have of: "offsets_ok l" and fo: "fetched_ok c l" using r by (simp_all add: kafka_ready_def)
  from k have l': "l' = l\<lparr>kIn := [], kInClosed := False, kBuffer := [], kOut := [], kOutClosed := False,
     kStarted := False, kPos := kCommitted l, kMarked := kCommitted l\<rparr>" by simp
  have "fetched c l' = []" by (simp add: l' fetched_def)
  then show "kafka_ready c l'" using r by (auto simp: kafka_ready_def l' offsets_ok_def fetched_ok_def)
  show "kSettled l' = kSettled l" by (simp add: l')
  have p': "kafka_pending c l' = fetched c l @ ?rest" using fetched_split [OF of] by (simp add: kafka_pending_def l')
  have "subseq (?f (fetched c l)) (kOut l)"
    using fo unfolding fetched_ok_def
  proof (elim disjE exE conjE)
    fix B assume "fetched c l = B @ kOut l" "set B \<subseteq> set (kSettled l)"
    then have "?f (fetched c l) = ?f (kOut l)" by (auto simp: filter_empty_conv)
    then show ?thesis by (simp add: subseq_filter_left)
  next
    fix B assume "kOut l = B @ fetched c l"
    then show ?thesis by (metis list_emb_append2 subseq_filter_left)
  qed
  moreover have "subseq (?f ?rest) ?rest" by (rule subseq_filter_left)
  ultimately have "subseq (?f (kafka_pending c l')) (kOut l @ ?rest)"
    unfolding p' filter_append by (rule list_emb_append_mono)
  then show "subseq (?f (kafka_pending c l')) (kafka_pending c l)"
    unfolding kafka_pending_def by (metis append_assoc list_emb_prefix)
qed

interpretation kafka_pipe: restarting_pipeline "kafka_pipe c w" "kafka_ready c" for c :: "'p codec" and w
proof
  fix l :: "'p klog" and ev
  assume "kafka_ready c l"
  then show "\<exists>l'. el_Publish (lpLog (kafka_pipe c w)) ev l = Some l' \<and> kafka_ready c l'
      \<and> lpPending (kafka_pipe c w) l' = lpPending (kafka_pipe c w) l @ [ev]
      \<and> set (lpSeen (kafka_pipe c w) l') \<subseteq> set (lpSeen (kafka_pipe c w) l)"
    by (auto simp: kafka_pipe_def kafka_log_def Kafka_Publish_def kafka_ready_def offsets_ok_def kafka_pending_def
        fetched_ok_def fetched_def)
next
  fix l l' :: "'p klog"
  assume r: "kafka_ready c l" and "lpStep (kafka_pipe c w) l l'"
  then obtain x where x: "x \<in> set kafka_work" "kdo c x l = Some l'" by (auto simp: kafka_pipe_def)
  have "in_flight c l' = in_flight c l"
    using kdo_in_flight [OF _ _ x(2)] r x(1) by (auto simp: kafka_ready_def faultless_def kafka_work_def)
  with kafka_work_settled [OF x] kdo_offsets [OF _ x(2)] fetched_work [OF x] r
  show "kafka_ready c l' \<and> lpPending (kafka_pipe c w) l' = lpPending (kafka_pipe c w) l
      \<and> set (lpSeen (kafka_pipe c w) l') \<subseteq> set (lpSeen (kafka_pipe c w) l)"
    by (simp add: kafka_pipe_def in_flight_pending kafka_ready_def)
next
  fix l l' :: "'p klog" and ev
  assume r: "kafka_ready c l" and "lpRecv (kafka_pipe c w) l = Some (ev, l')"
  then obtain evs where o: "kOut l = ev # evs" "l' = l\<lparr>kOut := evs, kSettled := kSettled l @ [ev]\<rparr>"
    by (auto simp: kafka_pipe_def split: list.splits)
  with r fetched_receive [OF _ o(1), of c]
  show "kafka_ready c l' \<and> lpPending (kafka_pipe c w) l = ev # lpPending (kafka_pipe c w) l'
      \<and> set (lpSeen (kafka_pipe c w) l') \<subseteq> insert ev (set (lpSeen (kafka_pipe c w) l))"
    by (simp add: kafka_pipe_def kafka_ready_def kafka_pending_def offsets_ok_def)
next
  fix l l' :: "'p klog"
  assume "kafka_ready c l" and "lpCrash (kafka_pipe c w) l l'"
  with kafka_replays [of c l l'] show "kafka_ready c l' \<and> set (lpSeen (kafka_pipe c w) l') \<subseteq> set (lpSeen (kafka_pipe c w) l)
      \<and> subseq (filter (\<lambda>ev. ev \<notin> set (lpSeen (kafka_pipe c w) l)) (lpPending (kafka_pipe c w) l')) (lpPending (kafka_pipe c w) l)"
    by (simp add: kafka_pipe_def)
qed

subsection \<open>Pipelines that drain\<close>

text \<open>While something is pending, the log can move or settlement can receive, and that comes to an end.\<close>

locale draining_pipeline = event_pipeline P ok for P :: "'l log_port" and ok :: "'l \<Rightarrow> bool" +
  fixes work :: "'l \<Rightarrow> nat"
  assumes drains: "ok l \<Longrightarrow> lpPending P l \<noteq> [] \<Longrightarrow>
      (\<exists>l'. lpStep P l l' \<and> work l' < work l) \<or> (\<exists>ev l'. lpRecv P l = Some (ev, l') \<and> work l' < work l)"

interpretation memory_drains: draining_pipeline memory_pipe "\<lambda>l. \<not> lg_closed l" "\<lambda>l. length (lg_ch l)"
  by unfold_locales (auto simp: memory_pipe_def Log_recv_def neq_Nil_conv)

definition kafka_left :: "'p klog \<Rightarrow> nat" where
  "kafka_left l = 4 * length (kIn l) + 3 * length (kBuffer l) + 2 * (length (kTopic l) - kPos l) + length (kOut l)
     + (if kStarted l then 0 else 1)"

lemma kafka_moves:
  assumes r: "kafka_ready c l" and out: "kOut l = []" and p: "kafka_pending c l \<noteq> []"
  shows "\<exists>x\<in>set kafka_work. \<exists>l'. kdo c x l = Some l' \<and> kafka_left l' < kafka_left l"
proof -
  have open_: "\<not> kOutClosed l" "kPos l \<le> length (kTopic l)" using r by (simp_all add: kafka_ready_def offsets_ok_def)
  have "kPos l < length (kTopic l) \<or> kBuffer l \<noteq> [] \<or> kIn l \<noteq> []"
    by (rule ccontr) (use p out in \<open>simp add: kafka_pending_def\<close>)
  then consider "\<not> kStarted l" | "kStarted l" "kPos l < length (kTopic l)" | "kPos l = length (kTopic l)" "kBuffer l \<noteq> []"
    | "kPos l = length (kTopic l)" "kBuffer l = []" "kIn l \<noteq> []"
    using open_(2) by (metis le_neq_implies_less)
  then show ?thesis
  proof cases
    case 1
    then show ?thesis by (intro bexI [of _ KStart]) (simp_all add: kafka_work_def Kafka_Events_def kafka_left_def)
  next
    case 2
    then show ?thesis
      using open_ out
      by (intro bexI [of _ KConsume])
        (auto simp: kafka_work_def consume_next_def out_cap_def consume_record_def mark_def kafka_left_def split: sum.split)
  next
    case 3
    then obtain r' rs where "kBuffer l = r' # rs" by (cases "kBuffer l") auto
    with 3 show ?thesis by (intro bexI [of _ KDeliver]) (simp_all add: kafka_work_def kafka_left_def)
  next
    case 4
    then obtain ev evs where i: "kIn l = ev # evs" by (cases "kIn l") auto
    show ?thesis
      by (intro bexI [of _ KProduce]) (simp_all add: i kafka_work_def kafka_left_def produce_one_def split: sum.split)
  qed
qed

interpretation kafka_drains: draining_pipeline "kafka_pipe c w" "kafka_ready c" kafka_left for c :: "'p codec" and w
proof
  fix l :: "'p klog"
  assume "kafka_ready c l" and "lpPending (kafka_pipe c w) l \<noteq> []"
  then show "(\<exists>l'. lpStep (kafka_pipe c w) l l' \<and> kafka_left l' < kafka_left l)
      \<or> (\<exists>ev l'. lpRecv (kafka_pipe c w) l = Some (ev, l') \<and> kafka_left l' < kafka_left l)"
    using kafka_moves [of c l] by (cases "kOut l") (auto simp: kafka_pipe_def kafka_left_def)
qed

text \<open>A codec whose bytes are the events themselves.\<close>

definition ex_codec :: "event codec" where
  "ex_codec = \<lparr>jsMarshal = Inr, jsUnmarshal = Inr\<rparr>"

lemma ex_codec_ok: "codec_ok ex_codec" "marshals ex_codec ev"
  by (simp_all add: codec_ok_def marshals_def ex_codec_def)

end
