(* ===== verification/Deployment.thy ===== *)
theory Deployment
  imports Exchange Rediscache Delivery Pipeline
begin

section \<open>Any choice of stores runs like the in-memory system\<close>

text \<open>
  \<open>bootstrap.go\<close> may put the wallets and the journal into Postgres, the wallets behind Redis, and
  the trades and orders anywhere. Here the running system of \<open>System\<close> is stated once more over
  adapters that are parameters: requests reach the wallets through a port that may fail in any way
  (\<open>requests\<close>), settlement and compensation through one that answers (the port \<open>spWallets\<close> of the
  settlement service), both on the same state; the stores of trades and orders may do anything. A
  forward simulation then shows that every run of such a deployment is a run of the in-memory
  system as far as the core can see, so all that is proved of the latter holds of the former.
\<close>

subsection \<open>What an event does to the wallets, as a list of updates\<close>

definition event_updates :: "event \<Rightarrow> (string \<times> wallet_fn) list" where
  "event_updates ev = (case eType ev of
       EventTrade \<Rightarrow> (case eTrade ev of None \<Rightarrow> []
         | Some t \<Rightarrow> [(tBuyerID t, SettleBuy (Notional t) (tQuantity t)), (tSellerID t, SettleSell (tQuantity t) (Notional t))])
     | EventOrderUpdated \<Rightarrow> (case eOrder ev of None \<Rightarrow> []
         | Some o' \<Rightarrow> (if eReleaseCOP ev > 0 then [(oUserID o', ReleaseCOP (eReleaseCOP ev))] else [])
             @ (if eReleaseVibranium ev > 0 then [(oUserID o', ReleaseVibranium (eReleaseVibranium ev))] else []))
     | EventOrderAccepted \<Rightarrow> [])"

definition apply_views :: "(string \<times> wallet_fn) list \<Rightarrow> ledger_view \<Rightarrow> ledger_view" where
  "apply_views us v = fold (\<lambda>(u, f). apply_view u f) us v"

fun stay_nonneg :: "(string \<times> wallet_fn) list \<Rightarrow> ledger_view \<Rightarrow> bool" where
  "stay_nonneg [] v \<longleftrightarrow> True"
| "stay_nonneg ((u, f) # us) v \<longleftrightarrow> stays_nonneg u f v \<and> stay_nonneg us (apply_view u f v)"

lemma apply_views_simps [simp]:
  "apply_views [] v = v" "apply_views ((u, f) # us) v = apply_views us (apply_view u f v)"
  by (simp_all add: apply_views_def)

context sound_wallet_ledger
begin

lemma apply_event_view:
  assumes "spWallets S = repo" and "stay_nonneg (event_updates ev) (view (stWallets s))"
  shows "view (stWallets (apply_event S c ev s)) = apply_views (event_updates ev) (view (stWallets s))"
proof -
  note uv = update_view [folded assms(1)]
  have none: "applyTrade S c None s = s" by (simp add: applyTrade_def)
  show ?thesis
    using assms(2)
    by (auto simp: apply_event_def event_updates_def applyTrade_wallets none applyOrderUpdate_def Let_def uv
        split: event_type.splits option.splits if_splits)
qed

end

text \<open>An update that leads to balanced books made no negative balance.\<close>

lemma balanced_nonneg: "ledger_ok (apply_view u f v) nC nV \<Longrightarrow> stays_nonneg u f v"
  using ledger_nonneg [of "apply_view u f v" nC nV u]
  by (auto simp: stays_nonneg_def apply_view_def ledger_ok_def)

text \<open>Under the accounting invariant no update of settlement makes a balance negative.\<close>

lemma settle_nonneg:
  assumes ok: "ledger_ok v (\<lambda>u. nC u + pendCOP u (abs_event ev)) (\<lambda>u. nV u + pendVIB u (abs_event ev))"
    and nn: "\<And>u. 0 \<le> nC u" "\<And>u. 0 \<le> nV u" and ev: "ev_typed ev" "aevent_ok (abs_event ev)"
  shows "stay_nonneg (event_updates ev) v"
proof (cases "eType ev = EventTrade")
  case True
  then obtain t where t: "eTrade ev = Some t" using ev(1) by (auto simp: ev_typed_def)
  let ?b = "tBuyerID t" and ?s = "tSellerID t" and ?q = "tQuantity t" and ?n = "tPrice t * tQuantity t"
  have ab: "abs_event ev = ATrade ?b ?s (tPrice t) ?q" by (simp add: abs_event_def t)
  with ev(2) have n: "Notional t = ?n" "0 < ?n" "0 < ?q"
    by (simp_all add: aevent_ok_def Notional_def mul64_id i64_nonneg)
  have "(\<lambda>u. nC u + pendCOP u (abs_event ev)) = (\<lambda>u. nC u + (if u = ?b then ?n else 0))"
    "(\<lambda>u. nV u + pendVIB u (abs_event ev)) = (\<lambda>u. nV u + (if u = ?s then ?q else 0))"
    by (auto simp: ab pendCOP_def pendVIB_def)
  with ok have "ledger_ok v (\<lambda>u. nC u + (if u = ?b then ?n else 0)) (\<lambda>u. nV u + (if u = ?s then ?q else 0))" by simp
  from ledger_trade [OF this nn n(2,3)] obtain wb wb' ws ws' where b: "v ?b = Some wb" "SettleBuy ?n ?q wb = (None, wb')"
    and s: "(v(?b \<mapsto> wb')) ?s = Some ws" "SettleSell ?q ?n ws = (None, ws')" and "wallet_nonneg wb'" "wallet_nonneg ws'"
    by blast
  then show ?thesis
    by (simp add: event_updates_def True t n(1) apply_view_def stays_nonneg_def)
next
  case False
  then obtain o' where o': "eType ev = EventOrderUpdated" "eTrade ev = None" "eOrder ev = Some o'"
    using ev(1) by (auto simp: ev_typed_def)
  let ?u = "oUserID o'" and ?rc = "eReleaseCOP ev" and ?rv = "eReleaseVibranium ev"
  have ab: "abs_event ev = AUpdate (absO o') ?rc ?rv" by (simp add: abs_event_def o')
  have r: "0 \<le> ?rc" "0 \<le> ?rv" using ev(2) by (simp_all add: ab aevent_ok_def)
  let ?nV = "\<lambda>u. nV u + (if u = ?u then ?rv else 0)"
  have "(\<lambda>u. nC u + pendCOP u (abs_event ev)) = (\<lambda>u. nC u + (if u = ?u then ?rc else 0))"
    "(\<lambda>u. nV u + pendVIB u (abs_event ev)) = ?nV"
    by (auto simp: ab pendCOP_def pendVIB_def)
  with ok have ok1: "ledger_ok v (\<lambda>u. nC u + (if u = ?u then ?rc else 0)) ?nV" by simp
  have 1: "ledger_ok (apply_view ?u (ReleaseCOP ?rc) v) nC ?nV" if rc: "0 < ?rc"
  proof -
    obtain w where w: "v ?u = Some w" by (rule ledger_nonneg_need [OF ok1 nn(1) rc])
    from ledger_release_COP(1,2) [OF ok1 w r(1) refl nn(1)] w show ?thesis by (simp add: apply_view_def)
  qed
  have 2: "ledger_ok (apply_view ?u (ReleaseVibranium ?rv) v') nC nV" if v': "ledger_ok v' nC ?nV" and rv: "0 < ?rv" for v'
  proof -
    obtain w where w: "v' ?u = Some w" by (rule ledger_nonneg_need' [OF v' nn(2) rv])
    from ledger_release_VIB(1,2) [OF v' w r(2) refl nn(2)] w show ?thesis by (simp add: apply_view_def)
  qed
  have "ledger_ok v nC ?nV" if "\<not> 0 < ?rc"
  proof -
    have "?rc = 0" using r(1) that by simp
    with ok1 show ?thesis by (simp cong: if_cong)
  qed
  with 1 2 show ?thesis by (auto simp: event_updates_def o' intro: balanced_nonneg)
qed

subsection \<open>The running system over any stores\<close>

record ('w, 'j, 't, 'o, 'l) deployment =
  dpSymbol :: string
  dpStores :: "('w, 'j, 't, 'o) stores"
  dpRequests :: "metric list"
  dpEngine :: engine
  dpLog :: 'l
  dpIn :: "command list"
  dpSubmitting :: "order list"
  dpUsed :: "string set"

definition dep_trading :: "'l EventLog \<Rightarrow> 'w WalletRepository \<Rightarrow> 'o OrderRepository \<Rightarrow> string
    \<Rightarrow> ('w, 'l engine_adapter, 'o, BookSnapshot) Trading" where
  "dep_trading L W os symbol = NewTrading symbol (engine_port L) W os"

lemma dep_trading_simps [simp]: "tdWallets (dep_trading L W os sy) = W" "tdSymbol (dep_trading L W os sy) = sy"
  by (simp_all add: dep_trading_def NewTrading_def)

definition dep_view :: "('w, 'j, 't, 'o, 'l) deployment \<Rightarrow> ('w, 'l engine_adapter, 'o) trading_state" where
  "dep_view g = \<lparr>tsWallets = stWallets (dpStores g),
     tsEngine = \<lparr>ea_engine = dpEngine g, ea_log = dpLog g, ea_fate = (\<lambda>_. Replied), ea_calls = 0\<rparr>,
     tsOrders = stOrders (dpStores g), tsMetrics = dpRequests g\<rparr>"

definition dep_after :: "('w, 'l engine_adapter, 'o) trading_state \<Rightarrow> ('w, 'j, 't, 'o, 'l) deployment
    \<Rightarrow> ('w, 'j, 't, 'o, 'l) deployment" where
  "dep_after ts g = g\<lparr>dpStores := (dpStores g)\<lparr>stWallets := tsWallets ts\<rparr>, dpRequests := tsMetrics ts\<rparr>"

definition with_wallets :: "'w \<Rightarrow> ('w, 'j, 't, 'o, 'l) deployment \<Rightarrow> ('w, 'j, 't, 'o, 'l) deployment" where
  "with_wallets ws g = g\<lparr>dpStores := (dpStores g)\<lparr>stWallets := ws\<rparr>\<rparr>"

text \<open>
  The steps of \<open>sys_step\<close>, and those that only adapters make visible: a seeding that fails, and
  reads, which fill caches. A redelivery is an event that the journal knows.
\<close>

inductive dep_step :: "'l log_port \<Rightarrow> 'w WalletRepository \<Rightarrow> ('w, 'j, 't, 'o) Settlement \<Rightarrow> ('w \<Rightarrow> ledger_view)
    \<Rightarrow> ('w, 'j, 't, 'o, 'l) deployment \<Rightarrow> ('w, 'j, 't, 'o, 'l) deployment \<Rightarrow> bool" for P W S v where
  dAccept: "accept (dep_trading (lpLog P) W (spOrders S) (dpSymbol g)) c bytes t cmd (dep_view g) = (Inr o', ts) \<Longrightarrow>
     oID o' \<notin> dpUsed g \<Longrightarrow> fits o' \<Longrightarrow>
     dep_step P W S v g ((dep_after ts g)\<lparr>dpSubmitting := dpSubmitting g @ [o'], dpUsed := insert (oID o') (dpUsed g)\<rparr>)"
| dReject: "accept (dep_trading (lpLog P) W (spOrders S) (dpSymbol g)) c bytes t cmd (dep_view g) = (Inl res, ts) \<Longrightarrow>
     dep_step P W S v g (dep_after ts g)"
| dEnqueue: "dpSubmitting g = xs @ o' # ys \<Longrightarrow>
     dep_step P W S v g (g\<lparr>dpSubmitting := xs @ ys, dpIn := dpIn g @ [cmdPlace o']\<rparr>)"
| dGiveUp: "dpSubmitting g = xs @ o' # ys \<Longrightarrow>
     complete (dep_trading (lpLog P) (spWallets S) (spOrders S) (dpSymbol g)) o' (Inl ErrContext) t0 t2 (dep_view g) = (res, ts) \<Longrightarrow>
     dep_step P W S v g ((dep_after ts g)\<lparr>dpSubmitting := xs @ ys\<rparr>)"
| dCancelRequest: "dep_step P W S v g (g\<lparr>dpIn := dpIn g @ [cmdCancel i]\<rparr>)"
| dDepthRequest: "dep_step P W S v g (g\<lparr>dpIn := dpIn g @ [cmdSnapshot d]\<rparr>)"
| dEngineStep: "dpIn g = cmd # cmds \<Longrightarrow>
     handle_command (lpLog P) cmd (dpEngine g, dpLog g) = Some (reply, e', l') \<Longrightarrow>
     eSeq (dpEngine g) + int (length (lpPending P l') - length (lpPending P (dpLog g))) \<le> max_i64 \<Longrightarrow>
     dep_step P W S v g (g\<lparr>dpIn := cmds, dpEngine := e', dpLog := l'\<rparr>)"
| dLog: "lpStep P (dpLog g) l' \<Longrightarrow> dep_step P W S v g (g\<lparr>dpLog := l'\<rparr>)"
| dSettle: "lpRecv P (dpLog g) = Some (ev, l') \<Longrightarrow>
     dep_step P W S v g (g\<lparr>dpLog := l', dpStores := handle S c t ev (dpStores g)\<rparr>)"
| dRedeliver: "fst (ej_MarkProcessed (spJournal S) c (eID ev) (stJournal (dpStores g))) = Inr False \<Longrightarrow>
     dep_step P W S v g (g\<lparr>dpStores := handle S c t ev (dpStores g)\<rparr>)"
| dSeed: "Wallets_Seed W c u cop vib (stWallets (dpStores g)) = (Inr w, ws) \<Longrightarrow>
     (\<And>w0. v (stWallets (dpStores g)) u = Some w0 \<Longrightarrow> COPLocked w0 = 0 \<and> VibraniumLocked w0 = 0) \<Longrightarrow>
     supplyCOP (v ws) \<le> max_i64 \<Longrightarrow> supplyVIB (v ws) \<le> max_i64 \<Longrightarrow>
     dep_step P W S v g (with_wallets ws g)"
| dSeedFailed: "Wallets_Seed W c u cop vib (stWallets (dpStores g)) = (Inl e, ws) \<Longrightarrow> dep_step P W S v g (with_wallets ws g)"
| dGetWallet: "Wallets_Get W c u (stWallets (dpStores g)) = (r, ws) \<Longrightarrow> dep_step P W S v g (with_wallets ws g)"
| dListWallets: "Wallets_List W c (stWallets (dpStores g)) = (r', ws) \<Longrightarrow> dep_step P W S v g (with_wallets ws g)"
| dGetOrder: "GetOrder (dep_trading (lpLog P) W (spOrders S) (dpSymbol g)) c i (dep_view g) = (r'', ts) \<Longrightarrow>
     dep_step P W S v g (g\<lparr>dpStores := (dpStores g)\<lparr>stOrders := tsOrders ts\<rparr>\<rparr>)"

inductive dep_run :: "'l log_port \<Rightarrow> 'w WalletRepository \<Rightarrow> ('w, 'j, 't, 'o) Settlement \<Rightarrow> ('w \<Rightarrow> ledger_view)
    \<Rightarrow> ('w, 'j, 't, 'o, 'l) deployment \<Rightarrow> ('w, 'j, 't, 'o, 'l) deployment \<Rightarrow> bool" for P W S v g0 where
  dep_start: "dep_run P W S v g0 g0"
| dep_next: "dep_run P W S v g0 g \<Longrightarrow> dep_step P W S v g g' \<Longrightarrow> dep_run P W S v g0 g'"

definition new_deployment :: "string \<Rightarrow> 'l \<Rightarrow> string \<Rightarrow> (nat \<Rightarrow> time) \<Rightarrow> (nat \<Rightarrow> time) \<Rightarrow> ('w, 'j, 't, 'o) stores
    \<Rightarrow> ('w, 'j, 't, 'o, 'l) deployment" where
  "new_deployment symbol l0 producer now booknow s = \<lparr>dpSymbol = symbol, dpStores = s, dpRequests = [],
     dpEngine = NewEngine symbol producer now booknow, dpLog = l0, dpIn = [], dpSubmitting = [], dpUsed = {}\<rparr>"

text \<open>What is inside the process, without the stores: all that the needs of a user depend on.\<close>

definition inside :: "'l log_port \<Rightarrow> ('w, 'j, 't, 'o, 'l) deployment \<Rightarrow> system" where
  "inside P g = \<lparr>sySymbol = dpSymbol g, syStores = init_stores, syRequests = [], syEngine = dpEngine g,
     syLog = (NewLog 0)\<lparr>lg_ch := lpPending P (dpLog g)\<rparr>,
     syIn = dpIn g, sySubmitting = dpSubmitting g, syUsed = dpUsed g\<rparr>"

text \<open>
  The in-memory system that a deployment is taken for: the same wallets as the core sees them, the
  same identifiers in the journal, and everything inside the process. After crashes it differs in
  two ways, for which \<open>K\<close> and \<open>ph\<close> stand: its channel leaves out the pending events that were
  settled before the crash (\<open>K\<close> are their identifiers), and requests \<open>ph\<close> that never get to the engine
  stand for the funds that the crash left locked. Without crashes both are empty.
\<close>

definition carries :: "'l log_port \<Rightarrow> ('l \<Rightarrow> bool) \<Rightarrow> string set \<Rightarrow> string set \<Rightarrow> Log \<Rightarrow> 'l \<Rightarrow> bool" where
  "carries P ok K D m l \<longleftrightarrow> ok l \<and> \<not> lg_closed m \<and> lg_ch m = filter (\<lambda>ev. eID ev \<notin> K) (lpPending P l)
     \<and> K \<subseteq> D \<and> eID ` set (lpSeen P l) \<subseteq> D"

definition twin :: "'l log_port \<Rightarrow> ('l \<Rightarrow> bool) \<Rightarrow> ('w \<Rightarrow> ledger_view) \<Rightarrow> ('j \<Rightarrow> string set) \<Rightarrow> string set \<Rightarrow> order list
    \<Rightarrow> system \<Rightarrow> ('w, 'j, 't, 'o, 'l) deployment \<Rightarrow> bool" where
  "twin P ok v processed K ph st g \<longleftrightarrow> sySymbol st = dpSymbol g \<and> syEngine st = dpEngine g \<and> syIn st = dpIn g
     \<and> sySubmitting st = ph @ dpSubmitting g \<and> syUsed st = dpUsed g \<union> oID ` set ph \<and> (\<forall>x\<in>set ph. take 4 (oID x) \<noteq> ''ord-'')
     \<and> carries P ok K (processed (stJournal (dpStores g))) (syLog st) (dpLog g)
     \<and> ws_view (stWallets (syStores st)) = v (stWallets (dpStores g))
     \<and> set (jr_seen (stJournal (syStores st))) = processed (stJournal (dpStores g))"

lemma new_order_id: "take 4 (oID (new_order sy bytes t cmd)) = ''ord-''"
  by (simp add: generateID_def)

subsection \<open>The simulation\<close>

lemma request_update:
  assumes "complete T o' (Inl err) t0 t2 s = (res, ts)"
  shows "tsWallets ts = snd (wr_Update (tdWallets T) CtxLive (oUserID o') (release_fn o') (tsWallets s))"
  using assms by (auto simp: complete_def release_def observe_def)

lemma dep_fields [simp]:
  "tsWallets (dep_view g) = stWallets (dpStores g)"
  "dpSymbol (dep_after ts g) = dpSymbol g" "dpEngine (dep_after ts g) = dpEngine g" "dpLog (dep_after ts g) = dpLog g"
  "dpIn (dep_after ts g) = dpIn g" "dpSubmitting (dep_after ts g) = dpSubmitting g" "dpUsed (dep_after ts g) = dpUsed g"
  "stWallets (dpStores (dep_after ts g)) = tsWallets ts" "stJournal (dpStores (dep_after ts g)) = stJournal (dpStores g)"
  "dpSymbol (with_wallets ws g) = dpSymbol g" "dpEngine (with_wallets ws g) = dpEngine g" "dpLog (with_wallets ws g) = dpLog g"
  "dpIn (with_wallets ws g) = dpIn g" "dpSubmitting (with_wallets ws g) = dpSubmitting g" "dpUsed (with_wallets ws g) = dpUsed g"
  "stWallets (dpStores (with_wallets ws g)) = ws" "stJournal (dpStores (with_wallets ws g)) = stJournal (dpStores g)"
  by (simp_all add: dep_view_def dep_after_def with_wallets_def)

definition dep_seeded :: "'w WalletRepository \<Rightarrow> ('w, 'j, 't, 'o, 'l) deployment \<Rightarrow> ('w, 'j, 't, 'o, 'l) deployment \<Rightarrow> bool" where
  "dep_seeded W g g' \<longleftrightarrow> (\<exists>c u cop vib w. Wallets_Seed W c u cop vib (stWallets (dpStores g)) = (Inr w, stWallets (dpStores g')))"

locale deployment_ports =
  req: wallet_ledger W v + own: sound_wallet_ledger "spWallets S" v + jrn: reliable_journal "spJournal S" processed
    + pipe: event_pipeline P ok
  for W :: "'w WalletRepository" and S :: "('w, 'j, 't, 'o) Settlement" and v :: "'w \<Rightarrow> ledger_view"
    and processed :: "'j \<Rightarrow> string set" and P :: "'l log_port" and ok :: "'l \<Rightarrow> bool"
begin

text \<open>
  Each step of a deployment is a step of its twin, or one the twin does not notice; only seeding
  changes the money supply.
\<close>

lemma sim_Accept:
  assumes tw: "twin P ok v processed K ph st g" and inv: "sys_inv st" and new: "oID o' \<notin> dpUsed g" and fit: "fits o'"
    and acc: "accept (dep_trading L W os (dpSymbol g)) c bytes t cmd (dep_view g) = (Inr o', ts)"
  shows "\<exists>st'. sys_step st st' \<and> twin P ok v processed K ph st'
    ((dep_after ts g)\<lparr>dpSubmitting := dpSubmitting g @ [o'], dpUsed := insert (oID o') (dpUsed g)\<rparr>) \<and> supply_of st' = supply_of st"
proof -
  have o': "o' = new_order (dpSymbol g) bytes t cmd" "Validate o' = None" using accept_order [OF acc] by auto
  obtain w where w: "v (stWallets (dpStores g)) (oUserID o') = Some w" "fst (reserve_fn o' w) = None"
    and v': "v (tsWallets ts) = (v (stWallets (dpStores g)))(oUserID o' \<mapsto> snd (reserve_fn o' w))"
    using req.accept_accepted(1) [OF _ acc] o'(1) by auto
  have "\<exists>s1. accept (mem_trading (sySymbol st)) c bytes t cmd (request_view st) = (Inr o', s1)
      \<and> ws_view (tsWallets s1) = (ws_view (tsWallets (request_view st)))(oUserID o' \<mapsto> snd (reserve_fn o' w))"
    by (rule mem_ledger.accept_works) (use tw o' w in \<open>simp_all add: twin_def\<close>)
  then obtain s1 where s1: "accept (mem_trading (sySymbol st)) c bytes t cmd (request_view st) = (Inr o', s1)"
    and v1: "ws_view (tsWallets s1) = (ws_view (tsWallets (request_view st)))(oUserID o' \<mapsto> snd (reserve_fn o' w))" by blast
  have "take 4 (oID o') = ''ord-''" unfolding o'(1) by (rule new_order_id)
  then have "oID o' \<notin> syUsed st" using tw new unfolding twin_def by (metis UnE imageE)
  note step = sys_step.Accept [OF s1 this fit] and sup = inv_Accept(2,3) [OF inv s1 this fit]
  show ?thesis
    by (rule exI, rule conjI, rule step, rule conjI)
      (use tw v' v1 in \<open>simp add: twin_def\<close>, use sup in \<open>simp add: supply_of_def\<close>)
qed

lemma sim_GiveUp:
  assumes tw: "twin P ok v processed K ph st g" and inv: "sys_inv st" and sub: "dpSubmitting g = xs @ o' # ys"
    and com: "complete (dep_trading L (spWallets S) os (dpSymbol g)) o' (Inl ErrContext) t0 t2 (dep_view g) = (res, ts)"
  shows "\<exists>st'. sys_step st st' \<and> twin P ok v processed K ph st' ((dep_after ts g)\<lparr>dpSubmitting := xs @ ys\<rparr>)
    \<and> supply_of st' = supply_of st"
proof -
  let ?u = "oUserID o'" and ?f = "release_fn o'" and ?v = "ws_view (stWallets (syStores st))"
  obtain r s1 where c1: "complete (mem_trading (sySymbol st)) o' (Inl ErrContext) t0 t2 (request_view st) = (r, s1)" by fastforce
  have sub': "sySubmitting st = (ph @ xs) @ o' # ys" using tw sub by (simp add: twin_def)
  have v1: "ws_view (tsWallets s1) = apply_view ?u ?f ?v"
    using request_update [OF c1] mem_ledger.update_exact(2) [of "stWallets (syStores st)" ?u _ CtxLive ?f] mem_ledger.update_missing
    by (cases "?v ?u") (auto simp: apply_view_def)
  have "stays_nonneg ?u ?f ?v"
    using inv_GiveUp(1) [OF inv sub' c1] unfolding sys_inv_def by (auto simp: v1 intro: balanced_nonneg)
  then have "v (tsWallets ts) = apply_view ?u ?f ?v"
    using request_update [OF com] own.update_view [of ?f ?u "stWallets (dpStores g)" CtxLive] tw by (simp add: twin_def)
  note v' = this
  show ?thesis
    by (rule exI, rule conjI, rule sys_step.GiveUp [OF sub' c1], rule conjI)
      (use v1 v' tw in \<open>simp add: twin_def\<close>, use inv_GiveUp(2,3) [OF inv sub' c1] in \<open>simp add: supply_of_def\<close>)
qed

lemma sim_EngineStep:
  assumes tw: "twin P ok v processed K ph st g" and inv: "sys_inv st" and cmds: "dpIn g = cmd # cmds"
    and hc: "handle_command (lpLog P) cmd (dpEngine g, dpLog g) = Some (r, e', l')"
    and room: "eSeq (dpEngine g) + int (length (lpPending P l') - length (lpPending P (dpLog g))) \<le> max_i64"
  shows "\<exists>st'. sys_step st st' \<and> twin P ok v processed K ph st' (g\<lparr>dpIn := cmds, dpEngine := e', dpLog := l'\<rparr>)
    \<and> supply_of st' = supply_of st"
proof -
  let ?m = "syLog st" and ?D = "processed (stJournal (dpStores g))"
  have c: "carries P ok K ?D ?m (dpLog g)" and in': "syIn st = cmd # cmds" and en: "syEngine st = dpEngine g"
    using tw cmds by (simp_all add: twin_def)
  have "alike P ok (lg_ch ?m) (dpLog g) ?m (dpLog g)" by (rule alike_start) (use c in \<open>simp_all add: carries_def\<close>)
  from pipe.handle_command_same [OF this hc] obtain m' where m': "handle_command mem_log cmd (dpEngine g, ?m) = Some (r, e', m')"
    "alike P ok (lg_ch ?m) (dpLog g) m' l'" by blast
  obtain zs where zs: "lg_ch m' = lg_ch ?m @ zs" "lpPending P l' = lpPending P (dpLog g) @ zs" and al: "ok l'" "\<not> lg_closed m'"
    "set (lpSeen P l') \<subseteq> set (lpSeen P (dpLog g))" using m'(2) by (auto simp: alike_def)
  have room': "eSeq (syEngine st) + int (length (lg_ch m') - length (lg_ch ?m)) \<le> max_i64" using room by (simp add: zs en)
  note hm = m'(1) [folded en]
  have "set (map eID zs) \<subseteq> future_ids st"
    by (rule engine_step_spec [OF inv in' hm]) (use new_ids_future [OF inv] room' zs(1) in auto)
  then have "set (map eID zs) \<inter> ?D = {}" using inv tw by (auto simp: sys_inv_def sys_events_def twin_def)
  then have "filter (\<lambda>ev. eID ev \<notin> K) zs = zs" using c by (auto simp: carries_def filter_id_conv)
  with c zs al have "carries P ok K ?D m' l'" by (auto simp: carries_def)
  with tw have "twin P ok v processed K ph (st\<lparr>syIn := cmds, syEngine := e', syLog := m'\<rparr>) (g\<lparr>dpIn := cmds, dpEngine := e', dpLog := l'\<rparr>)"
    by (simp add: twin_def)
  moreover have "supply_of (st\<lparr>syIn := cmds, syEngine := e', syLog := m'\<rparr>) = supply_of st" by (simp add: supply_of_def)
  ultimately show ?thesis using sys_step.EngineStep [OF in' hm room'] by blast
qed

lemma sim_Settle:
  assumes tw: "twin P ok v processed K ph st g" and inv: "sys_inv st" and recv: "lpRecv P (dpLog g) = Some (ev, l')"
    and fresh: "eID ev \<notin> K"
  shows "\<exists>st'. sys_step st st' \<and> twin P ok v processed K ph st' (g\<lparr>dpLog := l', dpStores := handle S c t ev (dpStores g)\<rparr>)
    \<and> supply_of st' = supply_of st"
proof -
  let ?s = "syStores st" and ?d = "dpStores g" and ?v = "ws_view (stWallets (syStores st))"
  have r: "ok l'" "lpPending P (dpLog g) = ev # lpPending P l'" "set (lpSeen P l') \<subseteq> insert ev (set (lpSeen P (dpLog g)))"
    using pipe.recv_takes [OF _ recv] tw by (auto simp: twin_def carries_def)
  have lg: "lg_ch (syLog st) = ev # filter (\<lambda>x. eID x \<notin> K) (lpPending P l')"
    using tw fresh by (simp add: twin_def carries_def r(2))
  let ?m = "(syLog st)\<lparr>lg_ch := filter (\<lambda>x. eID x \<notin> K) (lpPending P l')\<rparr>"
  have recv': "Log_recv (syLog st) = Some (Some ev, ?m)" by (simp add: Log_recv_def lg)
  have m': "carries P ok K (insert (eID ev) (processed (stJournal ?d))) ?m l'"
  proof -
    have "eID ` set (lpSeen P l') \<subseteq> insert (eID ev) (eID ` set (lpSeen P (dpLog g)))" using r(3) by blast
    moreover have "eID ` set (lpSeen P (dpLog g)) \<subseteq> processed (stJournal ?d)" using tw by (simp add: twin_def carries_def)
    ultimately have "eID ` set (lpSeen P l') \<subseteq> insert (eID ev) (processed (stJournal ?d))" by blast
    with tw r(1) show ?thesis unfolding twin_def carries_def by (simp add: subset_insertI2)
  qed
  define st' where "st' = st\<lparr>syLog := ?m, syStores := handle mem_settlement c t ev ?s\<rparr>"
  have ev: "ev_typed ev" "aevent_ok (abs_event ev)" and new: "eID ev \<notin> set (jr_seen (stJournal ?s))"
    using inv lg by (auto simp: sys_inv_def sys_events_def)
  have n: "needCOP st = (\<lambda>u. needCOP st' u + pendCOP u (abs_event ev))" "needVIB st = (\<lambda>u. needVIB st' u + pendVIB u (abs_event ev))"
    using lg by (auto simp: fun_eq_iff st'_def needCOP_def needVIB_def book_of_def)
  have nn: "0 \<le> needCOP st' u" "0 \<le> needVIB st' u" for u
    using inv_Settle(1) [OF inv recv', of c t] ledger_balD(2,3) by (auto simp: st'_def sys_inv_def ledger_ok_def)
  have ok: "ledger_ok ?v (needCOP st) (needVIB st)" using inv by (simp add: sys_inv_def)
  note un = settle_nonneg [OF ok [unfolded n] nn ev]
  have m: "ws_view (stWallets (syStores st')) = apply_views (event_updates ev) ?v"
    using mem_ledger.apply_event_view [OF _ un, of mem_settlement c] handle_settles(1) [OF new, of c t] by (simp add: st'_def)
  have new': "eID ev \<notin> processed (stJournal ?d)" and vv: "v (stWallets ?d) = ?v" using tw new by (simp_all add: twin_def)
  note h = jrn.handle_new [OF refl new', of c t]
  have d: "v (stWallets (handle S c t ev ?d)) = apply_views (event_updates ev) ?v"
    using own.apply_event_view [OF refl, of ev ?d c] un by (simp add: h vv)
  have "twin P ok v processed K ph st' (g\<lparr>dpLog := l', dpStores := handle S c t ev ?d\<rparr>)"
    using tw m m' d h(2) handle_settles(2) [OF new, of c t] by (simp add: twin_def st'_def)
  moreover have "supply_of st' = supply_of st" using inv_Settle(2,3) [OF inv recv', of c t] by (simp add: supply_of_def st'_def)
  ultimately show ?thesis using sys_step.Settle [OF recv', of c t] unfolding st'_def by blast
qed

lemma sim_Seed:
  assumes tw: "twin P ok v processed K ph st g" and seed: "Wallets_Seed W c u cop vib (stWallets (dpStores g)) = (Inr w, ws)"
    and idle: "\<And>w0. v (stWallets (dpStores g)) u = Some w0 \<Longrightarrow> COPLocked w0 = 0 \<and> VibraniumLocked w0 = 0"
    and sup: "supplyCOP (v ws) \<le> max_i64" "supplyVIB (v ws) \<le> max_i64"
  shows "\<exists>st'. sys_step st st' \<and> twin P ok v processed K ph st' (with_wallets ws g)"
proof -
  note s = req.Seed_view(1) [OF seed refl]
  have w: "w = \<lparr>wUserID = u, COPAvailable = cop, COPLocked = 0, VibraniumAvailable = vib, VibraniumLocked = 0\<rparr>" using s by simp
  have args: "u \<noteq> []" "0 \<le> cop" "0 \<le> vib" using s seed by (auto simp: Wallets_Seed_def)
  obtain ws' where m: "Wallets_Seed mem_wallets c u cop vib (stWallets (syStores st)) = (Inr w, ws')"
    by (rule mem_ledger.Seed_works [OF args, of c "stWallets (syStores st)"]) (simp add: w)
  have v: "ws_view ws' = v ws" using mem_ledger.Seed_view(1) [OF m refl] s tw by (simp add: twin_def)
  have "sys_step st (st\<lparr>syStores := (syStores st)\<lparr>stWallets := ws'\<rparr>\<rparr>)"
    by (rule sys_step.Seed [OF m]) (use idle sup tw in \<open>simp_all add: v twin_def\<close>)
  moreover have "twin P ok v processed K ph (st\<lparr>syStores := (syStores st)\<lparr>stWallets := ws'\<rparr>\<rparr>) (with_wallets ws g)"
    using tw v by (simp add: twin_def)
  ultimately show ?thesis by blast
qed

lemma unnoticed:
  assumes "twin P ok v processed K ph st g" and "dpSymbol g' = dpSymbol g" "dpEngine g' = dpEngine g" 
    "carries P ok K (processed (stJournal (dpStores g))) (syLog st) (dpLog g) \<Longrightarrow>
      carries P ok K (processed (stJournal (dpStores g))) (syLog st) (dpLog g')"
    "dpIn g' = dpIn g" "dpSubmitting g' = dpSubmitting g" "dpUsed g' = dpUsed g"
    and "v (stWallets (dpStores g')) = v (stWallets (dpStores g))"
    and "processed (stJournal (dpStores g')) = processed (stJournal (dpStores g))"
  shows "\<exists>st'. (st' = st \<or> sys_step st st') \<and> twin P ok v processed K ph st' g' \<and> (supply_of st' = supply_of st \<or> dep_seeded W g g')"
  using assms by (auto simp: twin_def intro: exI [of _ st])

lemma simulation:
  assumes "dep_step P W S v g g'" and "twin P ok v processed K ph st g" and "sys_inv st"
  shows "\<exists>st'. (st' = st \<or> sys_step st st') \<and> twin P ok v processed K ph st' g' \<and> (supply_of st' = supply_of st \<or> dep_seeded W g g')"
  using assms
proof (induction rule: dep_step.induct)
  case (dAccept g c bytes t cmd o' ts)
  then show ?case using sim_Accept [OF dAccept.prems dAccept.hyps(2,3,1)] by blast
next
  case (dReject g c bytes t cmd res ts)
  then show ?case by (intro unnoticed [OF dReject.prems(1)]) (use req.accept_rejected(1) [OF _ dReject.hyps] in simp_all)
next
  case (dEnqueue g xs o' ys)
  then have "sySubmitting st = (ph @ xs) @ o' # ys" by (simp add: twin_def)
  note step = sys_step.Enqueue [OF this]
  show ?case by (rule exI, rule conjI, rule disjI2, rule step) (use dEnqueue.prems in \<open>simp add: twin_def supply_of_def\<close>)
next
  case (dGiveUp g xs o' ys t0 t2 res ts)
  then show ?case using sim_GiveUp [OF dGiveUp.prems dGiveUp.hyps] by blast
next
  case (dCancelRequest g i)
  show ?case
    by (rule exI, rule conjI, rule disjI2, rule sys_step.CancelRequest [of _ i]) (use dCancelRequest.prems in \<open>simp add: twin_def supply_of_def\<close>)
next
  case (dDepthRequest g d)
  show ?case
    by (rule exI, rule conjI, rule disjI2, rule sys_step.DepthRequest [of _ d]) (use dDepthRequest.prems in \<open>simp add: twin_def supply_of_def\<close>)
next
  case (dEngineStep g cmd cmds reply e' l')
  then show ?case using sim_EngineStep [OF dEngineStep.prems dEngineStep.hyps] by blast
next
  case (dLog g l')
  then show ?case by (intro unnoticed [OF dLog.prems(1)]) (use pipe.step_keeps [OF _ dLog.hyps] in \<open>auto simp: carries_def\<close>)
next
  case (dSettle g ev l' c t)
  show ?case
  proof (cases "eID ev \<in> K")
    case True
    then have dup: "eID ev \<in> processed (stJournal (dpStores g))" using dSettle.prems(1) by (auto simp: twin_def carries_def)
    show ?thesis
      by (intro unnoticed [OF dSettle.prems(1)])
        (use pipe.recv_takes [OF _ dSettle.hyps] True dup in \<open>auto simp: carries_def jrn.handle_duplicate(1) [OF refl dup]
          jrn.handle_moved(2) [OF refl] insert_absorb\<close>)
  next
    case False
    with sim_Settle [OF dSettle.prems dSettle.hyps, of c t] show ?thesis by blast
  qed
next
  case (dRedeliver c ev g t)
  then have dup: "eID ev \<in> processed (stJournal (dpStores g))" using jrn.mark_total by simp
  then show ?case
    by (intro unnoticed [OF dRedeliver.prems(1)])
      (simp_all add: jrn.handle_duplicate(1) [OF refl dup] jrn.handle_moved(2) [OF refl] insert_absorb)
next
  case (dSeed c u cop vib g w ws)
  have "dep_seeded W g (with_wallets ws g)" 
    unfolding dep_seeded_def dep_fields using dSeed.hyps(1) by (intro exI)
  with dSeed.prems show ?case using sim_Seed [OF dSeed.prems(1) dSeed.hyps] by blast
next
  case (dSeedFailed c u cop vib g e ws)
  then show ?case by (intro unnoticed [OF dSeedFailed.prems(1)]) (use req.Seed_view(2) [OF dSeedFailed.hyps refl] in simp_all)
next
  case (dGetWallet c u g r ws)
  then show ?case
    by (intro unnoticed [OF dGetWallet.prems(1)]) (use req.get_view [of c u "stWallets (dpStores g)"] in \<open>simp_all add: Wallets_Get_def\<close>)
next
  case (dListWallets c g r ws)
  then show ?case
    by (intro unnoticed [OF dListWallets.prems(1)]) (use req.list_view [of c "stWallets (dpStores g)"] in \<open>simp_all add: Wallets_List_def\<close>)
next
  case (dGetOrder g c i r ts)
  then show ?case by (intro unnoticed [OF dGetOrder.prems(1)]) simp_all
qed

lemma runs_like_memory:
  assumes "dep_run P W S v (new_deployment symbol l0 producer now booknow s0) g"
    and "v (stWallets s0) = Map.empty" and "processed (stJournal s0) = {}" and "ok l0" and "lpPending P l0 = []" and "lpSeen P l0 = []"
  shows "\<exists>st. reachable (init_system symbol buffer producer now booknow) st \<and> twin P ok v processed {} [] st g"
  using assms(1)
proof (induction rule: dep_run.induct)
  case dep_start
  have "twin P ok v processed {} [] (init_system symbol buffer producer now booknow) (new_deployment symbol l0 producer now booknow s0)"
    using assms(2-6) by (simp add: twin_def carries_def NewLog_def new_deployment_def init_system_def init_stores_def NewWalletStore_def NewJournal_def ws_view_def fun_eq_iff)
  then show ?case using reachable.Start by blast
next
  case (dep_next g g')
  then obtain st where st: "reachable (init_system symbol buffer producer now booknow) st" "twin P ok v processed {} [] st g" by blast
  from simulation [OF dep_next.hyps(2) st(2) reachable_inv [OF st(1)]] st(1) reachable.Step show ?case by blast
qed

lemma locked_in_store:
  assumes "dep_run P W S v (new_deployment symbol l0 producer now booknow s0) g"
    and "v (stWallets s0) = Map.empty" and "processed (stJournal s0) = {}" and "ok l0" and "lpPending P l0 = []" and "lpSeen P l0 = []"
    and w: "v (stWallets (dpStores g)) u = Some w"
  shows "COPLocked w = needCOP (inside P g) u \<and> VibraniumLocked w = needVIB (inside P g) u \<and> wallet_nonneg w"
proof -
  obtain st where st: "reachable (init_system symbol 0 producer now booknow) st" "twin P ok v processed {} [] st g"
    using runs_like_memory [OF assms(1-6), of 0] by blast
  have "needCOP st u = needCOP (inside P g) u" "needVIB st u = needVIB (inside P g) u"
    using st(2) by (simp_all add: twin_def inside_def needCOP_def needVIB_def book_of_def carries_def)
  moreover have l: "ledger_bal (v (stWallets (dpStores g))) (needCOP st) (needVIB st)"
    using reachable_inv [OF st(1)] st(2) by (simp add: sys_inv_def ledger_ok_def twin_def)
  ultimately show ?thesis using ledger_balD(5,6) [OF l w] ledger_nonneg [OF l w] by simp
qed

lemma settled_store:
  assumes "dep_run P W S v (new_deployment symbol l0 producer now booknow s0) g"
    and "v (stWallets s0) = Map.empty" and "processed (stJournal s0) = {}" and "ok l0" and "lpPending P l0 = []" and "lpSeen P l0 = []" and "lpPending P (dpLog g) = []"
  shows "\<exists>X. exch_run X \<and> xBook X = absB (eBook (dpEngine g)) \<and> xHolds X = holdings (v (stWallets (dpStores g)))"
proof -
  obtain st where st: "reachable (init_system symbol 0 producer now booknow) st" "twin P ok v processed {} [] st g"
    using runs_like_memory [OF assms(1-6), of 0] by blast
  with assms(7) reachable_exch_run [OF st(1)] show ?thesis
    by (intro exI [of _ "exch_of st"]) (simp add: exch_of_def twin_def book_of_def carries_def)
qed

end

text \<open>When the log drains, settlement can catch up from everywhere, without the engine or a request moving.\<close>

locale live_deployment = deployment_ports W S v processed P ok + drain: draining_pipeline P ok work
  for W :: "'w WalletRepository" and S :: "('w, 'j, 't, 'o) Settlement" and v :: "'w \<Rightarrow> ledger_view"
    and processed :: "'j \<Rightarrow> string set" and P :: "'l log_port" and ok :: "'l \<Rightarrow> bool" and work :: "'l \<Rightarrow> nat"
begin

lemma drained:
  "dep_run P W S v g0 g \<Longrightarrow> ok (dpLog g) \<Longrightarrow>
   \<exists>g'. dep_run P W S v g0 g' \<and> lpPending P (dpLog g') = [] \<and> dpEngine g' = dpEngine g \<and> dpIn g' = dpIn g
     \<and> dpSubmitting g' = dpSubmitting g"
proof (induction "work (dpLog g)" arbitrary: g rule: less_induct)
  case less
  show ?case
  proof (cases "lpPending P (dpLog g) = []")
    case True
    with less.prems show ?thesis by blast
  next
    case False
    with drain.drains [OF less.prems(2)] consider
      l' where "lpStep P (dpLog g) l'" "work l' < work (dpLog g)"
      | ev l' where "lpRecv P (dpLog g) = Some (ev, l')" "work l' < work (dpLog g)" by blast
    then show ?thesis
    proof cases
      case 1
      have "ok l'" using pipe.step_keeps [OF less.prems(2) 1(1)] by simp
      then show ?thesis
        using less.hyps [of "g\<lparr>dpLog := l'\<rparr>"] dep_next [OF less.prems(1) dLog [OF 1(1)]] 1(2) by simp
    next
      case 2
      have "ok l'" using pipe.recv_takes [OF less.prems(2) 2(1)] by simp
      then show ?thesis
        using less.hyps [of "g\<lparr>dpLog := l', dpStores := handle S CtxLive 0 ev (dpStores g)\<rparr>"]
          dep_next [OF less.prems(1) dSettle [OF 2(1), of W S v CtxLive 0]] 2(2) by simp
    qed
  qed
qed

lemma catches_up:
  assumes run: "dep_run P W S v (new_deployment symbol l0 producer now booknow s0) g"
    and start: "v (stWallets s0) = Map.empty" "processed (stJournal s0) = {}" "ok l0" "lpPending P l0 = []" "lpSeen P l0 = []"
  shows "\<exists>g' X. dep_run P W S v (new_deployment symbol l0 producer now booknow s0) g' \<and> lpPending P (dpLog g') = []
    \<and> dpEngine g' = dpEngine g \<and> dpIn g' = dpIn g \<and> dpSubmitting g' = dpSubmitting g
    \<and> exch_run X \<and> xBook X = absB (eBook (dpEngine g)) \<and> xHolds X = holdings (v (stWallets (dpStores g')))"
proof -
  have "ok (dpLog g)" using runs_like_memory [OF run start, of 0] by (auto simp: twin_def carries_def)
  from drained [OF run this] obtain g' where g': "dep_run P W S v (new_deployment symbol l0 producer now booknow s0) g'"
    "lpPending P (dpLog g') = []" "dpEngine g' = dpEngine g" "dpIn g' = dpIn g" "dpSubmitting g' = dpSubmitting g" by blast
  from settled_store [OF g'(1) start g'(2)] g' show ?thesis by metis
qed

end

subsection \<open>The deployments that \<open>bootstrap.go\<close> can assemble\<close>

text \<open>
  The wallets in memory, in Postgres, or in Postgres behind the cache; the journal in memory or in
  Postgres; the log in memory or on Kafka. Requests may meet any failure of the database whose
  answers are not lost and any failure of Redis; settlement is served, also when Redis fails.
\<close>

interpretation memory_deployment: deployment_ports mem_wallets "NewSettlement mem_journal mem_wallets trs ods"
  ws_view "\<lambda>j. set (jr_seen j)" memory_pipe "\<lambda>l. \<not> lg_closed l" for trs ods
  by (simp add: deployment_ports_def NewSettlement_def mem_ledger.wallet_ledger_axioms mem_ledger.sound_wallet_ledger_axioms
      mem_marks.reliable_journal_axioms memory_pipe.event_pipeline_axioms)

interpretation pg_deployment: deployment_ports "pg_wallets (answered orc)"
  "NewSettlement (pg_journal (\<lambda>_. PgOk)) (pg_wallets (\<lambda>_. PgOk)) trs ods" pg_view "\<lambda>db. set (pgEvents db)"
  memory_pipe "\<lambda>l. \<not> lg_closed l" for orc trs ods
  by (simp add: deployment_ports_def NewSettlement_def pg_ledger.wallet_ledger_axioms pg_sound.sound_wallet_ledger_axioms
      pg_reliable.reliable_journal_axioms memory_pipe.event_pipeline_axioms)

interpretation durable_deployment: deployment_ports "wallet_cache env ttl (pg_wallets (answered orc))"
  "NewSettlement (pg_journal (\<lambda>_. PgOk)) (wallet_cache env ttl (pg_wallets (\<lambda>_. PgOk))) trs ods"
  "\<lambda>s. pg_view (wcInner s)" "\<lambda>db. set (pgEvents db)" "kafka_pipe codec w" "kafka_ready codec" for env ttl orc trs ods codec w
  by (simp add: deployment_ports_def NewSettlement_def pg_cached.wallet_ledger_axioms pg_cached_sound.sound_wallet_ledger_axioms
      pg_reliable.reliable_journal_axioms kafka_pipe.event_pipeline_axioms)

interpretation memory_live: live_deployment mem_wallets "NewSettlement mem_journal mem_wallets trs ods"
  ws_view "\<lambda>j. set (jr_seen j)" memory_pipe "\<lambda>l. \<not> lg_closed l" "\<lambda>l. length (lg_ch l)" for trs ods
  by (intro live_deployment.intro memory_deployment.deployment_ports_axioms memory_drains.draining_pipeline_axioms)

interpretation durable_live: live_deployment "wallet_cache env ttl (pg_wallets (answered orc))"
  "NewSettlement (pg_journal (\<lambda>_. PgOk)) (wallet_cache env ttl (pg_wallets (\<lambda>_. PgOk))) trs ods"
  "\<lambda>s. pg_view (wcInner s)" "\<lambda>db. set (pgEvents db)" "kafka_pipe codec w" "kafka_ready codec" kafka_left for env ttl orc trs ods codec w
  by (intro live_deployment.intro durable_deployment.deployment_ports_axioms kafka_drains.draining_pipeline_axioms)

subsection \<open>The durable service, and a run of it\<close>

text \<open>
  The wallets in Postgres behind the cache, the journal in Postgres, the log on Kafka, trades and
  orders anywhere. It starts with empty tables and an empty topic.
\<close>

type_synonym ('t, 'o, 'p) durable = "(pg cached, pg, 't, 'o, 'p klog) deployment"

definition durable_run :: "redis_env \<Rightarrow> int \<Rightarrow> pg_oracle \<Rightarrow> 't TradeRepository \<Rightarrow> 'o OrderRepository \<Rightarrow> 'p codec
    \<Rightarrow> close_world \<Rightarrow> ('t, 'o, 'p) durable \<Rightarrow> ('t, 'o, 'p) durable \<Rightarrow> bool" where
  "durable_run env ttl orc trs ods codec w = dep_run (kafka_pipe codec w) (wallet_cache env ttl (pg_wallets (answered orc)))
     (NewSettlement (pg_journal (\<lambda>_. PgOk)) (wallet_cache env ttl (pg_wallets (\<lambda>_. PgOk))) trs ods) (\<lambda>s. pg_view (wcInner s))"

definition durable_view :: "('t, 'o, 'p) durable \<Rightarrow> ledger_view" where
  "durable_view g = pg_view (wcInner (stWallets (dpStores g)))"

definition new_durable :: "string \<Rightarrow> int \<Rightarrow> string \<Rightarrow> (nat \<Rightarrow> time) \<Rightarrow> (nat \<Rightarrow> time) \<Rightarrow> 't \<Rightarrow> 'o \<Rightarrow> ('t, 'o, 'p) durable" where
  "new_durable symbol buffer producer now booknow trades ods = new_deployment symbol (new_klog buffer [] 0) producer now booknow
     \<lparr>stWallets = NewWalletCache empty_pg, stJournal = empty_pg, stTrades = trades, stOrders = ods, stMetrics = [], stLog = []\<rparr>"

lemma new_durable_ready:
  assumes "codec_ok codec" and "\<forall>ev. marshals codec ev"
  shows "pg_view (wcInner (NewWalletCache empty_pg)) = Map.empty" and "set (pgEvents empty_pg) = {}"
    and "kafka_ready codec (new_klog buffer [] 0)" and "lpPending (kafka_pipe codec w) (new_klog buffer [] 0) = []"
  using assms
  by (simp_all add: NewWalletCache_def empty_pg_def pg_view_def fun_eq_iff kafka_ready_def new_klog_def offsets_ok_def
      kafka_pipe_def kafka_pending_def fetched_ok_def fetched_def)

text \<open>
  Redis is down the whole time. A user is seeded, his order for 20 COP accepted, handed to the
  engine and placed in the book; the event of it is in the log.
\<close>

definition redis_down :: redis_env where
  "redis_down = \<lparr>rdFate = (\<lambda>_. RedisFailed ErrContext), rdTime = int\<rparr>"

abbreviation "durable_wallets \<equiv> wallet_cache redis_down 0 (pg_wallets (answered (\<lambda>_. PgOk)))"
abbreviation "quiet_close \<equiv> \<lparr>cwFlush = None, cwConsumed = 0, cwCommit = None\<rparr>"
abbreviation "durable_log \<equiv> kafka_log ex_codec quiet_close"
abbreviation "buy_two \<equiv> \<lparr>pcUserID = ''bob'', pcSide = Buy, pcPrice = 10, pcQuantity = 2\<rparr>"
abbreviation "durable_services \<equiv> NewSettlement (pg_journal (\<lambda>_. PgOk)) durable_wallets mem_trades mem_orders"

definition durable0 :: "(TradeStore, OrderStore, event) durable" where
  "durable0 = new_durable ''VIB'' 8 ''eng'' int int NewTradeStore NewOrderStore"

definition durable1 :: "(TradeStore, OrderStore, event) durable" where
  "durable1 = with_wallets (snd (Wallets_Seed durable_wallets CtxLive ''bob'' 1000 5 (stWallets (dpStores durable0)))) durable0"

definition durable_order :: order where
  "durable_order = new_order ''VIB'' [7] 0 buy_two"

definition durable2 :: "(TradeStore, OrderStore, event) durable" where
  "durable2 = (dep_after (snd (accept (dep_trading durable_log durable_wallets mem_orders ''VIB'') CtxLive [7] 0 buy_two
       (dep_view durable1))) durable1)\<lparr>dpSubmitting := [durable_order], dpUsed := {oID durable_order}\<rparr>"

definition durable3 :: "(TradeStore, OrderStore, event) durable" where
  "durable3 = durable2\<lparr>dpSubmitting := [], dpIn := [cmdPlace durable_order]\<rparr>"

definition durable4 :: "(TradeStore, OrderStore, event) durable" where
  "durable4 = (case handle_command durable_log (cmdPlace durable_order) (dpEngine durable3, dpLog durable3) of
     Some (r, e, l) \<Rightarrow> durable3\<lparr>dpIn := [], dpEngine := e, dpLog := l\<rparr> | None \<Rightarrow> durable3)"

lemma durable_values:
  "isl (fst (Wallets_Seed durable_wallets CtxLive ''bob'' 1000 5 (stWallets (dpStores durable0)))) = False"
  "fst (accept (dep_trading durable_log durable_wallets mem_orders ''VIB'') CtxLive [7] 0 buy_two (dep_view durable1))
     = Inr durable_order"
  "durable_view durable4 ''bob'' = Some \<lparr>wUserID = ''bob'', COPAvailable = 980, COPLocked = 20, VibraniumAvailable = 5, VibraniumLocked = 0\<rparr>"
  "fits durable_order"
  "handle_command durable_log (cmdPlace durable_order) (dpEngine durable3, dpLog durable3) \<noteq> None"
  "length (kIn (dpLog durable4)) = 1" "kOut (dpLog durable4) = []" "kTopic (dpLog durable4) = []" "kBuffer (dpLog durable4) = []"
  "eSeq (dpEngine durable3) + 1 \<le> max_i64"
  by code_simp+

lemma durable_session: "durable_run redis_down 0 (\<lambda>_. PgOk) mem_trades mem_orders ex_codec quiet_close durable0 durable4"
proof -
  let ?W = "durable_wallets" and ?v = "\<lambda>s. pg_view (wcInner s)" and ?P = "kafka_pipe ex_codec quiet_close"
  let ?S = "NewSettlement (pg_journal (\<lambda>_. PgOk)) (wallet_cache redis_down 0 (pg_wallets (\<lambda>_. PgOk))) mem_trades mem_orders"
  obtain w ws where sd: "Wallets_Seed ?W CtxLive ''bob'' 1000 5 (stWallets (dpStores durable0)) = (Inr w, ws)"
    using durable_values(1) by (metis isl_def prod.collapse sum.collapse(2))
  have e: "?v (stWallets (dpStores durable0)) = Map.empty"
    by (simp add: durable0_def new_durable_def new_deployment_def NewWalletCache_def empty_pg_def pg_view_def fun_eq_iff)
  have "?v ws = [''bob'' \<mapsto> w] \<and> COPLocked w = 0 \<and> VibraniumLocked w = 0 \<and> COPAvailable w = 1000 \<and> VibraniumAvailable w = 5"
    using pg_cached.Seed_view(1) [OF sd refl] e by simp
  then have 1: "dep_step ?P ?W ?S ?v durable0 durable1"
    unfolding durable1_def sd snd_conv
    by (intro dSeed [OF sd]) (use e in \<open>simp_all add: supplyCOP_def supplyVIB_def\<close>)
  obtain ts where a: "accept (dep_trading durable_log ?W mem_orders ''VIB'') CtxLive [7] 0 buy_two (dep_view durable1) = (Inr durable_order, ts)"
    using durable_values(2) by (metis prod.collapse)
  have u: "dpUsed durable1 = {}" "dpSubmitting durable1 = []" "dpSymbol durable1 = ''VIB''" "dpIn durable1 = []"
    by (simp_all add: durable1_def durable0_def new_durable_def new_deployment_def)
  have 2: "dep_step ?P ?W ?S ?v durable1 durable2"
    using dAccept [of ?P ?W ?S durable1 CtxLive "[7]" 0 _ durable_order ts ?v] a u durable_values(4)
    by (simp add: durable2_def NewSettlement_def)
  have 3: "dep_step ?P ?W ?S ?v durable2 durable3"
    using dEnqueue [of durable2 "[]" durable_order "[]" ?P ?W ?S ?v] u(4) by (simp add: durable2_def durable3_def dep_after_def)
  obtain r en l where h: "handle_command durable_log (cmdPlace durable_order) (dpEngine durable3, dpLog durable3) = Some (r, en, l)"
    using durable_values(5) by auto
  have e3: "kafka_pending ex_codec (dpLog durable3) = []"
    by (simp add: durable3_def durable2_def dep_after_def durable1_def with_wallets_def durable0_def new_durable_def new_deployment_def
        kafka_pending_def new_klog_def)
  have i3: "dpIn durable3 = [cmdPlace durable_order]" by (simp add: durable3_def)
  have d4: "durable4 = durable3\<lparr>dpIn := [], dpEngine := en, dpLog := l\<rparr>" unfolding durable4_def h by simp
  have "length (kafka_pending ex_codec l) = 1"
    using durable_values(6-9) by (simp add: d4 kafka_pending_def ex_codec_ok)
  then have 4: "dep_step ?P ?W ?S ?v durable3 durable4"
    unfolding d4 by (intro dEngineStep [OF i3, of _ r]) (use h e3 durable_values(10) in simp_all)
  show ?thesis unfolding durable_run_def by (intro dep_next [OF dep_next [OF dep_next [OF dep_next [OF dep_start 1] 2] 3] 4])
qed

end
