(* ===== verification/Crash.thy ===== *)
theory Crash
  imports Deployment
begin

section \<open>Crashes of the whole service\<close>

text \<open>
  The process dies and is started again: the book, the requests on their way and what the log held in
  memory are gone; the database, Redis and the topic stay. The new engine has a new random
  identifier. The crash comes between two events of settlement; a crash in the middle of one, like a
  lost answer of the journal, is outside of what the code protects against.

  What holds through any number of crashes: no money appears or disappears, no balance gets
  negative, and every wallet still has locked at least what its user owes. The proof turns what the
  crash left locked into requests that never get to the engine, one for each user and currency.
\<close>

definition restarted :: "string \<Rightarrow> (nat \<Rightarrow> time) \<Rightarrow> (nat \<Rightarrow> time) \<Rightarrow> 'l \<Rightarrow> ('w, 'j, 't, 'o, 'l) deployment
    \<Rightarrow> ('w, 'j, 't, 'o, 'l) deployment" where
  "restarted producer now booknow l' g = g\<lparr>dpStores := (dpStores g)\<lparr>stMetrics := [], stLog := []\<rparr>, dpRequests := [],
     dpEngine := NewEngine (dpSymbol g) producer now booknow, dpLog := l', dpIn := [], dpSubmitting := []\<rparr>"

text \<open>No event that is journaled or in the log has an identifier of the new engine.\<close>

definition new_producer :: "string \<Rightarrow> string set \<Rightarrow> event list \<Rightarrow> bool" where
  "new_producer producer D evs \<longleftrightarrow> (\<forall>n>0. producer @ ''-'' @ itoa n \<notin> D \<union> eID ` set evs)"

inductive crash_step :: "'l log_port \<Rightarrow> 'w WalletRepository \<Rightarrow> ('w, 'j, 't, 'o) Settlement \<Rightarrow> ('w \<Rightarrow> ledger_view)
    \<Rightarrow> ('j \<Rightarrow> string set) \<Rightarrow> ('w, 'j, 't, 'o, 'l) deployment \<Rightarrow> ('w, 'j, 't, 'o, 'l) deployment \<Rightarrow> bool"
  for P W S v processed where
  cWork: "dep_step P W S v g g' \<Longrightarrow> crash_step P W S v processed g g'"
| cCrash: "lpCrash P (dpLog g) l' \<Longrightarrow> new_producer producer (processed (stJournal (dpStores g))) (lpPending P l') \<Longrightarrow>
     crash_step P W S v processed g (restarted producer now booknow l' g)"

inductive crash_run :: "'l log_port \<Rightarrow> 'w WalletRepository \<Rightarrow> ('w, 'j, 't, 'o) Settlement \<Rightarrow> ('w \<Rightarrow> ledger_view)
    \<Rightarrow> ('j \<Rightarrow> string set) \<Rightarrow> ('w, 'j, 't, 'o, 'l) deployment \<Rightarrow> ('w, 'j, 't, 'o, 'l) deployment \<Rightarrow> bool"
  for P W S v processed g0 where
  crash_start: "crash_run P W S v processed g0 g0"
| crash_next: "crash_run P W S v processed g0 g \<Longrightarrow> crash_step P W S v processed g g' \<Longrightarrow> crash_run P W S v processed g0 g'"

text \<open>What is inside the process, with the pending events that were not settled before.\<close>

definition unsettled :: "'l log_port \<Rightarrow> ('j \<Rightarrow> string set) \<Rightarrow> ('w, 'j, 't, 'o, 'l) deployment \<Rightarrow> system" where
  "unsettled P processed g = (inside P g)\<lparr>syLog := (NewLog 0)\<lparr>lg_ch :=
     filter (\<lambda>ev. eID ev \<notin> processed (stJournal (dpStores g))) (lpPending P (dpLog g))\<rparr>\<rparr>"

subsection \<open>Requests that stand for what is left locked\<close>

definition phantom :: "side \<Rightarrow> string \<Rightarrow> int \<Rightarrow> order" where
  "phantom sd u a = \<lparr>oID = (if sd = Buy then ''cop:'' else ''vib:'') @ u, oUserID = u, oSymbol = ''-'', oSide = sd,
     oPrice = 1, oQuantity = a, oStatus = StatusNone, oFilledQuantity = 0, oSequence = 0, oCreatedAt = 0, oUpdatedAt = 0\<rparr>"

definition phantoms_of :: "(string \<Rightarrow> int) \<Rightarrow> (string \<Rightarrow> int) \<Rightarrow> string \<Rightarrow> order list" where
  "phantoms_of a b u = (if 0 < a u then [phantom Buy u (a u)] else []) @ (if 0 < b u then [phantom Sell u (b u)] else [])"

definition phantoms :: "(string \<Rightarrow> int) \<Rightarrow> (string \<Rightarrow> int) \<Rightarrow> string list \<Rightarrow> order list" where
  "phantoms a b us = concat (map (phantoms_of a b) us)"

lemma phantom_need [simp]:
  "cop_of u (absO (phantom sd w x)) = (if w = u \<and> sd = Buy then x else 0)"
  "vib_of u (absO (phantom sd w x)) = (if w = u \<and> sd = Sell then x else 0)"
  by (simp_all add: phantom_def cop_of_def vib_of_def absO_def arem_def)

lemma phantom_valid: "u \<noteq> [] \<Longrightarrow> 0 < x \<Longrightarrow> x \<le> max_i64 \<Longrightarrow> sd = Buy \<or> sd = Sell \<Longrightarrow> valid_new (phantom sd u x)"
  by (auto simp: valid_new_def Validate_None_iff fits_def phantom_def)

lemma phantoms_sum:
  assumes "distinct us" and "\<And>u. 0 \<le> a u" "\<And>u. 0 \<le> b u"
  shows "(\<Sum>x\<leftarrow>phantoms a b us. cop_of u (absO x)) = (if u \<in> set us then a u else 0)"
    and "(\<Sum>x\<leftarrow>phantoms a b us. vib_of u (absO x)) = (if u \<in> set us then b u else 0)"
proof -
  have one: "(\<Sum>x\<leftarrow>phantoms_of a b w. cop_of u (absO x)) = (if w = u then a u else 0)"
    "(\<Sum>x\<leftarrow>phantoms_of a b w. vib_of u (absO x)) = (if w = u then b u else 0)" for w
    using assms(2,3) [of u] by (auto simp: phantoms_of_def)
  show "(\<Sum>x\<leftarrow>phantoms a b us. cop_of u (absO x)) = (if u \<in> set us then a u else 0)"
    "(\<Sum>x\<leftarrow>phantoms a b us. vib_of u (absO x)) = (if u \<in> set us then b u else 0)"
    using assms(1) by (induction us) (auto simp: phantoms_def one)
qed

lemma phantoms_ids: "x \<in> set (phantoms a b us) \<Longrightarrow> \<exists>u\<in>set us. oID x = ''cop:'' @ u \<or> oID x = ''vib:'' @ u"
  by (auto simp: phantoms_def phantoms_of_def phantom_def split: if_splits)

lemma phantoms_distinct: "distinct us \<Longrightarrow> distinct (map oID (phantoms a b us))"
proof (induction us)
  case Nil
  then show ?case by (simp add: phantoms_def)
next
  case (Cons u us)
  have "set (map oID (phantoms_of a b u)) \<subseteq> {''cop:'' @ u, ''vib:'' @ u}" "distinct (map oID (phantoms_of a b u))"
    by (auto simp: phantoms_of_def phantom_def)
  moreover have "oID x \<notin> {''cop:'' @ u, ''vib:'' @ u}" if "x \<in> set (phantoms a b us)" for x
    using phantoms_ids [OF that] Cons.prems by auto
  moreover have "phantoms a b (u # us) = phantoms_of a b u @ phantoms a b us" by (simp add: phantoms_def)
  ultimately show ?case using Cons by (simp add: disjoint_iff) blast
qed

lemma phantoms_valid:
  assumes "\<And>u. u \<in> set us \<Longrightarrow> u \<noteq> [] \<and> a u \<le> max_i64 \<and> b u \<le> max_i64"
  shows "\<forall>x\<in>set (phantoms a b us). valid_new x \<and> take 4 (oID x) \<noteq> ''ord-''"
proof
  fix x assume "x \<in> set (phantoms a b us)"
  then obtain u where u: "u \<in> set us" and x: "x \<in> set (phantoms_of a b u)" by (auto simp: phantoms_def)
  from assms [OF u] x phantom_valid [of u "a u" Buy] phantom_valid [of u "b u" Sell]
  have "valid_new x" by (auto simp: phantoms_of_def split: if_splits)
  moreover have "take 4 (oID x) \<noteq> ''ord-''" using x by (auto simp: phantoms_of_def phantom_def split: if_splits)
  ultimately show "valid_new x \<and> take 4 (oID x) \<noteq> ''ord-''" by blast
qed

lemma subseq_distinct: "subseq xs ys \<Longrightarrow> distinct ys \<Longrightarrow> distinct xs"
  by (induction xs ys rule: list_emb.induct) (auto dest: list_emb_set)

lemma sum_subseq_le:
  fixes f :: "'a \<Rightarrow> int"
  assumes "subseq xs ys" and "\<And>y. y \<in> set ys \<Longrightarrow> 0 \<le> f y"
  shows "(\<Sum>x\<leftarrow>xs. f x) \<le> (\<Sum>y\<leftarrow>ys. f y)"
  using assms by (induction xs ys rule: list_emb.induct) (auto simp: add_increasing intro!: sum_list_nonneg_map)

subsection \<open>A crash keeps the accounts\<close>

lemma holdings_None: "holdings v u = None \<longleftrightarrow> v u = None"
  by (simp add: holdings_def)

lemma effect_None: "H u = None \<Longrightarrow> effect ev H u = None"
  by (cases ev) (simp_all add: pay_def)

text \<open>Nobody without a name has a wallet.\<close>

definition named :: "system \<Rightarrow> bool" where
  "named st \<longleftrightarrow> ws_view (stWallets (syStores st)) [] = None"

lemma named_holdings: "holdings (ws_view (stWallets (syStores st'))) = holdings (ws_view (stWallets (syStores st))) \<Longrightarrow> named st \<Longrightarrow> named st'"
  by (metis holdings_None named_def)

lemma sys_step_named: "sys_step st st' \<Longrightarrow> sys_inv st \<Longrightarrow> named st \<Longrightarrow> named st'"
proof (induction rule: sys_step.induct)
  case (Accept st c bytes t cmd o' ts)
  then show ?case using named_holdings [OF inv_Accept(4) [OF Accept(4,1-3)]] by simp
next
  case (Reject st c bytes t cmd res ts)
  then show ?case using inv_Reject(2) [OF Reject(2,1)] by (simp add: named_def)
next
  case (GiveUp st xs o' ys t0 t2 res ts)
  then show ?case using named_holdings [OF inv_GiveUp(4) [OF GiveUp(3,1,2)]] by simp
next
  case (Settle st ev l' c t)
  then show ?case using inv_Settle(5) [OF Settle(2,1), of c t] by (metis named_def holdings_None effect_None)
next
  case (Redeliver ev st c t)
  then show ?case using inv_Redeliver(2) [OF Redeliver(2,1), of c t] by (simp add: named_def)
next
  case (Seed c u cop vib st w ws)
  then have "u \<noteq> []" by (auto simp: Wallets_Seed_def)
  with Seed mem_ledger.Seed_view(1) [OF Seed(1) refl] show ?case by (simp add: named_def)
qed (simp_all add: named_def)

text \<open>What is needed beyond \<open>pC\<close> and \<open>pV\<close>, as requests.\<close>

lemma phantoms_exist:
  assumes led: "ledger_ok vw nC nV" and nm: "vw [] = None" and pC: "\<And>u. 0 \<le> pC u \<and> pC u \<le> nC u"
    and pV: "\<And>u. 0 \<le> pV u \<and> pV u \<le> nV u"
  obtains ph where "\<forall>x\<in>set ph. valid_new x \<and> take 4 (oID x) \<noteq> ''ord-''" and "distinct (map oID ph)"
    and "\<And>u. nC u = (\<Sum>x\<leftarrow>ph. cop_of u (absO x)) + pC u" and "\<And>u. nV u = (\<Sum>x\<leftarrow>ph. vib_of u (absO x)) + pV u"
proof -
  let ?a = "\<lambda>u. nC u - pC u" and ?b = "\<lambda>u. nV u - pV u"
  have ab: "0 \<le> ?a u" "0 \<le> ?b u" for u using pC [of u] pV [of u] by simp_all
  have bal: "ledger_bal vw nC nV" using led by (simp add: ledger_ok_def)
  obtain us where us: "set us = dom vw" "distinct us" using finite_distinct_list [OF ledger_balD(1) [OF bal]] by auto
  have none: "nC u = pC u" "nV u = pV u" if "u \<notin> set us" for u
  proof -
    have "vw u = None" using that us(1) by (simp add: domIff)
    from ledger_balD(4) [OF bal this] show "nC u = pC u" "nV u = pV u" using pC [of u] pV [of u] by linarith+
  qed
  have "u \<noteq> [] \<and> ?a u \<le> max_i64 \<and> ?b u \<le> max_i64" if "u \<in> set us" for u
  proof -
    have "u \<in> dom vw" using that us(1) by simp
    then obtain w where w: "vw u = Some w" unfolding dom_def by blast
    have "u \<noteq> []" using w nm by auto
    moreover have "COPLocked w \<le> max_i64" "VibraniumLocked w \<le> max_i64"
      using ledger_wallet_ok [OF led w] by (auto simp: wallet_ok_def)
    ultimately show ?thesis using ledger_balD(5,6) [OF bal w] pC [of u] pV [of u] by auto
  qed
  from phantoms_valid [OF this] have "\<forall>x\<in>set (phantoms ?a ?b us). valid_new x \<and> take 4 (oID x) \<noteq> ''ord-''" .
  moreover have "nC u = (\<Sum>x\<leftarrow>phantoms ?a ?b us. cop_of u (absO x)) + pC u"
    "nV u = (\<Sum>x\<leftarrow>phantoms ?a ?b us. vib_of u (absO x)) + pV u" for u
    using phantoms_sum [OF us(2) ab, of u] none [of u] by auto
  ultimately show ?thesis using that phantoms_distinct [OF us(2)] by blast
qed

text \<open>A part of the pending events needs a part of what is needed, and is in order when what was pending was.\<close>

lemma pending_part:
  assumes inv: "sys_inv st" and ch: "subseq ch (lg_ch (syLog st))"
  shows "0 \<le> (\<Sum>ev\<leftarrow>ch. pendCOP u (abs_event ev)) \<and> (\<Sum>ev\<leftarrow>ch. pendCOP u (abs_event ev)) \<le> needCOP st u"
    and "0 \<le> (\<Sum>ev\<leftarrow>ch. pendVIB u (abs_event ev)) \<and> (\<Sum>ev\<leftarrow>ch. pendVIB u (abs_event ev)) \<le> needVIB st u"
proof -
  have pos: "0 \<le> pendCOP u (abs_event ev)" "0 \<le> pendVIB u (abs_event ev)" if "ev \<in> set (lg_ch (syLog st))" for ev
    using that inv pend_nonneg by (auto simp: sys_inv_def sys_events_def)
  have "set ch \<subseteq> set (lg_ch (syLog st))" using ch by (auto dest: list_emb_set)
  with pos show "0 \<le> (\<Sum>ev\<leftarrow>ch. pendCOP u (abs_event ev)) \<and> (\<Sum>ev\<leftarrow>ch. pendCOP u (abs_event ev)) \<le> needCOP st u"
    "0 \<le> (\<Sum>ev\<leftarrow>ch. pendVIB u (abs_event ev)) \<and> (\<Sum>ev\<leftarrow>ch. pendVIB u (abs_event ev)) \<le> needVIB st u"
    using parts_nonneg(1-6) [OF inv, of u] sum_subseq_le [OF ch, of "\<lambda>ev. pendCOP u (abs_event ev)"]
      sum_subseq_le [OF ch, of "\<lambda>ev. pendVIB u (abs_event ev)"]
    by (auto simp: needCOP_def needVIB_def intro!: sum_list_nonneg_map)
qed

lemma crash_events:
  assumes se: "sys_events st" and ch: "subseq (lg_ch (syLog st')) (lg_ch (syLog st))" and open_: "\<not> lg_closed (syLog st')"
    and D: "set (jr_seen (stJournal (syStores st'))) = D" "eID ` set (lg_ch (syLog st')) \<inter> D = {}"
    and new: "(eID ` set (lg_ch (syLog st')) \<union> D) \<inter> future_ids st' = {}" and seq: "eSeq (syEngine st') = 0"
  shows "sys_events st'"
proof -
  have "set (lg_ch (syLog st')) \<subseteq> set (lg_ch (syLog st))" using ch by (auto dest: list_emb_set)
  moreover have "distinct (map eID (lg_ch (syLog st')))"
    by (rule subseq_distinct [OF subseq_map [OF ch]]) (use se in \<open>simp add: sys_events_def\<close>)
  ultimately show ?thesis using se open_ D new seq by (auto simp: sys_events_def)
qed

locale crashing_deployment = deployment_ports W S v processed P ok + crashes: restarting_pipeline P ok
  for W :: "'w WalletRepository" and S :: "('w, 'j, 't, 'o) Settlement" and v :: "'w \<Rightarrow> ledger_view"
    and processed :: "'j \<Rightarrow> string set" and P :: "'l log_port" and ok :: "'l \<Rightarrow> bool"
begin

text \<open>The channel of the twin holds the pending events that are not settled.\<close>

lemma twin_pending:
  assumes tw: "twin P ok v processed K ph st g" and inv: "sys_inv st"
  shows "lg_ch (syLog st) = filter (\<lambda>ev. eID ev \<notin> processed (stJournal (dpStores g))) (lpPending P (dpLog g))"
proof -
  let ?D = "processed (stJournal (dpStores g))"
  have c: "K \<subseteq> ?D" "lg_ch (syLog st) = filter (\<lambda>ev. eID ev \<notin> K) (lpPending P (dpLog g))"
    using tw by (simp_all add: twin_def carries_def)
  have "eID ` set (lg_ch (syLog st)) \<inter> ?D = {}" using inv tw by (auto simp: sys_inv_def sys_events_def twin_def)
  then have "filter (\<lambda>ev. eID ev \<notin> ?D) (lg_ch (syLog st)) = lg_ch (syLog st)" by (auto simp: filter_id_conv)
  moreover have "filter (\<lambda>ev. eID ev \<notin> ?D) (lg_ch (syLog st)) = filter (\<lambda>ev. eID ev \<notin> ?D) (lpPending P (dpLog g))"
    unfolding c(2) filter_filter using c(1) by (intro filter_cong) auto
  ultimately show ?thesis by (rule trans [OF sym])
qed

text \<open>What the log delivers after the crash and was not settled before is part of what was pending.\<close>

lemma crash_pending:
  assumes tw: "twin P ok v processed K ph st g" and inv: "sys_inv st" and cr: "lpCrash P (dpLog g) l'"
  defines "D \<equiv> processed (stJournal (dpStores g))"
  shows "subseq (filter (\<lambda>ev. eID ev \<notin> D) (lpPending P l')) (lg_ch (syLog st))"
    and "carries P ok D D ((NewLog 0)\<lparr>lg_ch := filter (\<lambda>ev. eID ev \<notin> D) (lpPending P l')\<rparr>) l'"
proof -
  let ?l = "dpLog g" and ?f = "filter (\<lambda>ev. eID ev \<notin> D)"
  have c: "ok ?l" "eID ` set (lpSeen P ?l) \<subseteq> D" using tw by (simp_all add: twin_def carries_def D_def)
  note rp = crashes.crash_replays [OF c(1) cr] and ch = twin_pending [OF tw inv, folded D_def]
  have "?f (lpPending P l') = ?f (filter (\<lambda>ev. ev \<notin> set (lpSeen P ?l)) (lpPending P l'))"
    unfolding filter_filter using c(2) by (intro filter_cong) auto
  moreover have "subseq (?f (filter (\<lambda>ev. ev \<notin> set (lpSeen P ?l)) (lpPending P l'))) (?f (lpPending P ?l))"
    using rp by (intro subseq_filter) blast
  ultimately show "subseq (?f (lpPending P l')) (lg_ch (syLog st))" unfolding ch by (simp only:)
  have "eID ` set (lpSeen P l') \<subseteq> D" using rp c(2) by blast
  with rp show "carries P ok D D ((NewLog 0)\<lparr>lg_ch := ?f (lpPending P l')\<rparr>) l'" by (simp add: carries_def NewLog_def)
qed

lemma crash_twin:
  assumes tw: "twin P ok v processed K ph st g" and inv: "sys_inv st" and nm: "named st" and cr: "lpCrash P (dpLog g) l'"
    and new: "new_producer producer (processed (stJournal (dpStores g))) (lpPending P l')"
  shows "\<exists>K' ph' st'. twin P ok v processed K' ph' st' (restarted producer now booknow l' g) \<and> sys_inv st' \<and> named st'
    \<and> supply_of st' = supply_of st"
proof -
  let ?D = "processed (stJournal (dpStores g))" and ?v = "ws_view (stWallets (syStores st))"
  define ch where "ch = filter (\<lambda>ev. eID ev \<notin> ?D) (lpPending P l')"
  note cp = crash_pending [OF tw inv cr, folded ch_def]
  have se: "sys_events st" and led: "ledger_ok ?v (needCOP st) (needVIB st)" using inv by (simp_all add: sys_inv_def)
  obtain ph' where pv: "\<forall>x\<in>set ph'. valid_new x \<and> take 4 (oID x) \<noteq> ''ord-''" "distinct (map oID ph')"
    and need: "needCOP st u = (\<Sum>x\<leftarrow>ph'. cop_of u (absO x)) + (\<Sum>ev\<leftarrow>ch. pendCOP u (abs_event ev))"
      "needVIB st u = (\<Sum>x\<leftarrow>ph'. vib_of u (absO x)) + (\<Sum>ev\<leftarrow>ch. pendVIB u (abs_event ev))" for u
    by (rule phantoms_exist [OF led _ pending_part(1) [OF inv cp(1)] pending_part(2) [OF inv cp(1)]])
      (use nm in \<open>auto simp: named_def\<close>)
  define st' where "st' = \<lparr>sySymbol = dpSymbol g, syStores = syStores st, syRequests = [],
    syEngine = NewEngine (dpSymbol g) producer now booknow,
    syLog = (NewLog 0)\<lparr>lg_ch := ch\<rparr>, syIn = [], sySubmitting = ph', syUsed = dpUsed g \<union> oID ` set ph'\<rparr>"
  have B: "aids (book_of st') = {}" "aorders (book_of st') = []"
    by (simp_all add: book_of_def st'_def NewEngine_def aids_def aorders_def absB_def NewOrderBook_def)
  have "needCOP st' u = needCOP st u" "needVIB st' u = needVIB st u" for u
    unfolding need unfolding needCOP_def needVIB_def restingCOP_def restingVIB_def B by (simp_all add: st'_def)
  then have "needCOP st' = needCOP st" "needVIB st' = needVIB st" by (simp_all add: fun_eq_iff)
  then have "ledger_ok (ws_view (stWallets (syStores st'))) (needCOP st') (needVIB st')" using led by (simp add: st'_def)
  moreover have "sys_orders st'" using pv unfolding sys_orders_def Let_def B by (auto simp: st'_def)
  moreover have "sys_events st'"
  proof (rule crash_events [OF se])
    show "subseq (lg_ch (syLog st')) (lg_ch (syLog st))" "\<not> lg_closed (syLog st')" "eSeq (syEngine st') = 0"
      using cp(1) by (simp_all add: st'_def NewLog_def NewEngine_def)
    show "set (jr_seen (stJournal (syStores st'))) = ?D" using tw by (simp add: st'_def twin_def)
    show "eID ` set (lg_ch (syLog st')) \<inter> ?D = {}" by (auto simp: st'_def ch_def)
    show "(eID ` set (lg_ch (syLog st')) \<union> ?D) \<inter> future_ids st' = {}"
      using new by (auto simp: future_ids_def st'_def NewEngine_def new_producer_def ch_def)
  qed
  moreover have "book_wf (eBook (syEngine st'))" by (simp add: st'_def NewEngine_def book_wf_New)
  ultimately have "sys_inv st'" by (simp add: sys_inv_def)
  moreover have "twin P ok v processed ?D ph' st' (restarted producer now booknow l' g)"
    using tw cp(2) pv by (simp add: twin_def st'_def restarted_def)
  moreover have "named st'" "supply_of st' = supply_of st" using nm by (simp_all add: st'_def named_def supply_of_def)
  ultimately show ?thesis by blast
qed

lemma crash_reach:
  assumes "crash_run P W S v processed (new_deployment symbol l0 producer now booknow s0) g"
    and start: "v (stWallets s0) = Map.empty" "processed (stJournal s0) = {}" "ok l0" "lpPending P l0 = []" "lpSeen P l0 = []"
  shows "\<exists>K ph st. twin P ok v processed K ph st g \<and> sys_inv st \<and> named st"
  using assms(1)
proof (induction rule: crash_run.induct)
  case crash_start
  obtain st where st: "reachable (init_system symbol 0 producer now booknow) st"
    "twin P ok v processed {} [] st (new_deployment symbol l0 producer now booknow s0)"
    using runs_like_memory [OF dep_start start, where buffer = 0] by blast
  have "named st" using st(2) start(1) by (simp add: named_def twin_def new_deployment_def)
  with st reachable_inv show ?case by blast
next
  case (crash_next g g')
  then obtain K ph st where tw: "twin P ok v processed K ph st g" "sys_inv st" "named st" by blast
  from crash_next.hyps(2) show ?case
  proof cases
    case cWork
    from simulation [OF this tw(1,2)] tw(2,3) sys_step_inv sys_step_named show ?thesis by blast
  next
    case (cCrash l' producer' now' booknow')
    then show ?thesis using crash_twin [OF tw, of l' producer' now' booknow'] by blast
  qed
qed

lemma crash_locked:
  assumes run: "crash_run P W S v processed (new_deployment symbol l0 producer now booknow s0) g"
    and start: "v (stWallets s0) = Map.empty" "processed (stJournal s0) = {}" "ok l0" "lpPending P l0 = []" "lpSeen P l0 = []"
    and w: "v (stWallets (dpStores g)) u = Some w"
  shows "wallet_nonneg w \<and> needCOP (unsettled P processed g) u \<le> COPLocked w
    \<and> needVIB (unsettled P processed g) u \<le> VibraniumLocked w"
proof -
  obtain K ph st where tw: "twin P ok v processed K ph st g" "sys_inv st" using crash_reach [OF run start] by blast
  have l: "ledger_bal (v (stWallets (dpStores g))) (needCOP st) (needVIB st)"
    using tw by (simp add: sys_inv_def ledger_ok_def twin_def)
  have "\<forall>x\<in>set ph. valid_new x" using tw by (auto simp: sys_inv_def sys_orders_def Let_def twin_def)
  then have "0 \<le> (\<Sum>x\<leftarrow>ph. cop_of u (absO x))" "0 \<le> (\<Sum>x\<leftarrow>ph. vib_of u (absO x))"
    using valid_new_nonneg by (auto intro!: sum_list_nonneg_map)
  moreover have "needCOP st u = (\<Sum>x\<leftarrow>ph. cop_of u (absO x)) + needCOP (unsettled P processed g) u"
    "needVIB st u = (\<Sum>x\<leftarrow>ph. vib_of u (absO x)) + needVIB (unsettled P processed g) u"
    using tw(1) twin_pending [OF tw] by (simp_all add: twin_def unsettled_def inside_def needCOP_def needVIB_def book_of_def)
  ultimately show ?thesis using ledger_balD(5,6) [OF l w] ledger_nonneg [OF l w] by simp
qed

lemma crash_supply:
  assumes run: "crash_run P W S v processed (new_deployment symbol l0 producer now booknow s0) g"
    and start: "v (stWallets s0) = Map.empty" "processed (stJournal s0) = {}" "ok l0" "lpPending P l0 = []" "lpSeen P l0 = []"
    and step: "crash_step P W S v processed g g'"
  shows "supplyCOP (v (stWallets (dpStores g'))) = supplyCOP (v (stWallets (dpStores g)))
    \<and> supplyVIB (v (stWallets (dpStores g'))) = supplyVIB (v (stWallets (dpStores g))) \<or> dep_seeded W g g'"
proof -
  obtain K ph st where tw: "twin P ok v processed K ph st g" "sys_inv st" using crash_reach [OF run start] by blast
  from step show ?thesis
  proof cases
    case cWork
    from simulation [OF this tw] tw(1) show ?thesis by (auto simp: twin_def supply_of_def)
  next
    case cCrash
    then show ?thesis by (simp add: restarted_def)
  qed
qed

end

subsection \<open>The durable service through crashes\<close>

interpretation durable_crashing: crashing_deployment "wallet_cache env ttl (pg_wallets (answered orc))"
  "NewSettlement (pg_journal (\<lambda>_. PgOk)) (wallet_cache env ttl (pg_wallets (\<lambda>_. PgOk))) trs ods"
  "\<lambda>s. pg_view (wcInner s)" "\<lambda>db. set (pgEvents db)" "kafka_pipe codec w" "kafka_ready codec" for env ttl orc trs ods codec w
  by (intro crashing_deployment.intro durable_deployment.deployment_ports_axioms kafka_pipe.restarting_pipeline_axioms)

definition durable_crash_step :: "redis_env \<Rightarrow> int \<Rightarrow> pg_oracle \<Rightarrow> 't TradeRepository \<Rightarrow> 'o OrderRepository \<Rightarrow> 'p codec
    \<Rightarrow> close_world \<Rightarrow> ('t, 'o, 'p) durable \<Rightarrow> ('t, 'o, 'p) durable \<Rightarrow> bool" where
  "durable_crash_step env ttl orc trs ods codec w = crash_step (kafka_pipe codec w) (wallet_cache env ttl (pg_wallets (answered orc)))
     (NewSettlement (pg_journal (\<lambda>_. PgOk)) (wallet_cache env ttl (pg_wallets (\<lambda>_. PgOk))) trs ods)
     (\<lambda>s. pg_view (wcInner s)) (\<lambda>db. set (pgEvents db))"

definition durable_crash_run :: "redis_env \<Rightarrow> int \<Rightarrow> pg_oracle \<Rightarrow> 't TradeRepository \<Rightarrow> 'o OrderRepository \<Rightarrow> 'p codec
    \<Rightarrow> close_world \<Rightarrow> ('t, 'o, 'p) durable \<Rightarrow> ('t, 'o, 'p) durable \<Rightarrow> bool" where
  "durable_crash_run env ttl orc trs ods codec w = crash_run (kafka_pipe codec w) (wallet_cache env ttl (pg_wallets (answered orc)))
     (NewSettlement (pg_journal (\<lambda>_. PgOk)) (wallet_cache env ttl (pg_wallets (\<lambda>_. PgOk))) trs ods)
     (\<lambda>s. pg_view (wcInner s)) (\<lambda>db. set (pgEvents db))"

definition durable_unsettled :: "'p codec \<Rightarrow> close_world \<Rightarrow> ('t, 'o, 'p) durable \<Rightarrow> system" where
  "durable_unsettled codec w = unsettled (kafka_pipe codec w) (\<lambda>db. set (pgEvents db))"

lemma dep_run_crash_run: "dep_run P W S v g0 g \<Longrightarrow> crash_run P W S v processed g0 g"
  by (induction rule: dep_run.induct) (auto intro: crash_run.intros cWork)

text \<open>The run of \<open>durable_session\<close>, and then a crash: the order and its event are lost, 20 COP stay locked.\<close>

definition durable5 :: "(TradeStore, OrderStore, event) durable" where
  "durable5 = restarted ''eng2'' int int (the (kdo ex_codec KCrash (dpLog durable4))) durable4"

lemma durable_crash_session:
  "durable_crash_run redis_down 0 (\<lambda>_. PgOk) mem_trades mem_orders ex_codec quiet_close durable0 durable5"
proof -
  let ?l = "the (kdo ex_codec KCrash (dpLog durable4))"
  have "pgEvents (stJournal (dpStores durable4)) = []" by code_simp
  moreover have "kafka_pending ex_codec ?l = []" using durable_values(7-9) by (simp add: kafka_pending_def)
  ultimately have "new_producer ''eng2'' (set (pgEvents (stJournal (dpStores durable4)))) (lpPending (kafka_pipe ex_codec quiet_close) ?l)"
    by (simp add: new_producer_def)
  moreover have "lpCrash (kafka_pipe ex_codec quiet_close) (dpLog durable4) ?l" by (simp add: kafka_pipe_def)
  ultimately show ?thesis
    unfolding durable_crash_run_def durable5_def
    by (intro crash_next [OF dep_run_crash_run [OF durable_session [unfolded durable_run_def]]] cCrash)
qed

lemma durable5_view: "durable_view durable5 = durable_view durable4"
  by (simp add: durable5_def restarted_def durable_view_def)

end
