(* ===== verification/Projection.thy ===== *)
theory Projection
  imports Safety
begin

section \<open>The order projection follows the book\<close>

text \<open>
  \<open>GET /orders/{id}\<close> reads the order store, which only settlement writes
  (\<open>settlement.go\<close>, \<open>applyOrderUpdate\<close>). Here is why what it shows becomes right: the rows of
  the store after every event that is still in the log are, for each resting order, the order
  as it rests in the book.
\<close>

type_synonym row_view = "string \<rightharpoonup> aorder"

primrec note_event :: "aevent \<Rightarrow> row_view \<Rightarrow> row_view" where
  "note_event (ATrade b s p q) R = R"
| "note_event (AUpdate x rc rv) R = R(aID x \<mapsto> x)"

definition stored_rows :: "OrderStore \<Rightarrow> row_view" where
  "stored_rows s = (\<lambda>i. map_option absO (map_of (os_orders s) i))"

definition coming_rows :: "system \<Rightarrow> row_view" where
  "coming_rows st = fold note_event (map abs_event (lg_ch (syLog st))) (stored_rows (stOrders (syStores st)))"

definition follows :: "row_view \<Rightarrow> abook \<Rightarrow> bool" where
  "follows R B \<longleftrightarrow> (\<forall>x\<in>set (aorders B). R (aID x) = Some x)"

subsection \<open>One command\<close>

text \<open>The makers that matching leaves on the book: untouched, or the last fill.\<close>

lemma amatch_left:
  assumes "amatch t ms = (t', fs, ms')" and "distinct (map aID ms)"
  shows "fst ` set fs \<subseteq> set ms" and "distinct (map (\<lambda>f. aID (fst f)) fs)"
    and "x \<in> set ms' \<Longrightarrow> x \<in> set ms \<and> aID x \<notin> aID ` fst ` set fs \<or> (\<exists>(m, q)\<in>set fs. x = afill q m)"
proof -
  have "fst ` set fs \<subseteq> set ms \<and> distinct (map (\<lambda>f. aID (fst f)) fs)
    \<and> (x \<in> set ms' \<longrightarrow> x \<in> set ms \<and> aID x \<notin> aID ` fst ` set fs \<or> (\<exists>(m, q)\<in>set fs. x = afill q m))"
    using assms
  proof (induction ms arbitrary: t t' fs ms')
    case (Cons m ms)
    let ?q = "min (arem t) (arem m)"
    consider (stop) "\<not> (arem t > 0 \<and> acrosses t (aPrice m))"
      | (full) "arem t > 0 \<and> acrosses t (aPrice m)" "?q = arem m"
      | (part) "arem t > 0 \<and> acrosses t (aPrice m)" "?q \<noteq> arem m"
      by blast
    then show ?case
    proof cases
      case stop
      with Cons.prems(1) have "fs = []" "ms' = m # ms" by (simp_all add: amatch_stop)
      then show ?thesis by simp
    next
      case full
      obtain t1 fs1 ms1 where r: "amatch (afill (arem m) t) ms = (t1, fs1, ms1)" by (rule prod_cases3)
      with Cons.prems(1) full have fs: "fs = (m, arem m) # fs1" "ms' = ms1" by (simp_all add: amatch.simps(2) Let_def)
      have ih: "fst ` set fs1 \<subseteq> set ms" "distinct (map (\<lambda>f. aID (fst f)) fs1)"
        "x \<in> set ms1 \<longrightarrow> x \<in> set ms \<and> aID x \<notin> aID ` fst ` set fs1 \<or> (\<exists>(m, q)\<in>set fs1. x = afill q m)"
        using Cons.IH [OF r] Cons.prems(2) by simp_all
      have m: "aID m \<notin> aID ` set ms" using Cons.prems(2) by simp
      with ih(1) have "aID m \<notin> aID ` fst ` set fs1" by blast
      then have "distinct (map (\<lambda>f. aID (fst f)) fs)" using ih(2) by (simp add: fs image_image)
      moreover have "x \<in> set ms \<Longrightarrow> aID x \<noteq> aID m" using m by (metis imageI)
      ultimately show ?thesis using ih(1,3) by (auto simp: fs)
    next
      case part
      then have "fs = [(m, ?q)]" "ms' = afill ?q m # ms" using Cons.prems(1) by (auto simp: amatch.simps(2) Let_def split: if_splits)
      moreover have "x \<in> set ms \<Longrightarrow> aID x \<noteq> aID m" using Cons.prems(2) by (metis distinct.simps(2) image_eqI list.set_map list.simps(9))
      ultimately show ?thesis by auto
    qed
  qed simp
  then show "fst ` set fs \<subseteq> set ms" and "distinct (map (\<lambda>f. aID (fst f)) fs)"
    and "x \<in> set ms' \<Longrightarrow> x \<in> set ms \<and> aID x \<notin> aID ` fst ` set fs \<or> (\<exists>(m, q)\<in>set fs. x = afill q m)"
    by blast+
qed

lemma afill_events_Cons:
  "afill_events t ((m, q) # fs) = ATrade (abuyer t m) (aseller t m) (aPrice m) q # AUpdate (afill q m) 0 0 # afill_events t fs"
  by (simp add: afill_events_def)

lemma note_fills_other: "i \<notin> aID ` fst ` set fs \<Longrightarrow> fold note_event (afill_events t fs) R i = R i"
proof (induction fs arbitrary: R)
  case Nil
  show ?case by (simp add: afill_events_def)
next
  case (Cons f fs)
  then show ?case by (cases f) (simp add: afill_events_Cons)
qed

lemma note_fills:
  "distinct (map (\<lambda>f. aID (fst f)) fs) \<Longrightarrow> (m, q) \<in> set fs \<Longrightarrow> fold note_event (afill_events t fs) R (aID m) = Some (afill q m)"
proof (induction fs arbitrary: R)
  case (Cons f fs)
  obtain m1 q1 where f: "f = (m1, q1)" by (cases f)
  have nin: "aID m1 \<notin> aID ` fst ` set fs" using Cons.prems(1) by (simp add: f image_image)
  show ?case
  proof (cases "(m, q) = f")
    case True
    with nin show ?thesis by (simp add: f afill_events_Cons note_fills_other)
  next
    case False
    with Cons.prems(2) have "(m, q) \<in> set fs" by simp
    moreover have "distinct (map (\<lambda>f. aID (fst f)) fs)" using Cons.prems(1) by simp
    ultimately show ?thesis using Cons.IH by (simp add: f afill_events_Cons)
  qed
qed simp

text \<open>The book after a placement: other orders as they were, makers with their fill, the taker.\<close>

lemma aPlace_left:
  assumes "aPlace t B = (t', fs, rel, B')" and "distinct (map aID (aorders B))"
  shows "distinct (map (\<lambda>f. aID (fst f)) fs)" and "fst ` set fs \<subseteq> set (aorders B)"
    and "x \<in> set (aorders B') \<Longrightarrow> x = t' \<or> x \<in> set (aorders B) \<and> aID x \<notin> aID ` fst ` set fs \<or> (\<exists>(m, q)\<in>set fs. x = afill q m)"
proof -
  let ?opp = "aopposite t B"
  obtain ms' where m: "amatch t ?opp = (t', fs, ms')" and B': "B' = (if arem t' = 0 then aset_opposite t ms' B else arest t' (aset_opposite t ms' B))"
    using assms(1) by (auto simp: aPlace_def Let_def split: prod.splits)
  have d: "distinct (map aID ?opp)" "set ?opp \<subseteq> set (aorders B)" using assms(2) by (auto simp: aopposite_def aorders_def)
  note left = amatch_left [OF m d(1)]
  show "distinct (map (\<lambda>f. aID (fst f)) fs)" by (rule left(2))
  show "fst ` set fs \<subseteq> set (aorders B)" using left(1) d(2) by blast
  let ?rest = "if aSide t = Sell then aAsks B else aBids B"
  have other: "x \<in> set ?rest \<Longrightarrow> x \<in> set (aorders B) \<and> aID x \<notin> aID ` fst ` set fs" for x
  proof -
    assume x: "x \<in> set ?rest"
    have "aID ` set ?rest \<inter> aID ` set ?opp = {}" using assms(2) by (auto simp: aopposite_def aorders_def)
    then have "aID x \<notin> aID ` fst ` set fs" using left(1) x by blast
    with x show ?thesis by (auto simp: aorders_def split: if_splits)
  qed
  have "set (aorders B') \<subseteq> insert t' (set ms' \<union> set ?rest)"
    by (auto simp: B' aorders_def aset_opposite_def arest_def set_ainsert)
  with left(3) other d(2) show "x \<in> set (aorders B') \<Longrightarrow> x = t' \<or> x \<in> set (aorders B) \<and> aID x \<notin> aID ` fst ` set fs \<or> (\<exists>(m, q)\<in>set fs. x = afill q m)"
    by blast
qed

lemma aPlace_taker_id: "aPlace t B = (t', fs, rel, B') \<Longrightarrow> aID t' = aID t"
  by (erule aPlaceE) (auto dest: amatch_taker)

lemma place_follows:
  assumes pl: "aPlace t B = (t', fs, rel, B')" and d: "distinct (map aID (aorders B))" and new: "aID t' \<notin> aids B" and R: "follows R B"
  shows "follows (fold note_event (afill_events t fs @ [AUpdate t' rel 0]) R) B'"
proof -
  note left = aPlace_left [OF pl d]
  have "fold note_event (afill_events t fs @ [AUpdate t' rel 0]) R (aID x) = Some x" if x: "x \<in> set (aorders B')" for x
  proof (cases "x = t'")
    case False
    with left(3) [OF x] consider (old) "x \<in> set (aorders B)" "aID x \<notin> aID ` fst ` set fs" | (maker) m q where "(m, q) \<in> set fs" "x = afill q m"
      by blast
    then show ?thesis
    proof cases
      case old
      then have "aID x \<noteq> aID t'" using new unfolding aids_def by (metis imageI list.set_map)
      with old R show ?thesis by (simp add: note_fills_other follows_def)
    next
      case maker
      then have "aID x \<in> aids B" using left(2) by (force simp: aids_def)
      then have "aID x \<noteq> aID t'" using new by auto
      with maker note_fills [OF left(1) maker(1)] show ?thesis by simp
    qed
  qed simp
  then show ?thesis by (simp add: follows_def)
qed

lemma astep_follows:
  assumes st: "astep cmd B = (evs, B')" and d: "distinct (map aID (aorders B))" and R: "follows R B"
    and new: "\<And>o'. cmd = cmdPlace o' \<Longrightarrow> oID o' \<notin> aids B"
  shows "follows (fold note_event evs R) B'"
proof (cases cmd)
  case (cmdPlace o')
  obtain t' fs rel where pl: "aPlace (absO o') B = (t', fs, rel, B')" and evs: "evs = afill_events (absO o') fs @ [AUpdate t' rel 0]"
    using st cmdPlace by (auto simp: Let_def split: prod.splits)
  have "aID t' = oID o'" using aPlace_taker_id [OF pl] by simp
  with place_follows [OF pl d _ R] new [OF cmdPlace] show ?thesis by (simp add: evs)
next
  case (cmdCancel i)
  show ?thesis
  proof (cases "aCancel i B")
    case None
    with st R cmdCancel show ?thesis by simp
  next
    case (Some p)
    then obtain x where x: "aCancel i B = Some (x, B')" and evs: "evs = [AUpdate x (cop_of (aUser x) x) (vib_of (aUser x) x)]"
      using st cmdCancel by (cases p) auto
    have B': "set (aorders B') = {y \<in> set (aorders B). aID y \<noteq> i}" and "aID x = i"
      using x find_Some_iff [of "\<lambda>x. aID x = i" "aorders B" x] by (auto simp: aCancel_def aorders_def)
    then show ?thesis using R by (simp add: follows_def evs)
  qed
next
  case (cmdSnapshot d)
  with st R show ?thesis by simp
qed

subsection \<open>The running system\<close>

lemma apply_rows:
  assumes "ev_typed ev"
  shows "stored_rows (stOrders (apply_event mem_settlement c ev s)) = note_event (abs_event ev) (stored_rows (stOrders s))"
proof (cases "eTrade ev")
  case None
  with assms obtain x where x: "eType ev = EventOrderUpdated" "eOrder ev = Some x" by (auto simp: ev_typed_def)
  have "stOrders (apply_event mem_settlement c ev s) = snd (OrderStore_Upsert c x (stOrders s))"
    by (simp add: apply_event_def applyOrderUpdate_def Let_def x)
  then show ?thesis by (simp add: abs_event_def None x stored_rows_def OrderStore_Upsert_def map_of_update fun_eq_iff)
next
  case (Some t)
  with assms have "eType ev = EventTrade" by (auto simp: ev_typed_def)
  then show ?thesis by (simp add: apply_event_def abs_event_def Some)
qed

lemma handle_rows:
  "eID ev \<notin> set (jr_seen (stJournal s)) \<Longrightarrow> stOrders (handle mem_settlement c t ev s) = stOrders (apply_event mem_settlement c ev s)"
  "eID ev \<in> set (jr_seen (stJournal s)) \<Longrightarrow> stOrders (handle mem_settlement c t ev s) = stOrders s"
proof -
  have j: "stOrders (x\<lparr>stJournal := j\<rparr>) = stOrders x" for x :: "(WalletStore, Journal, TradeStore, OrderStore) stores" and j by simp
  show "eID ev \<notin> set (jr_seen (stJournal s)) \<Longrightarrow> stOrders (handle mem_settlement c t ev s) = stOrders (apply_event mem_settlement c ev s)"
    "eID ev \<in> set (jr_seen (stJournal s)) \<Longrightarrow> stOrders (handle mem_settlement c t ev s) = stOrders s"
    by (simp_all add: handle_def Let_def Journal_MarkProcessed_def apply_event_with_journal j)
qed

definition projecting :: "system \<Rightarrow> bool" where
  "projecting st \<longleftrightarrow> follows (coming_rows st) (book_of st)"

lemma projecting_cong:
  assumes "projecting st" and "syEngine st' = syEngine st" and "syLog st' = syLog st" and "stOrders (syStores st') = stOrders (syStores st)"
  shows "projecting st'"
  using assms by (simp add: projecting_def coming_rows_def book_of_def)

lemma projecting_EngineStep:
  assumes inv: "sys_inv st" and pr: "projecting st" and cmds: "syIn st = cmd # cmds"
    and hc: "handle_command mem_log cmd (syEngine st, syLog st) = Some (reply, e', l')"
  shows "projecting (st\<lparr>syIn := cmds, syEngine := e', syLog := l'\<rparr>)"
proof -
  obtain evs b' where ch: "lg_ch l' = lg_ch (syLog st) @ stamp_events (syEngine st) evs"
    and as: "astep cmd (book_of st) = (map abs_event evs, absB b')" and e': "e' = (stamped_n (length evs) (syEngine st))\<lparr>eBook := b'\<rparr>"
    by (rule engine_step_spec [OF inv cmds hc])
  have d: "distinct (map aID (aorders (book_of st)))"
    using inv book_wf_abs [of "eBook (syEngine st)"] by (simp add: sys_inv_def book_of_def abook_wf_def)
  have new: "oID o' \<notin> aids (book_of st)" if "cmd = cmdPlace o'" for o'
    using inv that by (auto simp: sys_inv_def sys_orders_def Let_def cmds placed_def)
  from astep_follows [OF as d _ new] pr show ?thesis
    by (simp add: projecting_def coming_rows_def book_of_def ch e')
qed

lemma projecting_Settle:
  fixes c :: ctx and t :: time
  assumes inv: "sys_inv st" and pr: "projecting st" and recv: "Log_recv (syLog st) = Some (Some ev, l')"
  shows "projecting (st\<lparr>syLog := l', syStores := handle mem_settlement c t ev (syStores st)\<rparr>)"
proof -
  note ch = Log_recv_Some [OF recv]
  have "ev_typed ev" "eID ev \<notin> set (jr_seen (stJournal (syStores st)))" using inv ch by (auto simp: sys_inv_def sys_events_def)
  with pr ch show ?thesis by (simp add: projecting_def coming_rows_def book_of_def handle_rows(1) apply_rows)
qed

lemma sys_step_projecting: "sys_step st st' \<Longrightarrow> sys_inv st \<Longrightarrow> projecting st \<Longrightarrow> projecting st'"
proof (induction rule: sys_step.induct)
  case (Accept st c bytes t cmd o' ts)
  then show ?case by (intro projecting_cong [OF Accept.prems(2)]) (simp_all add: after_request_def)
next
  case (Reject st c bytes t cmd res ts)
  then show ?case by (intro projecting_cong [OF Reject.prems(2)]) (simp_all add: after_request_def)
next
  case (GiveUp st xs o' ys t0 t2 res ts)
  then show ?case by (intro projecting_cong [OF GiveUp.prems(2)]) (simp_all add: after_request_def)
next
  case (EngineStep st cmd cmds reply e' l')
  then show ?case by (intro projecting_EngineStep)
next
  case (Settle st ev l' c t)
  then show ?case by (intro projecting_Settle)
next
  case (Redeliver ev st c t)
  then show ?case by (intro projecting_cong [OF Redeliver.prems(2)]) (simp_all add: handle_rows(2))
qed (erule projecting_cong; simp)+

lemma reachable_projecting:
  "reachable (init_system symbol buffer producer now booknow) st \<Longrightarrow> projecting st"
proof (induction rule: reachable.induct)
  case Start
  have "aorders (book_of (init_system symbol buffer producer now booknow)) = []"
    by (simp add: book_of_def init_system_def NewEngine_def NewOrderBook_def absB_def aorders_def)
  then show ?case by (simp add: projecting_def follows_def)
next
  case (Step st st')
  then show ?case using sys_step_projecting [OF Step.hyps(2) reachable_inv [OF Step.hyps(1)]] by blast
qed

end
