(* ===== verification/Book_Claims.thy ===== *)
theory Book_Claims
  imports Book_Depth
begin

section \<open>Claims about the order book\<close>

text \<open>
  What the book of \<open>orderbook.go\<close> guarantees its caller, stated over \<open>Place\<close>, \<open>Cancel\<close> and
  \<open>Snapshot\<close> as they are in the code. Each claim carries a property of the specification
  across the refinement. The orders of the witnesses are those of a small session: two
  sellers and a buyer who crosses both.
\<close>

subsection \<open>A session to evaluate\<close>

definition mk_order :: "string \<Rightarrow> string \<Rightarrow> side \<Rightarrow> int \<Rightarrow> int \<Rightarrow> order" where
  "mk_order i u sd p q = \<lparr>oID = i, oUserID = u, oSymbol = ''VIB'', oSide = sd, oPrice = p, oQuantity = q,
     oStatus = StatusNone, oFilledQuantity = 0, oSequence = 0, oCreatedAt = 0, oUpdatedAt = 0\<rparr>"

definition ex_clock :: "nat \<Rightarrow> time" where
  "ex_clock n = int n"

definition after_place :: "order \<Rightarrow> OrderBook \<Rightarrow> OrderBook" where
  "after_place o' b = (case Place o' b of None \<Rightarrow> b | Some (res, b') \<Rightarrow> b')"

definition ex_s1 :: order where "ex_s1 = mk_order ''s1'' ''ann'' Sell 10 5"
definition ex_s2 :: order where "ex_s2 = mk_order ''s2'' ''bob'' Sell 11 7"
definition ex_b1 :: order where "ex_b1 = mk_order ''b1'' ''eve'' Buy 12 8"
definition ex_b2 :: order where "ex_b2 = mk_order ''b2'' ''eve'' Buy 9 4"

definition ex_new :: OrderBook where "ex_new = NewOrderBook ''VIB'' ex_clock"
definition ex_book :: OrderBook where "ex_book = after_place ex_s2 (after_place ex_s1 ex_new)"

lemma valid_mk_order:
  "i \<noteq> [] \<Longrightarrow> u \<noteq> [] \<Longrightarrow> sd = Buy \<or> sd = Sell \<Longrightarrow> 0 < p \<Longrightarrow> 0 < q \<Longrightarrow> q \<le> max_i64 \<Longrightarrow> p * q \<le> max_i64 \<Longrightarrow>
   valid_new (mk_order i u sd p q)"
  by (auto simp: valid_new_def Validate_None_iff fits_def mk_order_def)

lemma valid_ex [simp]: "valid_new ex_s1" "valid_new ex_s2" "valid_new ex_b1" "valid_new ex_b2"
  by (simp_all add: ex_s1_def ex_s2_def ex_b1_def ex_b2_def valid_mk_order)

lemma book_wf_after_place:
  "book_wf b \<Longrightarrow> valid_new o' \<Longrightarrow> orders b (oID o') = None \<Longrightarrow> book_wf (after_place o' b)"
  using Place_correct [of b o'] by (auto simp: after_place_def place_post_def)

lemma ex_ids:
  "orders ex_new (oID ex_s1) = None" "orders (after_place ex_s1 ex_new) (oID ex_s2) = None"
  "orders ex_book (oID ex_b1) = None" "orders ex_book (oID ex_b2) = None"
  by code_simp+

lemma ex_wf [simp]: "book_wf ex_new" "book_wf ex_book"
  using ex_ids(1,2) by (simp_all add: ex_new_def ex_book_def book_wf_New book_wf_after_place)

lemma ex_place:
  "map_option (\<lambda>(res, b). (map (\<lambda>f. (tPrice (fTrade f), tQuantity (fTrade f))) (prFills res), prReleaseCOP res))
     (Place ex_b1 ex_book) = Some ([(10, 5), (11, 3)], 13)"
  by code_simp

subsection \<open>Place\<close>

text \<open>What \<open>Place\<close> returns, in the form the claims use it.\<close>

lemma PlaceD:
  assumes "book_wf b" and "valid_new o'" and "orders b (oID o') = None" and "Place o' b = Some (res, b')"
  shows "place_post o' b res b'"
  using Place_correct [OF assms(1-3)] assms(4) by auto

lemma taker_same:
  assumes "place_post o' b res b'"
  shows "oID (prTaker res) = oID o'" "oUserID (prTaker res) = oUserID o'" "oSide (prTaker res) = oSide o'"
    "oPrice (prTaker res) = oPrice o'" "oQuantity (prTaker res) = oQuantity o'"
proof -
  obtain n s f u where "prTaker res = o'\<lparr>oSequence := n, oStatus := s, oFilledQuantity := f, oUpdatedAt := u\<rparr>"
    using assms unfolding place_post_def by blast
  then show "oID (prTaker res) = oID o'" "oUserID (prTaker res) = oUserID o'" "oSide (prTaker res) = oSide o'"
    "oPrice (prTaker res) = oPrice o'" "oQuantity (prTaker res) = oQuantity o'" by simp_all
qed

lemma Place_amatch:
  assumes "book_wf b" and "valid_new o'" and "orders b (oID o') = None" and "Place o' b = Some (res, b')"
  obtains ms' where "amatch (absO o') (aopposite (absO o') (absB b)) = (absO (prTaker res), map afill_of (prFills res), ms')"
    and "prReleaseCOP res = arelease (absO o') (map afill_of (prFills res))"
    and "amatch_post (absO o') (aopposite (absO o') (absB b)) (absO (prTaker res)) (map afill_of (prFills res)) ms'"
    and "absB b' = (if arem (absO (prTaker res)) = 0 then aset_opposite (absO o') ms' (absB b)
      else arest (absO (prTaker res)) (aset_opposite (absO o') ms' (absB b)))"
proof -
  have post: "place_post o' b res b'" by (rule PlaceD [OF assms])
  then have ap: "aPlace (absO o') (absB b) = (absO (prTaker res), map afill_of (prFills res), prReleaseCOP res, absB b')"
    by (simp add: place_post_def)
  from aPlaceE [OF this] obtain ms' where m: "amatch (absO o') (aopposite (absO o') (absB b)) = (absO (prTaker res), map afill_of (prFills res), ms')"
    "prReleaseCOP res = arelease (absO o') (map afill_of (prFills res))"
    "absB b' = (if arem (absO (prTaker res)) = 0 then aset_opposite (absO o') ms' (absB b)
      else arest (absO (prTaker res)) (aset_opposite (absO o') ms' (absB b)))" .
  have "abook_wf (absB b)" using assms(1) by (rule book_wf_abs)
  then have "\<forall>m\<in>set (aopposite (absO o') (absB b)). 0 < arem m"
    using aside_wf_arem by (auto simp: aopposite_def abook_wf_def)
  moreover have "0 \<le> arem (absO o')"
    using assms(2) by (simp add: valid_new_def Validate_None_iff)
  ultimately show thesis using that m amatch_correct [OF m(1)] by blast
qed

text \<open>C13. On a well-formed book \<open>Place\<close> of a valid order with a new identifier does not panic; it
  leaves a well-formed book and does on it exactly what the list specification \<open>aPlace\<close> does:
  same taker, same fills, same refund, same book.\<close>

theorem Place_refines:
  assumes "book_wf b" and "valid_new o'" and "orders b (oID o') = None"
  shows "\<exists>res b'. Place o' b = Some (res, b') \<and> book_wf b'
    \<and> aPlace (absO o') (absB b) = (absO (prTaker res), map afill_of (prFills res), prReleaseCOP res, absB b')"
  using Place_correct [OF assms] by (auto simp: place_post_def)

theorem Place_refines_witness:
  "\<exists>res b'. Place ex_b1 ex_book = Some (res, b') \<and> book_wf b' \<and> prReleaseCOP res = 13
    \<and> aPlace (absO ex_b1) (absB ex_book) = (absO (prTaker res), map afill_of (prFills res), prReleaseCOP res, absB b')"
  using Place_refines [of ex_book ex_b1] ex_ids ex_place by auto

text \<open>C14. Price-time priority: the makers of the fills are the first orders of the opposite side,
  best price and oldest first; all of them but the last are filled completely; each of their
  prices crosses; and an order that is not filled completely leaves no order behind that crosses.\<close>

theorem price_time_priority:
  assumes "book_wf b" and "valid_new o'" and "orders b (oID o') = None" and "Place o' b = Some (res, b')"
  shows "\<exists>k. map (\<lambda>f. fst (afill_of f)) (prFills res) = take k (aopposite (absO o') (absB b))
    \<and> (\<forall>f\<in>set (butlast (prFills res)). oFilledQuantity (fMaker f) = oQuantity (fMaker f))
    \<and> (\<forall>f\<in>set (prFills res). crosses (oSide o') (oPrice o') (tPrice (fTrade f)))
    \<and> (oFilledQuantity (prTaker res) \<noteq> oQuantity o' \<longrightarrow>
        (\<forall>x\<in>set (drop k (aopposite (absO o') (absB b))). \<not> crosses (oSide o') (oPrice o') (aPrice x)))"
proof -
  let ?t = "absO o'" and ?t' = "absO (prTaker res)" and ?fs = "map afill_of (prFills res)" and ?ms = "aopposite (absO o') (absB b)"
  have post: "place_post o' b res b'" by (rule PlaceD [OF assms])
  obtain ms' where m: "amatch ?t ?ms = (?t', ?fs, ms')" and mp: "amatch_post ?t ?ms ?t' ?fs ms'"
    by (rule Place_amatch [OF assms])
  from mp obtain k where k: "map fst ?fs = take k ?ms"
    and c: "ms' = drop k ?ms \<and> (\<forall>(m, q)\<in>set ?fs. q = arem m) \<and> (arem ?t' = 0 \<or> ms' = [] \<or> \<not> acrosses ?t (aPrice (hd ms')))
        \<or> ?fs \<noteq> [] \<and> arem ?t' = 0 \<and> (\<forall>(m, q)\<in>set (butlast ?fs). q = arem m)"
    unfolding amatch_post_def by blast
  have "map (\<lambda>f. fst (afill_of f)) (prFills res) = take k ?ms" using k by (simp add: comp_def)
  moreover have "\<forall>(m, q)\<in>set (butlast ?fs). q = arem m" using c by (elim disjE conjE) (blast dest: in_set_butlastD)+
  then have "\<forall>f\<in>set (butlast (prFills res)). oFilledQuantity (fMaker f) = oQuantity (fMaker f)"
    by (auto simp: map_butlast [symmetric] afill_of_def)
  moreover have "\<forall>(m, q)\<in>set ?fs. acrosses ?t (aPrice m)" using mp unfolding amatch_post_def by auto
  then have "\<forall>f\<in>set (prFills res). crosses (oSide o') (oPrice o') (tPrice (fTrade f))"
    using post by (auto simp: place_post_def afill_of_def fill_ok_def Let_def)
  moreover have "\<forall>x\<in>set (drop k ?ms). \<not> crosses (oSide o') (oPrice o') (aPrice x)"
    if open': "oFilledQuantity (prTaker res) \<noteq> oQuantity o'"
  proof -
    have "arem ?t' \<noteq> 0" using open' taker_same [OF post] by simp
    moreover have "ms' = drop k ?ms" using c \<open>arem ?t' \<noteq> 0\<close> by auto
    moreover have "abook_wf (absB b)" "0 \<le> arem ?t" "aSide ?t = Buy \<or> aSide ?t = Sell"
      using assms by (auto simp: book_wf_abs valid_new_def Validate_None_iff)
    ultimately show ?thesis
      using amatch_done [OF m, of "aSide ?t = Sell"] by (auto simp: abook_wf_def aopposite_def)
  qed
  ultimately show ?thesis by blast
qed

lemma ex_placed:
  obtains res b' where "Place ex_b1 ex_book = Some (res, b')"
    and "map (\<lambda>f. (tPrice (fTrade f), tQuantity (fTrade f))) (prFills res) = [(10, 5), (11, 3)]"
    and "prReleaseCOP res = 13"
  using ex_place by auto

theorem price_time_priority_witness:
  "\<exists>res b'. Place ex_b1 ex_book = Some (res, b') \<and> length (prFills res) = 2
    \<and> (\<exists>k. map (\<lambda>f. fst (afill_of f)) (prFills res) = take k (aopposite (absO ex_b1) (absB ex_book)))"
proof -
  obtain res b' where r: "Place ex_b1 ex_book = Some (res, b')"
    and f: "map (\<lambda>f. (tPrice (fTrade f), tQuantity (fTrade f))) (prFills res) = [(10, 5), (11, 3)]"
    by (rule ex_placed)
  from price_time_priority [OF ex_wf(2) valid_ex(3) ex_ids(3) r] r show ?thesis
    using arg_cong [OF f, of length] by auto
qed



text \<open>\<open>Place\<close> neither loses nor creates quantity: the taker is filled by what its trades say, at
  most its own quantity; its status says how far it got; and the open quantity of the book
  grows by the order and shrinks by both sides of every trade.\<close>

theorem place_conserves_quantity:
  assumes "book_wf b" and "valid_new o'" and "orders b (oID o') = None" and "Place o' b = Some (res, b')"
  shows "oFilledQuantity (prTaker res) = (\<Sum>f\<leftarrow>prFills res. tQuantity (fTrade f))
    \<and> oFilledQuantity (prTaker res) \<le> oQuantity o'
    \<and> oStatus (prTaker res) = (if oFilledQuantity (prTaker res) = oQuantity o' then StatusFilled
        else if prFills res = [] then StatusOpen else StatusPartiallyFilled)
    \<and> (\<Sum>x\<leftarrow>aorders (absB b'). arem x) = (\<Sum>x\<leftarrow>aorders (absB b). arem x) + oQuantity o'
        - 2 * (\<Sum>f\<leftarrow>prFills res. tQuantity (fTrade f))"
proof -
  let ?t = "absO o'" and ?t' = "absO (prTaker res)" and ?fs = "map afill_of (prFills res)"
  have post: "place_post o' b res b'" by (rule PlaceD [OF assms])
  obtain ms' where m: "amatch ?t (aopposite ?t (absB b)) = (?t', ?fs, ms')"
    and mp: "amatch_post ?t (aopposite ?t (absB b)) ?t' ?fs ms'"
    and B': "absB b' = (if arem ?t' = 0 then aset_opposite ?t ms' (absB b) else arest ?t' (aset_opposite ?t ms' (absB b)))"
    by (rule Place_amatch [OF assms])
  let ?n = "\<Sum>f\<leftarrow>prFills res. tQuantity (fTrade f)"
  have sumq: "(\<Sum>(m, q)\<leftarrow>?fs. q) = ?n" by (simp add: comp_def afill_of_def)
  have new: "oFilledQuantity o' = 0" "oSide o' = Buy \<or> oSide o' = Sell"
    using assms(2) by (auto simp: valid_new_def Validate_None_iff)
  have t': "?t' = afill ?n ?t" using amatch_taker [OF m] sumq by simp
  from arg_cong [OF t', of aFilled] new have fl: "oFilledQuantity (prTaker res) = ?n" by simp
  have le: "oFilledQuantity (prTaker res) \<le> oQuantity o'"
    using mp taker_same [OF post] by (simp add: amatch_post_def)
  have pos: "\<forall>f\<in>set (prFills res). 0 < tQuantity (fTrade f)"
    using mp unfolding amatch_post_def by (force simp: afill_of_def)
  have "prFills res = [] \<longleftrightarrow> ?n = 0"
  proof (cases "prFills res")
    case (Cons f fs)
    then have "0 < tQuantity (fTrade f)" "0 \<le> (\<Sum>f\<leftarrow>fs. tQuantity (fTrade f))"
      using pos sum_list_nonneg_map [of fs "\<lambda>f. tQuantity (fTrade f)"] by (auto simp: less_imp_le)
    then show ?thesis by (simp add: Cons)
  qed simp
  moreover have "oStatus (prTaker res) = taker_status (prTaker res)"
    using post unfolding place_post_def by (metis order.select_convs(7) order.surjective order.update_convs(7,8,9,11))
  ultimately have st: "oStatus (prTaker res) = (if oFilledQuantity (prTaker res) = oQuantity o' then StatusFilled
        else if prFills res = [] then StatusOpen else StatusPartiallyFilled)"
    using fl pos taker_same(5) [OF post] le sum_list_nonneg_map [of "prFills res" "\<lambda>f. tQuantity (fTrade f)"]
    by (auto simp: taker_status_def less_imp_le)
  have "sum_list (map arem (aopposite ?t (absB b))) = sum_list (map arem ms') + (\<Sum>(m, q)\<leftarrow>?fs. q)"
    by (rule amatch_linear [where g = "\<lambda>x q. q", OF _ _ m]) simp_all
  then have "(\<Sum>x\<leftarrow>aorders (absB b'). arem x) = (\<Sum>x\<leftarrow>aorders (absB b). arem x) + oQuantity o' - 2 * ?n"
    using new fl taker_same [OF post] unfolding B' sumq
    by (auto simp: aset_opposite_def aopposite_def arest_def aorders_def sum_ainsert)
  with fl le st show ?thesis by simp
qed

theorem place_conserves_quantity_witness:
  "\<exists>res b'. Place ex_b1 ex_book = Some (res, b') \<and> oFilledQuantity (prTaker res) = 8 \<and> oStatus (prTaker res) = StatusFilled"
proof -
  obtain res b' where r: "Place ex_b1 ex_book = Some (res, b')"
    and f: "map (\<lambda>f. (tPrice (fTrade f), tQuantity (fTrade f))) (prFills res) = [(10, 5), (11, 3)]"
    by (rule ex_placed)
  from arg_cong [OF f, of "\<lambda>xs. sum_list (map snd xs)"] have "(\<Sum>f\<leftarrow>prFills res. tQuantity (fTrade f)) = 8"
    by (simp add: comp_def)
  with place_conserves_quantity [OF ex_wf(2) valid_ex(3) ex_ids(3) r] r show ?thesis
    by (simp add: ex_b1_def mk_order_def)
qed

text \<open>The trades of a buy order: prices and quantities in range, values without wrap-around.\<close>

lemma buy_fill:
  assumes place: "book_wf b" "valid_new o'" "orders b (oID o') = None" "Place o' b = Some (res, b')"
    and buy: "oSide o' = Buy" and f: "f \<in> set (prFills res)"
  shows "aPrice (fst (afill_of f)) = tPrice (fTrade f)" and "tPrice (fTrade f) \<le> oPrice o'" and "0 < tQuantity (fTrade f)"
    and "Notional (fTrade f) = tPrice (fTrade f) * tQuantity (fTrade f)" and "0 < Notional (fTrade f)"
proof -
  let ?t = "absO o'" and ?fs = "map afill_of (prFills res)" and ?q = "\<lambda>f. tQuantity (fTrade f)"
  have post: "place_post o' b res b'" by (rule PlaceD [OF place])
  obtain ms' where m: "amatch ?t (aopposite ?t (absB b)) = (absO (prTaker res), ?fs, ms')"
    and mp: "amatch_post ?t (aopposite ?t (absB b)) (absO (prTaker res)) ?fs ms'"
    by (rule Place_amatch [OF place])
  have v: "0 < oPrice o'" "oFilledQuantity o' = 0" "oPrice o' * oQuantity o' \<le> max_i64"
    using place(2) by (auto simp: valid_new_def Validate_None_iff fits_def)
  have opp: "\<forall>x\<in>set (aopposite ?t (absB b)). aSide x = Sell \<and> 0 < aPrice x"
    using book_wf_abs [OF place(1)] buy by (auto simp: abook_wf_def aopposite_def aside_wf_def aresting_def)
  have ok: "\<forall>(m, q)\<in>set ?fs. 0 < q \<and> acrosses ?t (aPrice m)" using mp unfolding amatch_post_def by blast
  have "\<forall>(m, q)\<in>set ?fs. m \<in> set (aopposite ?t (absB b))" using amatch_sides [OF m] opp by blast
  then have p: "0 < aPrice (fst (afill_of f))" using opp f by (force simp: case_prod_beta)
  show tp: "aPrice (fst (afill_of f)) = tPrice (fTrade f)"
    using post f by (simp add: place_post_def fill_ok_def Let_def afill_of_def)
  show le: "tPrice (fTrade f) \<le> oPrice o'" and q: "0 < ?q f"
    using ok f buy tp by (auto simp: case_prod_beta afill_of_def crosses_def)
  have "?q f \<le> (\<Sum>f\<leftarrow>prFills res. ?q f)"
    using ok f by (intro member_le_sum_list_int) (auto simp: case_prod_beta afill_of_def)
  also have "\<dots> = oFilledQuantity (prTaker res)"
    using arg_cong [OF amatch_taker [OF m], of aFilled] v(2) by (simp add: comp_def afill_of_def)
  also have "\<dots> \<le> oQuantity o'" using mp taker_same [OF post] by (simp add: amatch_post_def)
  finally have "tPrice (fTrade f) * ?q f \<le> oPrice o' * oQuantity o'" using le q v(1) by (intro mult_mono) auto
  with p q tp v(3) show n: "Notional (fTrade f) = tPrice (fTrade f) * ?q f"
    by (auto simp: Notional_def intro!: mul64_id i64_nonneg mult_nonneg_nonneg)
  show "0 < Notional (fTrade f)" unfolding n using p q tp by (intro mult_pos_pos) auto
qed

text \<open>C15. The COP reserved for a buy order is exactly what its trades cost, what \<open>Place\<close> tells to
  release, and what the rest of the order needs at its limit price; none of the three is
  negative, and no product wraps around.\<close>

theorem buy_reserve_split:
  assumes "book_wf b" and "valid_new o'" and "orders b (oID o') = None" and "Place o' b = Some (res, b')"
    and buy: "oSide o' = Buy"
  shows "ReservedCOP o' = (\<Sum>f\<leftarrow>prFills res. Notional (fTrade f)) + prReleaseCOP res
      + oPrice o' * (oQuantity o' - oFilledQuantity (prTaker res))
    \<and> (\<forall>f\<in>set (prFills res). 0 < Notional (fTrade f)) \<and> 0 \<le> prReleaseCOP res"
proof -
  let ?t = "absO o'" and ?fs = "map afill_of (prFills res)"
  note fill = buy_fill [OF assms]
  obtain ms' where m: "amatch ?t (aopposite ?t (absB b)) = (absO (prTaker res), ?fs, ms')" and rel: "prReleaseCOP res = arelease ?t ?fs"
    by (rule Place_amatch [OF assms(1-4)])
  have v: "Validate o' = None" "fits o'" "oFilledQuantity o' = 0" using assms(2) by (auto simp: valid_new_def)
  have sumq: "(\<Sum>(m, q)\<leftarrow>?fs. q) = (\<Sum>f\<leftarrow>prFills res. tQuantity (fTrade f))" by (simp add: comp_def afill_of_def)
  have fl: "oFilledQuantity (prTaker res) = (\<Sum>f\<leftarrow>prFills res. tQuantity (fTrade f))"
    using arg_cong [OF amatch_taker [OF m], of aFilled] v(3) unfolding sumq by simp
  have "(\<Sum>(m, q)\<leftarrow>?fs. aPrice m * q) = (\<Sum>f\<leftarrow>prFills res. Notional (fTrade f))"
    using fill(1,4) by (auto simp: comp_def case_prod_beta afill_of_def intro!: arg_cong [of _ _ sum_list] map_cong)
  then have "oPrice o' * (\<Sum>f\<leftarrow>prFills res. tQuantity (fTrade f)) = (\<Sum>f\<leftarrow>prFills res. Notional (fTrade f)) + prReleaseCOP res"
    using release_split [of ?t ?fs] buy sumq rel by simp
  moreover have "ReservedCOP o' = oPrice o' * oQuantity o'" using v buy by (simp add: ReservedCOP_exact)
  moreover have "0 \<le> (case afill_of f of (m, q) \<Rightarrow> (oPrice o' - aPrice m) * q)" if "f \<in> set (prFills res)" for f
    using fill(1-3) [OF that] by (auto simp: case_prod_beta afill_of_def)
  then have "0 \<le> prReleaseCOP res"
    using buy sum_list_nonneg_map [of "prFills res" "\<lambda>f. case afill_of f of (m, q) \<Rightarrow> (oPrice o' - aPrice m) * q"]
    by (simp add: rel arelease_def comp_def)
  ultimately show ?thesis using fill(5) by (auto simp: fl right_diff_distrib)
qed

theorem buy_reserve_split_witness:
  "\<exists>res b'. Place ex_b1 ex_book = Some (res, b') \<and> ReservedCOP ex_b1 = 96
    \<and> ReservedCOP ex_b1 = (\<Sum>f\<leftarrow>prFills res. Notional (fTrade f)) + prReleaseCOP res
      + oPrice ex_b1 * (oQuantity ex_b1 - oFilledQuantity (prTaker res))"
proof -
  obtain res b' where r: "Place ex_b1 ex_book = Some (res, b')" by (rule ex_placed)
  have "oSide ex_b1 = Buy" by (simp add: ex_b1_def mk_order_def)
  from buy_reserve_split [OF ex_wf(2) valid_ex(3) ex_ids(3) r this] r
  show ?thesis by (simp add: ex_b1_def mk_order_def ReservedCOP_def mul64_id i64_nonneg)
qed

text \<open>A price level is a queue: adding an order to a side keeps the side sorted and without
  crossed levels, puts the order behind every order of its price, and leaves the queues of
  the other prices as they are.\<close>

theorem side_add_is_fifo:
  assumes "side_wf bid pr s" and "pr r = p"
  shows "side_wf bid pr (side_add p r s)
    \<and> filter (\<lambda>x. pr x = p) (side_refs (side_add p r s)) = filter (\<lambda>x. pr x = p) (side_refs s) @ [r]
    \<and> (\<forall>p'. p' \<noteq> p \<longrightarrow> level_queue (side_add p r s) p' = level_queue s p')"
  using assms side_add_refs(2) [OF assms] bid_side.add_behind [of pr s r p] ask_side.add_behind [of pr s r p]
  by (cases bid) (auto simp: level_queue_add)

theorem side_add_is_fifo_witness:
  "filter (\<lambda>x. (\<lambda>_. 7) x = (7 :: int)) (side_refs (side_add 7 1 (side_add 7 0 (newBookSide True)))) = [0, 1]"
proof -
  have w: "side_wf True (\<lambda>_. 7) (newBookSide True)" by simp
  have "side_wf True (\<lambda>_. 7) (side_add 7 0 (newBookSide True))" "side_refs (side_add 7 0 (newBookSide True)) = [0]"
    using side_add_is_fifo [OF w, where r = 0 and p = 7] by simp_all
  then show ?thesis using side_add_is_fifo [of True "\<lambda>_. 7" "side_add 7 0 (newBookSide True)" 1 7] by simp
qed

subsection \<open>Cancel\<close>

text \<open>C17. \<open>Cancel\<close> of a resting order takes exactly that order out of the well-formed book and
  releases exactly what is still reserved for it: price times open quantity for a buy order, the
  open quantity for a sell order. For any other identifier it reports failure.\<close>

theorem Cancel_refines:
  assumes "book_wf b"
  shows "case Cancel i b of
      None \<Rightarrow> i \<notin> set (map aID (aorders (absB b)))
    | Some (res, b') \<Rightarrow> book_wf b' \<and> aCancel i (absB b) = Some (absO (crOrder res), absB b')
        \<and> oStatus (crOrder res) = StatusCancelled
        \<and> (if oSide (crOrder res) = Buy
           then crReleaseCOP res = oPrice (crOrder res) * (oQuantity (crOrder res) - oFilledQuantity (crOrder res))
             \<and> crReleaseVibranium res = 0
           else crReleaseCOP res = 0
             \<and> crReleaseVibranium res = oQuantity (crOrder res) - oFilledQuantity (crOrder res))"
proof (cases "orders b i")
  case None
  then show ?thesis
    using Cancel_absent [OF assms None] book_core_new_id [of b i] assms by (simp add: book_wf_def)
next
  case (Some r)
  then obtain res b' where c: "Cancel i b = Some (res, b')" and post: "cancel_post i b res b'"
    using Cancel_correct [OF assms, of i] by auto
  have "absO (crOrder res) \<in> set (aorders (absB b))"
    using post aCancel_collateral(3) [OF book_wf_abs [OF assms]] by (auto simp: cancel_post_def)
  then have "oSide (crOrder res) = Buy \<or> oSide (crOrder res) = Sell"
    using book_wf_abs [OF assms] by (auto simp: aorders_def abook_wf_def aside_wf_def aresting_def)
  with post show ?thesis by (auto simp: c cancel_post_def cop_of_def vib_of_def)
qed

theorem Cancel_refines_witness:
  "case Cancel ''s2'' ex_book of None \<Rightarrow> False
    | Some (res, b') \<Rightarrow> book_wf b' \<and> crReleaseVibranium res = 7 \<and> crReleaseCOP res = 0"
proof -
  have "map_option (\<lambda>(res, b'). (crReleaseVibranium res, crReleaseCOP res)) (Cancel ''s2'' ex_book) = Some (7, 0)"
    by code_simp
  with Cancel_refines [OF ex_wf(2), of "''s2''"] show ?thesis by (auto split: option.splits)
qed

text \<open>Resting an order and cancelling it is the identity of the specification.\<close>

lemma aCancel_arest:
  assumes new: "aID t \<notin> aID ` set (aorders B)" and side: "aSide t = Buy \<or> aSide t = Sell"
  shows "aCancel (aID t) (arest t B) = Some (t, B)"
proof -
  have ids: "filter (\<lambda>y. aID y \<noteq> aID t) xs = xs" if "set xs \<subseteq> set (aorders B)" for xs
    using that new by (intro filter_True ballI) (metis imageI subsetD)
  have ins: "filter (\<lambda>y. aID y \<noteq> aID t) (ainsert bid t xs) = xs" if "set xs \<subseteq> set (aorders B)" for bid xs
  proof -
    have "filter P (takeWhile Q xs) @ filter P (dropWhile Q xs) = filter P xs" for P Q
      by (metis filter_append takeWhile_dropWhile_id)
    then show ?thesis using ids [OF that] by (simp add: ainsert_def)
  qed
  have uniq: "x = t" if "x \<in> set (aorders (arest t B))" "aID x = aID t" for x
  proof -
    have "x \<in> insert t (set (aorders B))" using that(1) side by (auto simp: arest_def aorders_def)
    moreover have "x \<notin> set (aorders B)" using that(2) new by (metis imageI)
    ultimately show ?thesis by blast
  qed
  have "t \<in> set (aorders (arest t B))" using side by (auto simp: arest_def aorders_def)
  then obtain x where f: "find (\<lambda>x. aID x = aID t) (aorders (arest t B)) = Some x"
    by (cases "find (\<lambda>x. aID x = aID t) (aorders (arest t B))") (auto simp: find_None_iff)
  then have "x = t" by (intro uniq) (auto simp: find_Some_iff)
  note f [unfolded this]
  then show ?thesis using side ids ins by (auto simp: aCancel_def arest_def aorders_def)
qed

text \<open>C18. Round trip: placing an order that crosses nothing and then cancelling it gives back the
  book as it was, no trade, and the whole reservation of the order.\<close>

theorem place_then_cancel:
  assumes "book_wf b" and "valid_new o'" and "orders b (oID o') = None"
    and quiet: "\<forall>x\<in>set (aopposite (absO o') (absB b)). \<not> crosses (oSide o') (oPrice o') (aPrice x)"
  shows "\<exists>res b1 cr b2. Place o' b = Some (res, b1) \<and> prFills res = [] \<and> prReleaseCOP res = 0
    \<and> Cancel (oID o') b1 = Some (cr, b2) \<and> absB b2 = absB b
    \<and> crReleaseCOP cr = ReservedCOP o' \<and> crReleaseVibranium cr = ReservedVibranium o'"
proof -
  let ?t = "absO o'" and ?B = "absB b"
  obtain res b1 where p: "Place o' b = Some (res, b1)" and post: "place_post o' b res b1"
    using Place_correct [OF assms(1-3)] by blast
  have v: "Validate o' = None" "fits o'" "0 < oQuantity o'" "oFilledQuantity o' = 0"
    and side: "oSide o' = Buy \<or> oSide o' = Sell"
    using assms(2) by (auto simp: valid_new_def Validate_None_iff)
  have "amatch ?t (aopposite ?t ?B) = (?t, [], aopposite ?t ?B)"
    using quiet by (cases "aopposite ?t ?B") (auto intro: amatch_stop)
  then have "aPlace ?t ?B = (?t, [], 0, arest ?t ?B)"
    using v by (simp add: aPlace_def arelease_def aset_opposite_def aopposite_def)
  then have r: "prFills res = []" "prReleaseCOP res = 0" "absB b1 = arest ?t ?B" and wf1: "book_wf b1"
    using post by (auto simp: place_post_def)
  have new: "aID ?t \<notin> aID ` set (aorders ?B)"
    using assms(1,3) book_core_new_id [of b "oID o'"] by (simp add: book_wf_def)
  note undo = aCancel_arest [OF new]
  have "oID o' \<in> set (map aID (aorders (absB b1)))" using r(3) side by (auto simp: arest_def aorders_def)
  then obtain cr b2 where c: "Cancel (oID o') b1 = Some (cr, b2)" and cp: "cancel_post (oID o') b1 cr b2"
    using Cancel_correct [OF wf1, of "oID o'"] book_core_new_id [of b1 "oID o'"] wf1 by (auto simp: book_wf_def)
  have cr: "absO (crOrder cr) = ?t" "absB b2 = ?B" using cp undo side r(3) by (auto simp: cancel_post_def)
  have "oUserID (crOrder cr) = oUserID o'" using arg_cong [OF cr(1), of aUser] by simp
  moreover have "oSide o' = Sell \<Longrightarrow> ReservedCOP o' = 0" by (simp add: ReservedCOP_def)
  ultimately have "crReleaseCOP cr = ReservedCOP o' \<and> crReleaseVibranium cr = ReservedVibranium o'"
    using cp cr(1) side v by (auto simp: cancel_post_def cop_of_def vib_of_def ReservedCOP_exact ReservedVibranium_def)
  with cr(2) show ?thesis using p r c by blast
qed

theorem place_then_cancel_witness:
  "\<exists>res b1 cr b2. Place ex_b2 ex_book = Some (res, b1) \<and> Cancel ''b2'' b1 = Some (cr, b2)
    \<and> absB b2 = absB ex_book \<and> crReleaseCOP cr = 36"
proof -
  have "\<forall>x\<in>set (aopposite (absO ex_b2) (absB ex_book)). \<not> crosses (oSide ex_b2) (oPrice ex_b2) (aPrice x)"
    by code_simp
  from place_then_cancel [OF ex_wf(2) valid_ex(4) ex_ids(4) this]
  show ?thesis by (auto simp: ex_b2_def mk_order_def ReservedCOP_def mul64_id i64_nonneg)
qed

text \<open>An order is cancelled at most once, and a cancelled or filled order is not found again:
  after \<open>Cancel\<close> has taken an order out, the same call fails and changes nothing.\<close>

theorem cancel_once:
  assumes "book_wf b" and "Cancel i b = Some (res, b')"
  shows "Cancel i b' = None \<and> (\<forall>x\<in>set (aorders (absB b')). aID x \<noteq> i)
    \<and> (\<forall>j. j \<noteq> i \<longrightarrow> (Cancel j b' = None \<longleftrightarrow> Cancel j b = None))"
proof -
  have "orders b i \<noteq> None" using assms(2) by (auto simp: Cancel_def split: option.splits)
  from Cancel_correct [OF assms(1) this] have post: "cancel_post i b res b'" using assms(2) by auto
  then have wf: "book_wf b'" and o': "orders b' = (orders b)(i := None)" by (simp_all add: cancel_post_def)
  have "Cancel i b' = None" using Cancel_absent(1) [OF wf] o' by simp
  moreover have "i \<notin> set (map aID (aorders (absB b')))"
    using book_core_new_id [of b' i] wf o' by (simp add: book_wf_def)
  moreover have "Cancel j b'' = None \<longleftrightarrow> orders b'' j = None" for j b''
    by (simp add: Cancel_def Let_def tick_def split: option.splits)
  ultimately show ?thesis using o' by auto
qed

theorem cancel_once_witness:
  "\<exists>res b'. Cancel ''s1'' ex_book = Some (res, b') \<and> Cancel ''s1'' b' = None \<and> Cancel ''s2'' b' \<noteq> None"
proof -
  have "Cancel ''s1'' ex_book \<noteq> None" "Cancel ''s2'' ex_book \<noteq> None" by code_simp+
  then obtain res b' where c: "Cancel ''s1'' ex_book = Some (res, b')" and d: "Cancel ''s2'' ex_book \<noteq> None" by auto
  have "(''s2'' :: string) \<noteq> ''s1''" by simp
  with cancel_once [OF ex_wf(2) c] d have "Cancel ''s1'' b' = None" "Cancel ''s2'' b' \<noteq> None" by metis+
  with c show ?thesis by blast
qed

subsection \<open>Depth, termination, numbering\<close>

text \<open>C19. \<open>Snapshot\<close> shows the book as it is: one level for each price at which something rests, the
  best \<open>depth\<close> of them (all for \<open>depth <= 0\<close>), with what rests there; bids from the highest
  price down, asks from the lowest up, and every bid below every ask.\<close>

theorem Snapshot_shows_book:
  assumes "book_wf b"
  shows "\<exists>sn. Snapshot depth b = Some sn \<and> snSymbol sn = bSymbol b
    \<and> snBids sn = adepth depth (aBids (absB b)) \<and> snAsks sn = adepth depth (aAsks (absB b))
    \<and> sorted_wrt (>) (map lvPrice (snBids sn)) \<and> sorted_wrt (<) (map lvPrice (snAsks sn))
    \<and> (\<forall>x\<in>set (snBids sn). \<forall>y\<in>set (snAsks sn). lvPrice x < lvPrice y)"
proof -
  have w: "side_wf True (\<lambda>r. oPrice (heap b r)) (bids b)" "side_wf False (\<lambda>r. oPrice (heap b r)) (asks b)"
    and u: "uncrossed (absB b)"
    using assms by (auto simp: book_wf_def book_core_def)
  have dp: "map lvPrice (adepth depth xs) = (if depth > 0 then take (nat depth) (remdups_adj (map aPrice xs))
      else remdups_adj (map aPrice xs))" for xs
    by (simp add: adepth_def Let_def comp_def)
  have ps: "remdups_adj (map aPrice (aBids (absB b))) = prices (bids b)"
    "remdups_adj (map aPrice (aAsks (absB b))) = prices (asks b)"
    using side_prices_remdups [OF w(1)] side_prices_remdups [OF w(2)] by (simp_all add: absB_def comp_def)
  have bf: "before True = (>)" "before False = (<)" by (auto simp: before_def fun_eq_iff)
  have st: "sorted_wrt P (map lvPrice (adepth depth xs))" if "sorted_wrt P (remdups_adj (map aPrice xs))" for P xs
    using that by (simp add: dp sorted_wrt_take)
  have "sorted_wrt (>) (map lvPrice (adepth depth (aBids (absB b))))"
    using side_wfD(2) [OF w(1)] by (intro st) (simp add: ps bf)
  moreover have "sorted_wrt (<) (map lvPrice (adepth depth (aAsks (absB b))))"
    using side_wfD(2) [OF w(2)] by (intro st) (simp add: ps bf)
  moreover have sub: "lvPrice ` set (adepth depth xs) \<subseteq> aPrice ` set xs" for xs
  proof -
    have "set (map lvPrice (adepth depth xs)) \<subseteq> set (map aPrice xs)"
      unfolding dp using set_take_subset by (auto dest: in_set_takeD)
    then show ?thesis by simp
  qed
  then have "\<forall>x\<in>set (adepth depth (aBids (absB b))). \<forall>y\<in>set (adepth depth (aAsks (absB b))). lvPrice x < lvPrice y"
  proof (intro ballI)
    fix x y assume "x \<in> set (adepth depth (aBids (absB b)))" "y \<in> set (adepth depth (aAsks (absB b)))"
    then have "lvPrice x \<in> aPrice ` set (aBids (absB b))" "lvPrice y \<in> aPrice ` set (aAsks (absB b))"
      using sub by blast+
    then show "lvPrice x < lvPrice y" using u unfolding uncrossed_def by auto
  qed
  ultimately show ?thesis by (simp add: Snapshot_correct [OF assms])
qed

theorem Snapshot_shows_book_witness:
  "\<exists>sn. Snapshot 1 ex_book = Some sn \<and> snBids sn = [] \<and> snAsks sn = [\<lparr>lvPrice = 10, lvQuantity = 5, lvOrders = 1\<rparr>]
    \<and> sorted_wrt (<) (map lvPrice (snAsks sn))"
proof -
  have "adepth 1 (aBids (absB ex_book)) = []" "adepth 1 (aAsks (absB ex_book)) = [\<lparr>lvPrice = 10, lvQuantity = 5, lvOrders = 1\<rparr>]"
    by code_simp+
  with Snapshot_shows_book [OF ex_wf(2), of 1] show ?thesis by auto
qed

lemma match_once_fill:
  assumes "match_once p m = Some m'"
  obtains f where "mFills m' = mFills m @ [f]" and "tSequence (fTrade f) = add64 (tradeSeq (mBook m)) 1"
    and "tradeSeq (mBook m') = add64 (tradeSeq (mBook m)) 1"
    and "tID (fTrade f) = bSymbol (mBook m) @ ''-'' @ itoa (tSequence (fTrade f))"
    and "bSymbol (mBook m') = bSymbol (mBook m)"
  using assms by (auto simp: match_once_def Let_def tick_def mk_trade_def set_opposite_def split: option.splits list.splits if_splits)

text \<open>The loop adds at most as many fills as its measure, numbered one after the other.\<close>

lemma match_loop_fills:
  assumes "match_loop m = Some m'" and "0 \<le> tradeSeq (mBook m)" and "tradeSeq (mBook m) + int (loop_measure m) \<le> max_i64"
  shows "\<exists>fs. mFills m' = mFills m @ fs \<and> length fs \<le> loop_measure m
    \<and> tradeSeq (mBook m') = tradeSeq (mBook m) + int (length fs)
    \<and> map (\<lambda>f. tSequence (fTrade f)) fs = map (\<lambda>k. tradeSeq (mBook m) + 1 + int k) [0..<length fs]
    \<and> (\<forall>f\<in>set fs. tID (fTrade f) = bSymbol (mBook m) @ ''-'' @ itoa (tSequence (fTrade f)))"
  using assms
proof (induction m arbitrary: m' rule: match_loop.induct)
  case (1 m)
  show ?case
  proof (cases "\<exists>p m1. Remaining (mTaker m) > 0 \<and> best (opposite (mTaker m) (mBook m)) = Some p
      \<and> crosses (oSide (mTaker m)) (oPrice (mTaker m)) p \<and> match_once p m = Some m1")
    case False
    then have "m' = m" using "1.prems"(1) by (subst (asm) match_loop.simps) (auto split: if_splits option.splits)
    then show ?thesis by auto
  next
    case True
    then obtain p m1 where st: "Remaining (mTaker m) > 0" "best (opposite (mTaker m) (mBook m)) = Some p"
      "crosses (oSide (mTaker m)) (oPrice (mTaker m)) p" "match_once p m = Some m1" by blast
    then have l: "match_loop m1 = Some m'" using "1.prems"(1) match_loop_step by metis
    have less: "loop_measure m1 < loop_measure m" by (rule match_once_progress [OF st(4,2,1)])
    obtain f where f: "mFills m1 = mFills m @ [f]" "tSequence (fTrade f) = add64 (tradeSeq (mBook m)) 1"
      "tradeSeq (mBook m1) = add64 (tradeSeq (mBook m)) 1"
      "tID (fTrade f) = bSymbol (mBook m) @ ''-'' @ itoa (tSequence (fTrade f))" "bSymbol (mBook m1) = bSymbol (mBook m)"
      by (rule match_once_fill [OF st(4)])
    have add: "add64 (tradeSeq (mBook m)) 1 = tradeSeq (mBook m) + 1"
      using "1.prems"(2,3) less by (intro add64_id i64_nonneg) auto
    have pre: "0 \<le> tradeSeq (mBook m1)" "tradeSeq (mBook m1) + int (loop_measure m1) \<le> max_i64"
      using f(3) add "1.prems"(2,3) less by auto
    obtain fs where fs: "mFills m' = mFills m1 @ fs" "length fs \<le> loop_measure m1"
      "tradeSeq (mBook m') = tradeSeq (mBook m1) + int (length fs)"
      "map (\<lambda>f. tSequence (fTrade f)) fs = map (\<lambda>k. tradeSeq (mBook m1) + 1 + int k) [0..<length fs]"
      "\<forall>f\<in>set fs. tID (fTrade f) = bSymbol (mBook m1) @ ''-'' @ itoa (tSequence (fTrade f))"
      using "1.IH" [OF st(1,2) _ st(4) l pre] st(3) by auto
    have "map (\<lambda>k. tradeSeq (mBook m) + 1 + int k) [0..<length (f # fs)]
        = (tradeSeq (mBook m) + 1) # map (\<lambda>k. tradeSeq (mBook m1) + 1 + int k) [0..<length fs]"
      using f(3) add by (simp add: upt_conv_Cons map_Suc_upt [symmetric] del: upt_Suc)
    then show ?thesis
      using fs f add less by (intro exI [of _ "f # fs"]) auto
  qed
qed

text \<open>C20. The matching loop ends on every book, well formed or not, after at most one iteration more
  than there are orders on the opposite side. Its trades carry the next sequence numbers of the
  book, without gaps, and identifiers that are all different.\<close>

theorem matching_ends_and_numbers:
  assumes "Place o' b = Some (res, b')"
    and "0 \<le> tradeSeq b" and "tradeSeq b + int (length (side_refs (opposite o' b))) + 1 \<le> max_i64"
  shows "length (prFills res) \<le> length (side_refs (opposite o' b)) + 1
    \<and> map (\<lambda>f. tSequence (fTrade f)) (prFills res) = map (\<lambda>k. tradeSeq b + 1 + int k) [0..<length (prFills res)]
    \<and> tradeSeq b' = tradeSeq b + int (length (prFills res))
    \<and> distinct (map (\<lambda>f. tID (fTrade f)) (prFills res))"
proof -
  let ?m = "place_start o' b"
  obtain m' where l: "match_loop ?m = Some m'" and r: "place_finish m' = (res, b')"
    using assms(1) by (auto simp: Place_def)
  have s: "tradeSeq (mBook ?m) = tradeSeq b" "mFills ?m = []" "loop_measure ?m \<le> length (side_refs (opposite o' b)) + 1"
    by (simp_all add: place_start_def tick_def Let_def loop_measure_def opposite_def)
  have pre: "0 \<le> tradeSeq (mBook ?m)" "tradeSeq (mBook ?m) + int (loop_measure ?m) \<le> max_i64"
    using assms(2,3) s by simp_all
  obtain fs where fs: "mFills m' = fs" "length fs \<le> loop_measure ?m" "tradeSeq (mBook m') = tradeSeq b + int (length fs)"
    "map (\<lambda>f. tSequence (fTrade f)) fs = map (\<lambda>k. tradeSeq b + 1 + int k) [0..<length fs]"
    "\<forall>f\<in>set fs. tID (fTrade f) = bSymbol (mBook ?m) @ ''-'' @ itoa (tSequence (fTrade f))"
    using match_loop_fills [OF l pre] s by auto
  have f: "prFills res = fs" "tradeSeq b' = tradeSeq (mBook m')"
    using r fs(1) by (auto simp: place_finish_def Let_def tick_def rest_def)
  have "map (\<lambda>f. tID (fTrade f)) fs = map (\<lambda>n. bSymbol (mBook ?m) @ ''-'' @ itoa n) (map (\<lambda>f. tSequence (fTrade f)) fs)"
    using fs(5) by simp
  moreover have "inj_on (\<lambda>n. bSymbol (mBook ?m) @ ''-'' @ itoa n) (set (map (\<lambda>k. tradeSeq b + 1 + int k) [0..<length fs]))"
    using assms(2) by (auto simp: inj_on_def dest!: itoa_inj_nonneg [rotated 2])
  ultimately have "distinct (map (\<lambda>f. tID (fTrade f)) fs)"
    unfolding fs(4) by (simp add: distinct_map inj_on_def)
  then show ?thesis using f fs s(3) by auto
qed

theorem matching_ends_and_numbers_witness:
  "\<exists>res b'. Place ex_b1 ex_book = Some (res, b') \<and> map (\<lambda>f. tSequence (fTrade f)) (prFills res) = [1, 2]
    \<and> tradeSeq b' = 2 \<and> distinct (map (\<lambda>f. tID (fTrade f)) (prFills res))"
proof -
  obtain res b' where r: "Place ex_b1 ex_book = Some (res, b')"
    and f: "map (\<lambda>f. (tPrice (fTrade f), tQuantity (fTrade f))) (prFills res) = [(10, 5), (11, 3)]"
    by (rule ex_placed)
  have t: "tradeSeq ex_book = 0" and n: "length (side_refs (opposite ex_b1 ex_book)) = 2" by code_simp+
  from f have "length (prFills res) = 2" by auto
  with matching_ends_and_numbers [OF r] t n r show ?thesis by (auto simp: upt_rec)
qed

end
