(* ===== verification/Session.thy ===== *)
theory Session
  imports Safety Book_Claims
begin

section \<open>A session of the whole system\<close>

text \<open>
  The steps of \<open>sys_step\<close> as functions, and a session made of them: two users are seeded, one
  sells, the other buys at a better price, the engine matches and settlement follows. The
  session reaches states in which the claims about reachable states say something.
\<close>

definition do_seed :: "string \<Rightarrow> int \<Rightarrow> int \<Rightarrow> system \<Rightarrow> system" where
  "do_seed u cop vib st = st\<lparr>syStores := (syStores st)\<lparr>stWallets :=
     snd (Wallets_Seed mem_wallets CtxLive u cop vib (stWallets (syStores st)))\<rparr>\<rparr>"

definition do_accept :: "nat list \<Rightarrow> PlaceOrderCommand \<Rightarrow> system \<Rightarrow> system" where
  "do_accept bytes cmd st =
     (case accept (mem_trading (sySymbol st)) CtxLive bytes 0 cmd (request_view st) of
        (Inl res, ts) \<Rightarrow> after_request ts st
      | (Inr o', ts) \<Rightarrow> (after_request ts st)\<lparr>sySubmitting := sySubmitting st @ [o'], syUsed := insert (oID o') (syUsed st)\<rparr>)"

definition do_enqueue :: "system \<Rightarrow> system" where
  "do_enqueue st = (case sySubmitting st of [] \<Rightarrow> st
     | o' # os \<Rightarrow> st\<lparr>sySubmitting := os, syIn := syIn st @ [cmdPlace o']\<rparr>)"

definition do_engine :: "system \<Rightarrow> system" where
  "do_engine st = (case syIn st of [] \<Rightarrow> st
     | cmd # cmds \<Rightarrow> (case handle_command mem_log cmd (syEngine st, syLog st) of
          None \<Rightarrow> st
        | Some (reply, e', l') \<Rightarrow> st\<lparr>syIn := cmds, syEngine := e', syLog := l'\<rparr>))"

definition do_settle :: "system \<Rightarrow> system" where
  "do_settle st = (case Log_recv (syLog st) of
       Some (Some ev, l') \<Rightarrow> st\<lparr>syLog := l', syStores := handle mem_settlement CtxLive 0 ev (syStores st)\<rparr>
     | _ \<Rightarrow> st)"

definition seed_ok :: "string \<Rightarrow> int \<Rightarrow> int \<Rightarrow> system \<Rightarrow> bool" where
  "seed_ok u cop vib st \<longleftrightarrow>
     u \<noteq> [] \<and> 0 \<le> cop \<and> 0 \<le> vib \<and> ws_view (stWallets (syStores st)) u = None
     \<and> distinct (map fst (ws_wallets (stWallets (syStores (do_seed u cop vib st)))))
     \<and> (\<Sum>(u, w)\<leftarrow>ws_wallets (stWallets (syStores (do_seed u cop vib st))). COPAvailable w + COPLocked w) \<le> max_i64
     \<and> (\<Sum>(u, w)\<leftarrow>ws_wallets (stWallets (syStores (do_seed u cop vib st))). VibraniumAvailable w + VibraniumLocked w) \<le> max_i64"

lemma supply_list:
  assumes "distinct (map fst (ws_wallets s))"
  shows "supplyCOP (ws_view s) = (\<Sum>(u, w)\<leftarrow>ws_wallets s. COPAvailable w + COPLocked w)"
    and "supplyVIB (ws_view s) = (\<Sum>(u, w)\<leftarrow>ws_wallets s. VibraniumAvailable w + VibraniumLocked w)"
proof -
  have "(\<Sum>u\<in>dom (map_of xs). f (the (map_of xs u))) = (\<Sum>(u, w)\<leftarrow>xs. f w)" if "distinct (map fst xs)"
    for xs :: "(string \<times> wallet) list" and f :: "wallet \<Rightarrow> int"
  proof -
    have "(\<Sum>u\<in>dom (map_of xs). f (the (map_of xs u))) = (\<Sum>u\<in>set (map fst xs). f (the (map_of xs u)))"
      by (simp add: dom_map_of_conv_image_fst)
    also have "\<dots> = (\<Sum>u\<leftarrow>map fst xs. f (the (map_of xs u)))"
      by (rule sum.distinct_set_conv_list [OF that])
    also have "\<dots> = (\<Sum>(u, w)\<leftarrow>xs. f w)"
      using that by (auto simp: comp_def case_prod_beta map_of_is_SomeI intro!: arg_cong [of _ _ sum_list] map_cong)
    finally show ?thesis .
  qed
  then show "supplyCOP (ws_view s) = (\<Sum>(u, w)\<leftarrow>ws_wallets s. COPAvailable w + COPLocked w)"
    and "supplyVIB (ws_view s) = (\<Sum>(u, w)\<leftarrow>ws_wallets s. VibraniumAvailable w + VibraniumLocked w)"
    using assms by (simp_all add: supplyCOP_def supplyVIB_def ws_view_def)
qed

lemma reach_seed:
  assumes "reachable st0 st" and "seed_ok u cop vib st"
  shows "reachable st0 (do_seed u cop vib st)"
proof -
  let ?s = "stWallets (syStores (do_seed u cop vib st))"
  have ok: "u \<noteq> []" "0 \<le> cop" "0 \<le> vib" "ws_view (stWallets (syStores st)) u = None" "distinct (map fst (ws_wallets ?s))"
    using assms(2) by (simp_all add: seed_ok_def)
  obtain w where s: "Wallets_Seed mem_wallets CtxLive u cop vib (stWallets (syStores st)) = (Inr w, ?s)"
    using ok(1-3) by (simp add: Wallets_Seed_def WalletStore_Upsert_def do_seed_def Let_def)
  have "sys_step st (st\<lparr>syStores := (syStores st)\<lparr>stWallets := ?s\<rparr>\<rparr>)"
    by (rule sys_step.Seed [OF s]) (use ok(4) supply_list [OF ok(5)] assms(2) in \<open>simp_all add: seed_ok_def\<close>)
  then show ?thesis using reachable.Step [OF assms(1)] by (simp add: do_seed_def)
qed

definition accept_ok :: "nat list \<Rightarrow> PlaceOrderCommand \<Rightarrow> system \<Rightarrow> bool" where
  "accept_ok bytes cmd st \<longleftrightarrow> generateID ''ord'' bytes \<notin> syUsed st \<and> fits (new_order (sySymbol st) bytes 0 cmd)"

lemma reach_accept:
  assumes "reachable st0 st" and "accept_ok bytes cmd st"
  shows "reachable st0 (do_accept bytes cmd st)"
proof -
  obtain r ts where a: "accept (mem_trading (sySymbol st)) CtxLive bytes 0 cmd (request_view st) = (r, ts)" by fastforce
  show ?thesis
  proof (cases r)
    case (Inl res)
    then show ?thesis using a reachable.Step [OF assms(1) sys_step.Reject] by (simp add: do_accept_def)
  next
    case (Inr o')
    with a have o': "o' = new_order (sySymbol st) bytes 0 cmd"
      using accept_order [of "mem_trading (sySymbol st)"] by (simp add: mem_trading_unfold)
    have "sys_step st (do_accept bytes cmd st)"
      using sys_step.Accept [OF a [unfolded Inr]] assms(2) o' by (simp add: do_accept_def a Inr accept_ok_def)
    then show ?thesis by (rule reachable.Step [OF assms(1)])
  qed
qed

lemma reach_enqueue: "reachable st0 st \<Longrightarrow> reachable st0 (do_enqueue st)"
  using sys_step.Enqueue [of st "[]"] by (auto simp: do_enqueue_def split: list.splits intro: reachable.Step)

lemma step_engine:
  assumes "syIn st = cmd # cmds" and "handle_command mem_log cmd (syEngine st, syLog st) = Some x"
    and "eSeq (syEngine st) + int (length (lg_ch (syLog (do_engine st)))) \<le> max_i64"
  shows "sys_step st (do_engine st)"
proof -
  obtain reply e' l' where x: "handle_command mem_log cmd (syEngine st, syLog st) = Some (reply, e', l')"
    using assms(2) by (cases x) auto
  show ?thesis using sys_step.EngineStep [OF assms(1) x] assms(3) by (simp add: do_engine_def assms(1) x)
qed

lemma reach_engine:
  assumes "reachable st0 st" and "eSeq (syEngine st) + int (length (lg_ch (syLog (do_engine st)))) \<le> max_i64"
  shows "reachable st0 (do_engine st)"
proof (cases "syIn st")
  case (Cons cmd cmds)
  show ?thesis
  proof (cases "handle_command mem_log cmd (syEngine st, syLog st)")
    case (Some x)
    then show ?thesis using reachable.Step [OF assms(1) step_engine [OF Cons Some assms(2)]] by simp
  qed (use assms Cons in \<open>simp add: do_engine_def\<close>)
qed (use assms in \<open>simp add: do_engine_def\<close>)

lemma reach_settle: "reachable st0 st \<Longrightarrow> reachable st0 (do_settle st)"
  by (auto simp: do_settle_def split: option.splits prod.splits intro: reachable.Step sys_step.Settle)

subsection \<open>The session\<close>

definition start_system :: system where
  "start_system = init_system ''VIB'' 0 ''p'' ex_clock ex_clock"

definition sell_cmd :: PlaceOrderCommand where
  "sell_cmd = \<lparr>pcUserID = ''ann'', pcSide = Sell, pcPrice = 10, pcQuantity = 5\<rparr>"

definition buy_cmd :: PlaceOrderCommand where
  "buy_cmd = \<lparr>pcUserID = ''eve'', pcSide = Buy, pcPrice = 12, pcQuantity = 8\<rparr>"

definition funded :: system where
  "funded = do_seed ''eve'' 1000 0 (do_seed ''ann'' 0 50 start_system)"

definition selling :: system where
  "selling = do_engine (do_enqueue (do_accept [1] sell_cmd funded))"

definition buying :: system where
  "buying = do_enqueue (do_accept [2] buy_cmd selling)"

definition matched :: system where
  "matched = do_engine buying"

definition drained :: system where
  "drained = do_settle (do_settle (do_settle (do_settle matched)))"

lemma session_reachable:
  "reachable start_system funded" "reachable start_system selling" "reachable start_system buying"
  "reachable start_system matched" "reachable start_system drained"
proof -
  have s1: "seed_ok ''ann'' 0 50 start_system" and s2: "seed_ok ''eve'' 1000 0 (do_seed ''ann'' 0 50 start_system)"
    and a1: "accept_ok [1] sell_cmd funded" and a2: "accept_ok [2] buy_cmd selling"
    and e1: "eSeq (syEngine (do_enqueue (do_accept [1] sell_cmd funded))) + int (length (lg_ch (syLog selling))) \<le> max_i64"
    and e2: "eSeq (syEngine buying) + int (length (lg_ch (syLog matched))) \<le> max_i64"
    by code_simp+
  show f: "reachable start_system funded"
    unfolding funded_def by (intro reach_seed s1 s2 reachable.Start)
  show s: "reachable start_system selling"
    unfolding selling_def by (intro reach_engine reach_enqueue reach_accept f a1) (use e1 in \<open>simp add: selling_def\<close>)
  show b: "reachable start_system buying"
    unfolding buying_def by (intro reach_enqueue reach_accept s a2)
  show m: "reachable start_system matched"
    unfolding matched_def by (intro reach_engine b) (use e2 in \<open>simp add: matched_def\<close>)
  show "reachable start_system drained"
    unfolding drained_def by (intro reach_settle m)
qed

text \<open>What the session looks like when the buy order has been matched, and after settlement.\<close>

lemma session_values:
  "length (lg_ch (syLog matched)) = 4" "lg_ch (syLog drained) = []" "syIn drained = []" "sySubmitting drained = []"
  "map_option (\<lambda>w. (COPAvailable w, COPLocked w, VibraniumAvailable w, VibraniumLocked w))
     (ws_view (stWallets (syStores matched)) ''eve'') = Some (904, 96, 0, 0)"
  "map_option (\<lambda>w. (COPAvailable w, COPLocked w, VibraniumAvailable w, VibraniumLocked w))
     (ws_view (stWallets (syStores drained)) ''eve'') = Some (914, 36, 5, 0)"
  "map_option (\<lambda>w. (COPAvailable w, COPLocked w, VibraniumAvailable w, VibraniumLocked w))
     (ws_view (stWallets (syStores drained)) ''ann'') = Some (50, 0, 45, 0)"
  by code_simp+

end
