(* ===== verification/Core_Claims.thy ===== *)
theory Core_Claims
  imports System Book_Claims
begin

section \<open>Claims about the wallets, the stores and the services\<close>

text \<open>
  Component by component: the wallet rules of \<open>wallet.go\<close>, the in-memory stores, the engine's
  stream of events, \<open>Trading\<close>, \<open>Settlement\<close>, seeding and reconciliation. The services are
  clients of the contracts in the theory of the ports; their claims rest on the
  interpretations of those contracts by the in-memory stores.
\<close>

subsection \<open>Wallets\<close>

definition ex_wallet :: wallet where
  "ex_wallet = \<lparr>wUserID = ''eve'', COPAvailable = 100, COPLocked = 0, VibraniumAvailable = 5, VibraniumLocked = 0\<rparr>"

text \<open>The wallet after a sequence of reservations and releases, failed ones included.\<close>

primrec wallet_run :: "wallet_op list \<Rightarrow> wallet \<Rightarrow> wallet" where
  "wallet_run [] w = w"
| "wallet_run (op # ops) w = wallet_run ops (snd (wallet_step op w))"

text \<open>Whatever sequence of reservations and releases is applied, with whatever amounts (negative
  and too large ones included), no balance of a sound wallet becomes negative and its total COP
  and Vibranium stay what they were.\<close>

theorem wallet_runs_conserve:
  assumes "wallet_ok w"
  shows "wallet_ok (wallet_run ops w) \<and> TotalCOP (wallet_run ops w) = TotalCOP w
    \<and> TotalVibranium (wallet_run ops w) = TotalVibranium w"
  using assms
proof (induction ops arbitrary: w)
  case (Cons op ops)
  then show ?case using wallet_step_ok [OF Cons.prems, of op] by simp
qed simp

theorem wallet_runs_conserve_witness:
  "TotalCOP (wallet_run [OpReserveCOP 40, OpReserveCOP 70, OpReleaseCOP (- 3), OpReleaseCOP 15] ex_wallet) = 100
   \<and> COPLocked (wallet_run [OpReserveCOP 40, OpReserveCOP 70, OpReleaseCOP (- 3), OpReleaseCOP 15] ex_wallet) = 25"
proof -
  have "wallet_ok ex_wallet" by code_simp
  moreover have "TotalCOP ex_wallet = 100"
    "COPLocked (wallet_run [OpReserveCOP 40, OpReserveCOP 70, OpReleaseCOP (- 3), OpReleaseCOP 15] ex_wallet) = 25"
    by code_simp+
  ultimately show ?thesis
    using wallet_runs_conserve [of ex_wallet "[OpReserveCOP 40, OpReserveCOP 70, OpReleaseCOP (- 3), OpReleaseCOP 15]"]
    by (simp del: wallet_run.simps)
qed

text \<open>An error of a wallet operation means that the wallet was not touched, and each operation
  fails exactly when an amount is negative or the balance it takes from is too small. This
  holds for all six methods and for every wallet.\<close>

theorem wallet_errors:
  "(fst (ReserveCOP a w) = None \<longleftrightarrow> 0 \<le> a \<and> a \<le> COPAvailable w)
   \<and> (fst (ReserveVibranium a w) = None \<longleftrightarrow> 0 \<le> a \<and> a \<le> VibraniumAvailable w)
   \<and> (fst (ReleaseCOP a w) = None \<longleftrightarrow> 0 \<le> a \<and> a \<le> COPLocked w)
   \<and> (fst (ReleaseVibranium a w) = None \<longleftrightarrow> 0 \<le> a \<and> a \<le> VibraniumLocked w)
   \<and> (fst (SettleBuy a b w) = None \<longleftrightarrow> 0 \<le> a \<and> 0 \<le> b \<and> a \<le> COPLocked w)
   \<and> (fst (SettleSell a b w) = None \<longleftrightarrow> 0 \<le> a \<and> 0 \<le> b \<and> a \<le> VibraniumLocked w)
   \<and> {snd x | x. x \<in> {ReserveCOP a w, ReserveVibranium a w, ReleaseCOP a w, ReleaseVibranium a w,
        SettleBuy a b w, SettleSell a b w} \<and> fst x \<noteq> None} \<subseteq> {w}"
  by (auto simp: wallet_ops_defs split: if_splits)

text \<open>Reservations one after the other: the accepted amounts, and the wallet.\<close>

primrec reserve_all :: "int list \<Rightarrow> wallet \<Rightarrow> int list \<times> wallet" where
  "reserve_all [] w = ([], w)"
| "reserve_all (a # as) w = (let (err, w1) = ReserveCOP a w; (acc, w2) = reserve_all as w1
     in (if err = None then a # acc else acc, w2))"

text \<open>C23. No double spend: of any number of reservations that race for one wallet, in any order, the
  accepted ones together never exceed what was available, and exactly their sum is locked.\<close>

theorem no_double_spend:
  assumes "wallet_ok w" and "reserve_all as w = (acc, w')"
  shows "sum_list acc \<le> COPAvailable w \<and> COPAvailable w' = COPAvailable w - sum_list acc
    \<and> COPLocked w' = COPLocked w + sum_list acc \<and> wallet_ok w'"
  using assms
proof (induction as arbitrary: w acc w')
  case (Cons a as)
  obtain err w1 acc1 where r: "ReserveCOP a w = (err, w1)" "reserve_all as w1 = (acc1, w')"
    and acc: "acc = (if err = None then a # acc1 else acc1)"
    using Cons.prems(2) by (auto simp: Let_def split: prod.splits)
  have ok: "wallet_ok w1" using wallet_step_ok [OF Cons.prems(1), of "OpReserveCOP a"] r(1) by simp
  have w1: "if err = None then COPAvailable w1 = COPAvailable w - a \<and> COPLocked w1 = COPLocked w + a \<and> a \<le> COPAvailable w
      else w1 = w"
  proof (cases err)
    case None
    then have "0 \<le> a" "a \<le> COPAvailable w" using r(1) by (auto simp: ReserveCOP_def split: if_splits)
    then show ?thesis using r(1) ReserveCOP_exact [OF Cons.prems(1)] None by auto
  qed (use wallet_error_unchanged [of "OpReserveCOP a" w] r(1) in auto)
  show ?case using Cons.IH [OF ok r(2)] w1 by (auto simp: acc split: if_splits)
qed (simp add: wallet_ok_def)

theorem no_double_spend_witness:
  "fst (reserve_all [60, 60, 30] ex_wallet) = [60, 30] \<and> COPLocked (snd (reserve_all [60, 60, 30] ex_wallet)) = 90"
proof -
  have "wallet_ok ex_wallet" "fst (reserve_all [60, 60, 30] ex_wallet) = [60, 30]" "COPLocked ex_wallet = 0" by code_simp+
  then show ?thesis
    using no_double_spend [of ex_wallet "[60, 60, 30]" "[60, 30]" "snd (reserve_all [60, 60, 30] ex_wallet)"]
    by (simp add: prod_eq_iff del: reserve_all.simps)
qed

text \<open>The value of an order at its limit price can leave the range of an \<open>int64\<close>: the order below
  passes validation, and the COP reserved for it is zero, so it is accepted from an empty wallet.\<close>

theorem reserved_cop_overflows:
  "\<exists>o' w. Validate o' = None \<and> oSide o' = Buy \<and> oPrice o' = 2 ^ 32 \<and> oQuantity o' = 2 ^ 32 \<and> ReservedCOP o' = 0
    \<and> COPAvailable w = 0 \<and> reserve_fn o' w = (None, w)"
  by (intro exI [of _ "mk_order ''x'' ''eve'' Buy (2 ^ 32) (2 ^ 32)"] exI [of _ "ex_wallet\<lparr>COPAvailable := 0\<rparr>"])
    (simp add: mk_order_def ex_wallet_def Validate_def side_Valid_def ReservedCOP_def mul64_def wrap64_def
      reserve_fn_def ReserveCOP_def add64_def sub64_def)

subsection \<open>The in-memory stores\<close>

text \<open>\<open>WalletStore.Update\<close> is atomic: either the function succeeded and exactly its user's wallet
  became what the function left, or an error is returned and every wallet is as before; no
  other wallet changes; \<open>Get\<close> then reads exactly what is stored; and a missing wallet is an error.\<close>

theorem wallet_update_atomic:
  "case WalletStore_Update c u f s of (r, s') \<Rightarrow>
     (case r of
        None \<Rightarrow> (\<exists>w. ws_view s u = Some w \<and> fst (f w) = None \<and> ws_view s' = (ws_view s)(u \<mapsto> snd (f w))
                  \<and> fst (WalletStore_Get c' u s') = Inr (snd (f w)))
      | Some e \<Rightarrow> ws_view s' = ws_view s
          \<and> (e = ErrWalletNotFound \<and> ws_view s u = None \<or> (\<exists>w. ws_view s u = Some w \<and> fst (f w) = Some e)))"
proof (cases "ws_view s u")
  case None
  then show ?thesis using mem_ledger.update_missing [of s u c f] by simp
next
  case (Some w)
  note e = mem_ledger.update_exact [of s u w c f, OF Some]
  show ?thesis
  proof (cases "fst (f w)")
    case None
    with e Some show ?thesis
      using mem_ledger.get_works [of c' u "snd (WalletStore_Update c u f s)"] by (simp add: case_prod_beta)
  qed (use e Some in \<open>simp add: case_prod_beta\<close>)
qed

text \<open>Any use of the store: upserts, and updates that keep the owner, as the services do them.\<close>

datatype store_op = OpUpsert wallet | OpUpdate string wallet_op

primrec store_step :: "store_op \<Rightarrow> WalletStore \<Rightarrow> WalletStore" where
  "store_step (OpUpsert w) s = snd (WalletStore_Upsert CtxLive w s)"
| "store_step (OpUpdate u op) s = snd (WalletStore_Update CtxLive u (wallet_step op) s)"

lemma wallet_step_user: "wUserID (snd (wallet_step op w)) = wUserID w"
  by (cases op) (auto simp: wallet_ops_defs)

lemma ws_wf_store_step: "ws_wf s \<Longrightarrow> ws_wf (store_step op s)"
  by (cases op) (simp_all add: ws_wf_Upsert ws_wf_Update wallet_step_user)

lemma ws_wf_fold: "ws_wf s \<Longrightarrow> ws_wf (fold store_step ops s)"
  by (induction ops arbitrary: s) (simp_all add: ws_wf_store_step)

text \<open>After any sequence of upserts and updates on a new store, \<open>List\<close> returns every wallet exactly
  once, sorted by user.\<close>

theorem wallet_list_complete:
  "\<exists>ws. fst (WalletStore_List c (fold store_step ops NewWalletStore)) = Inr ws
    \<and> sorted (map wUserID ws) \<and> distinct (map wUserID ws)
    \<and> (\<forall>w. w \<in> set ws \<longleftrightarrow> ws_view (fold store_step ops NewWalletStore) (wUserID w) = Some w)"
proof -
  let ?s = "fold store_step ops NewWalletStore"
  have wf: "ws_wf ?s" by (rule ws_wf_fold [OF ws_wf_New])
  obtain ws where l: "fst (WalletStore_List c ?s) = Inr ws" by (simp add: WalletStore_List_def)
  have "w \<in> set ws \<longleftrightarrow> ws_view ?s (wUserID w) = Some w" for w
    using List_sorted(3) [OF l wf] ws_wf_view [OF wf] by auto
  with List_sorted(1,2) [OF l wf] l show ?thesis by blast
qed

text \<open>The trade history returns what was appended, newest first: \<open>Recent\<close> the last \<open>limit\<close> trades
  (all for \<open>limit <= 0\<close>), \<open>Count\<close> their number.\<close>

theorem trade_history_roundtrip:
  "fst (TradeStore_Recent c limit (fold (\<lambda>t s. snd (TradeStore_Append c t s)) ts NewTradeStore))
     = Inr (if limit \<le> 0 then rev ts else take (nat limit) (rev ts))
   \<and> fst (TradeStore_Count c (fold (\<lambda>t s. snd (TradeStore_Append c t s)) ts NewTradeStore)) = Inr (int (length ts))"
proof -
  have "ts_trades (fold (\<lambda>t s. snd (TradeStore_Append c t s)) ts s) = ts_trades s @ ts" for s
    by (induction ts arbitrary: s) (simp_all add: TradeStore_Append_def)
  then show ?thesis by (simp add: TradeStore_Recent_eq TradeStore_Count_def NewTradeStore_def)
qed

subsection \<open>The engine's stream\<close>

definition empty_book :: abook where
  "empty_book = \<lparr>aBids = [], aAsks = []\<rparr>"

lemma absB_new: "absB (NewOrderBook symbol now) = empty_book"
  by (simp add: absB_def NewOrderBook_def empty_book_def)

lemma engine_run:
  assumes "cmds_ok {} cs"
  obtains rs e' l' evs where "run_commands mem_log cs (NewEngine symbol producer now booknow, NewLog buffer) = Some (rs, e', l')"
    and "lg_ch l' = stamp_events (NewEngine symbol producer now booknow) evs" and "book_wf (eBook e')"
    and "length rs = length cs" and "asteps cs empty_book = (map abs_event evs, absB (eBook e'))"
proof -
  let ?e = "NewEngine symbol producer now booknow"
  have "book_wf (eBook ?e)" "\<not> lg_closed (NewLog buffer)" "absB (eBook ?e) = empty_book" "lg_ch (NewLog buffer) = []"
    by (simp_all add: NewEngine_def book_wf_New NewLog_def absB_new)
  moreover have "aids empty_book \<subseteq> {}" by (simp add: aids_def aorders_def empty_book_def)
  ultimately show thesis
    using mem_sink.run_commands_works [of ?e "NewLog buffer" "{}" cs] assms that by auto
qed

text \<open>C21. The engine implements its specification on any sequence of commands with valid orders and
  identifiers of their own: it answers each command, never panics, its book stays well formed,
  and its stream and its book are those of the list specification \<open>asteps\<close>.\<close>

theorem engine_refines:
  assumes "cmds_ok {} cs"
  shows "\<exists>rs e' l'. run_commands mem_log cs (NewEngine symbol producer now booknow, NewLog buffer) = Some (rs, e', l')
    \<and> length rs = length cs \<and> book_wf (eBook e')
    \<and> asteps cs empty_book = (map abs_event (lg_ch l'), absB (eBook e'))"
proof -
  obtain rs e' l' evs where "run_commands mem_log cs (NewEngine symbol producer now booknow, NewLog buffer) = Some (rs, e', l')"
    and "lg_ch l' = stamp_events (NewEngine symbol producer now booknow) evs" and "book_wf (eBook e')"
    and "length rs = length cs" and "asteps cs empty_book = (map abs_event evs, absB (eBook e'))"
    by (rule engine_run [OF assms])
  then show ?thesis by auto
qed

definition ex_cmds :: "command list" where
  "ex_cmds = [cmdPlace ex_s1, cmdPlace ex_s2, cmdPlace ex_b1, cmdCancel ''s2'', cmdSnapshot 5]"

lemma ex_cmds_ok: "cmds_ok {} ex_cmds"
  by (simp add: ex_cmds_def) (simp add: ex_s1_def ex_s2_def ex_b1_def mk_order_def)

theorem engine_refines_witness:
  "\<exists>rs e' l'. run_commands mem_log ex_cmds (NewEngine ''VIB'' ''p'' ex_clock ex_clock, NewLog 0) = Some (rs, e', l')
    \<and> length rs = 5 \<and> asteps ex_cmds empty_book = (map abs_event (lg_ch l'), absB (eBook e'))"
  using engine_refines [OF ex_cmds_ok, of "''VIB''" "''p''" ex_clock ex_clock 0] by (auto simp: ex_cmds_def)

text \<open>What the engine does is determined by the commands alone: two engines with different clocks
  and identities, given the same commands, build the same book and publish the same events up to
  their stamps.\<close>

theorem engine_deterministic:
  assumes "cmds_ok {} cs"
    and "run_commands mem_log cs (NewEngine symbol p1 now1 bnow1, NewLog n1) = Some (rs1, e1, l1)"
    and "run_commands mem_log cs (NewEngine symbol p2 now2 bnow2, NewLog n2) = Some (rs2, e2, l2)"
  shows "absB (eBook e1) = absB (eBook e2) \<and> map abs_event (lg_ch l1) = map abs_event (lg_ch l2)"
proof -
  obtain evs1 where "lg_ch l1 = stamp_events (NewEngine symbol p1 now1 bnow1) evs1"
    and "asteps cs empty_book = (map abs_event evs1, absB (eBook e1))"
    using assms(2) by (auto intro: engine_run [OF assms(1), of symbol p1 now1 bnow1 n1])
  moreover obtain evs2 where "lg_ch l2 = stamp_events (NewEngine symbol p2 now2 bnow2) evs2"
    and "asteps cs empty_book = (map abs_event evs2, absB (eBook e2))"
    using assms(3) by (auto intro: engine_run [OF assms(1), of symbol p2 now2 bnow2 n2])
  ultimately show ?thesis by simp
qed

theorem engine_deterministic_witness:
  "\<exists>rs1 e1 l1 rs2 e2 l2.
     run_commands mem_log ex_cmds (NewEngine ''VIB'' ''p'' ex_clock ex_clock, NewLog 0) = Some (rs1, e1, l1)
   \<and> run_commands mem_log ex_cmds (NewEngine ''VIB'' ''q'' (\<lambda>n. 7) ex_clock, NewLog 3) = Some (rs2, e2, l2)
   \<and> map abs_event (lg_ch l1) = map abs_event (lg_ch l2)"
proof -
  obtain rs1 e1 l1 where 1: "run_commands mem_log ex_cmds (NewEngine ''VIB'' ''p'' ex_clock ex_clock, NewLog 0) = Some (rs1, e1, l1)"
    using engine_run [OF ex_cmds_ok, of "''VIB''" "''p''" ex_clock ex_clock 0] by blast
  obtain rs2 e2 l2 where 2: "run_commands mem_log ex_cmds (NewEngine ''VIB'' ''q'' (\<lambda>n. 7) ex_clock, NewLog 3) = Some (rs2, e2, l2)"
    using engine_run [OF ex_cmds_ok, of "''VIB''" "''q''" "\<lambda>n. 7" ex_clock 3] by blast
  from engine_deterministic [OF ex_cmds_ok 1 2] 1 2 show ?thesis by blast
qed

text \<open>C22. The events of one engine are numbered 1, 2, 3 and so on without gaps in the order they are
  published, and their identifiers are all different.\<close>

theorem event_stream_numbered:
  assumes "cmds_ok {} cs"
    and "run_commands mem_log cs (NewEngine symbol producer now booknow, NewLog buffer) = Some (rs, e', l')"
    and "int (length (lg_ch l')) \<le> max_i64"
  shows "map eSequence (lg_ch l') = map (\<lambda>k. 1 + int k) [0..<length (lg_ch l')] \<and> distinct (map eID (lg_ch l'))"
proof -
  let ?e = "NewEngine symbol producer now booknow"
  obtain evs where l: "lg_ch l' = stamp_events ?e evs"
    using assms(2) by (auto intro: engine_run [OF assms(1), of symbol producer now booknow buffer])
  have pre: "0 \<le> eSeq ?e" "eSeq ?e + int (length evs) \<le> max_i64"
    using assms(3) l by (simp_all add: NewEngine_def)
  have "map eSequence (lg_ch l') = map fst (map (\<lambda>ev. (eSequence ev, eID ev)) (stamp_events ?e evs))"
    by (simp add: l comp_def)
  also have "\<dots> = map (\<lambda>k. 1 + int k) [0..<length (lg_ch l')]"
    unfolding stamp_events_seq [OF pre] by (simp add: comp_def l NewEngine_def)
  finally show ?thesis using stamp_events_ids_distinct [OF pre] l by simp
qed

theorem event_stream_numbered_witness:
  "\<exists>rs e' l'. run_commands mem_log ex_cmds (NewEngine ''VIB'' ''p'' ex_clock ex_clock, NewLog 0) = Some (rs, e', l')
    \<and> map eSequence (lg_ch l') = [1, 2, 3, 4, 5, 6, 7, 8] \<and> distinct (map eID (lg_ch l'))"
proof -
  have "map_option (\<lambda>(rs, e', l'). length (lg_ch l'))
      (run_commands mem_log ex_cmds (NewEngine ''VIB'' ''p'' ex_clock ex_clock, NewLog 0)) = Some 8"
    by code_simp
  then obtain rs e' l' where r: "run_commands mem_log ex_cmds (NewEngine ''VIB'' ''p'' ex_clock ex_clock, NewLog 0) = Some (rs, e', l')"
    and n: "length (lg_ch l') = 8" by auto
  from event_stream_numbered [OF ex_cmds_ok r] n r show ?thesis by (simp add: upt_rec)
qed

end
