(* ===== verification/Service_Claims.thy ===== *)
theory Service_Claims
  imports Core_Claims
begin

section \<open>Claims about the services\<close>

text \<open>
  \<open>Trading\<close>, \<open>Settlement\<close>, seeding and reconciliation. Claims that hold for every adapter are
  stated over any record of ports; the others over the in-memory ones.
\<close>

subsection \<open>Trading\<close>

lemma accept_rejects:
  assumes "accept T c bytes t cmd s = (Inl (ord, err), s1)"
  obtains e reason where "err = Some e" and "tsMetrics s1 = tsMetrics s @ [MOrderRejected reason]"
    and "ord \<noteq> None \<longleftrightarrow> reason = ''insufficient_funds''" and "\<forall>o'. ord = Some o' \<longrightarrow> oStatus o' = StatusRejected"
proof -
  let ?o = "new_order (tdSymbol T) bytes t cmd"
  obtain r s2 where r: "reserve T c ?o s = (r, s2)" by fastforce
  then have m: "tsMetrics s2 = tsMetrics s" by (auto simp: reserve_def split: prod.splits)
  show thesis
  proof (cases "Validate ?o")
    case (Some e)
    with assms that [of e] show thesis by (auto simp: accept_def observe_def)
  next
    case None
    with assms r obtain e where e: "r = Some e" by (cases r) (auto simp: accept_def Let_def)
    show thesis
      using assms r None e m that [of e] that [of "ErrWrap ErrReservationFailed e"]
      by (auto simp: accept_def observe_def Let_def split: if_splits)
  qed
qed

text \<open>C25. Every outcome of \<open>PlaceOrder\<close>, whatever the adapters do: exactly one metric is reported; with
  no error there is an order, reported as placed; with an error the request is reported as
  rejected, and an order comes along only for insufficient funds, with status \<open>REJECTED\<close>.\<close>

theorem place_order_outcomes:
  assumes "PlaceOrder T c bytes now cmd s = Some ((ord, err), s')"
  shows "(\<exists>m. tsMetrics s' = tsMetrics s @ [m]
      \<and> (err = None \<longrightarrow> (\<exists>o' d. ord = Some o' \<and> m = MOrderPlaced (oSide o') (oStatus o') d))
      \<and> (err \<noteq> None \<longrightarrow> (\<exists>reason. m = MOrderRejected reason
          \<and> (ord \<noteq> None \<longleftrightarrow> reason = ''insufficient_funds'') \<and> (\<forall>o'. ord = Some o' \<longrightarrow> oStatus o' = StatusRejected))))"
proof -
  obtain r s1 where a: "accept T c bytes (now 1) cmd s = (r, s1)" by fastforce
  show ?thesis
  proof (cases r)
    case (Inl res)
    then have "accept T c bytes (now 1) cmd s = (Inl (ord, err), s')" using assms a by (auto simp: PlaceOrder_def)
    then show ?thesis by (rule accept_rejects) auto
  next
    case (Inr o')
    then have m: "tsMetrics s1 = tsMetrics s"
      using a by (auto simp: accept_def Let_def reserve_def case_prod_beta split: option.splits if_splits)
    obtain er eng where "(ord, err) = fst (complete T o' er (now 0) (now 2) (s1\<lparr>tsEngine := eng\<rparr>))"
      and "s' = snd (complete T o' er (now 0) (now 2) (s1\<lparr>tsEngine := eng\<rparr>))"
      using assms a Inr by (auto simp: PlaceOrder_def) (metis fst_conv snd_conv)
    then show ?thesis using m by (cases er) (simp_all add: complete_def release_def observe_def)
  qed
qed

text \<open>A state of the services with one funded wallet and an engine without orders.\<close>

definition ex_state :: "(nat \<Rightarrow> select_fate) \<Rightarrow> (WalletStore, Log engine_adapter, OrderStore) trading_state" where
  "ex_state fate = \<lparr>tsWallets = snd (WalletStore_Upsert CtxLive ex_wallet NewWalletStore),
     tsEngine = \<lparr>ea_engine = NewEngine ''VIB'' ''p'' ex_clock ex_clock, ea_log = NewLog 0, ea_fate = fate, ea_calls = 0\<rparr>,
     tsOrders = NewOrderStore, tsMetrics = []\<rparr>"

definition ex_cmd :: PlaceOrderCommand where
  "ex_cmd = \<lparr>pcUserID = ''eve'', pcSide = Buy, pcPrice = 9, pcQuantity = 4\<rparr>"

theorem place_order_outcomes_witness:
  "\<exists>ord err s'. PlaceOrder (mem_trading ''VIB'') CtxLive [1] ex_clock (ex_cmd\<lparr>pcQuantity := 40\<rparr>) (ex_state (\<lambda>_. Replied)) = Some ((ord, err), s')
    \<and> err = Some ErrInsufficientCOP \<and> (\<exists>o'. ord = Some o' \<and> oStatus o' = StatusRejected)"
proof -
  let ?r = "PlaceOrder (mem_trading ''VIB'') CtxLive [1] ex_clock (ex_cmd\<lparr>pcQuantity := 40\<rparr>) (ex_state (\<lambda>_. Replied))"
  have "map_option (\<lambda>((ord, err), s'). (err, ord \<noteq> None)) ?r = Some (Some ErrInsufficientCOP, True)" by code_simp
  then obtain ord s' where r: "?r = Some ((ord, Some ErrInsufficientCOP), s')" and "ord \<noteq> None" by auto
  with place_order_outcomes [OF r] show ?thesis by auto
qed

text \<open>A request that is turned down changes no wallet, does not reach the engine and does not touch
  the order projection, whatever it was turned down for; it is always reported with an error.\<close>

theorem rejected_request_leaves_no_trace:
  assumes "accept (mem_trading symbol) c bytes t cmd s = (Inl res, s1)"
  shows "ws_view (tsWallets s1) = ws_view (tsWallets s) \<and> tsEngine s1 = tsEngine s \<and> tsOrders s1 = tsOrders s
    \<and> snd res \<noteq> None"
proof -
  have T: "tdWallets (mem_trading symbol) = mem_wallets" by (simp add: mem_trading_unfold)
  show ?thesis using mem_ledger.accept_rejected [OF T assms] by simp
qed

theorem rejected_request_leaves_no_trace_witness:
  "\<exists>res s1. accept (mem_trading ''VIB'') CtxLive [1] 0 (ex_cmd\<lparr>pcUserID := ''bob''\<rparr>) (ex_state (\<lambda>_. Replied)) = (Inl res, s1)
    \<and> ws_view (tsWallets s1) = ws_view (tsWallets (ex_state (\<lambda>_. Replied))) \<and> snd res = Some ErrWalletNotFound"
proof -
  let ?r = "accept (mem_trading ''VIB'') CtxLive [1] 0 (ex_cmd\<lparr>pcUserID := ''bob''\<rparr>) (ex_state (\<lambda>_. Replied))"
  have "(case fst ?r of Inl res \<Rightarrow> snd res | Inr x \<Rightarrow> None) = Some ErrWalletNotFound" by code_simp
  then obtain res s1 where r: "?r = (Inl res, s1)" and "snd res = Some ErrWalletNotFound"
    by (cases ?r) (auto split: sum.splits)
  with rejected_request_leaves_no_trace [OF r] show ?thesis by auto
qed

text \<open>C26. The compensation is exact: when the engine does not take an accepted order before the context
  of the request ends, the caller gets the context error and every wallet, the book and the event
  log are as they were before the request.\<close>

theorem compensation_restores_wallets:
  assumes r: "PlaceOrder (mem_trading symbol) CtxDone bytes now cmd s = Some (res, s')"
    and fate: "ea_fate (tsEngine s) (ea_calls (tsEngine s)) = NotEnqueued"
    and valid: "Validate (new_order symbol bytes (now 1) cmd) = None" "fits (new_order symbol bytes (now 1) cmd)"
    and ok: "\<And>w. ws_view (tsWallets s) (pcUserID cmd) = Some w \<Longrightarrow> wallet_ok w"
  shows "ws_view (tsWallets s') = ws_view (tsWallets s) \<and> ea_engine (tsEngine s') = ea_engine (tsEngine s)
    \<and> ea_log (tsEngine s') = ea_log (tsEngine s) \<and> snd res \<noteq> None"
proof -
  let ?T = "mem_trading symbol"
  have T: "tdWallets ?T = mem_wallets" by (simp add: mem_trading_unfold)
  obtain a s1 where acc: "accept ?T CtxDone bytes (now 1) cmd s = (a, s1)" by fastforce
  show ?thesis
  proof (cases a)
    case (Inl x)
    with r acc have "res = x" "s' = s1" by (auto simp: PlaceOrder_def)
    with rejected_request_leaves_no_trace acc Inl show ?thesis
      using mem_ledger.accept_rejected [OF T] by metis
  next
    case (Inr o')
    have o': "o' = new_order symbol bytes (now 1) cmd"
      using accept_order [of ?T] acc Inr by (simp add: mem_trading_unfold)
    note acc' = acc [unfolded Inr]
    have e1: "tsEngine s1 = tsEngine s" using mem_ledger.accept_accepted(2) [OF T acc'] by simp
    have "me_Place (tdEngine ?T) CtxDone o' (tsEngine s1)
        = Some (Inl ErrContext, (tsEngine s)\<lparr>ea_calls := Suc (ea_calls (tsEngine s))\<rparr>)"
      using fate by (simp add: e1 mem_trading_unfold engine_port_def Engine_Place_def submit_def call_fate_def Let_def reply_order_def)
    then have c: "(res, s') = complete ?T o' (Inl ErrContext) (now 0) (now 2)
        (s1\<lparr>tsEngine := (tsEngine s)\<lparr>ea_calls := Suc (ea_calls (tsEngine s))\<rparr>\<rparr>)"
      using r acc Inr by (simp add: PlaceOrder_def)
    have "ws_view (tsWallets (snd (complete ?T o' (Inl ErrContext) (now 0) (now 2)
        (s1\<lparr>tsEngine := (tsEngine s)\<lparr>ea_calls := Suc (ea_calls (tsEngine s))\<rparr>\<rparr>)))) = ws_view (tsWallets s)"
      by (rule mem_ledger.place_compensated [OF T acc']) (use ok valid o' in simp_all)
    then have "ws_view (tsWallets s') = ws_view (tsWallets s)" unfolding c [symmetric] by simp
    moreover have "tsEngine s' = (tsEngine s)\<lparr>ea_calls := Suc (ea_calls (tsEngine s))\<rparr>" "snd res \<noteq> None"
      using c by (auto simp: complete_def observe_def release_def)
    ultimately show ?thesis by simp
  qed
qed

theorem compensation_restores_wallets_witness:
  "\<exists>res s'. PlaceOrder (mem_trading ''VIB'') CtxDone [1] ex_clock ex_cmd (ex_state (\<lambda>_. NotEnqueued)) = Some (res, s')
    \<and> snd res = Some ErrContext \<and> ws_view (tsWallets s') ''eve'' = Some ex_wallet"
proof -
  let ?s = "ex_state (\<lambda>_. NotEnqueued)"
  let ?r = "PlaceOrder (mem_trading ''VIB'') CtxDone [1] ex_clock ex_cmd ?s"
  have "map_option (\<lambda>(res, s'). snd res) ?r = Some (Some ErrContext)" by code_simp
  then obtain res s' where r: "?r = Some (res, s')" and e: "snd res = Some ErrContext" by auto
  have v: "Validate (new_order ''VIB'' [1] (ex_clock 1) ex_cmd) = None" "fits (new_order ''VIB'' [1] (ex_clock 1) ex_cmd)"
    "ea_fate (tsEngine ?s) (ea_calls (tsEngine ?s)) = NotEnqueued" by code_simp+
  have w: "ws_view (tsWallets ?s) ''eve'' = Some ex_wallet" and ok: "wallet_ok ex_wallet" by code_simp+
  have "ws_view (tsWallets s') = ws_view (tsWallets ?s)"
    using compensation_restores_wallets [OF r v(3,1,2)] w ok by (simp add: ex_cmd_def)
  with r e w show ?thesis by auto
qed


subsection \<open>Settlement\<close>

text \<open>C24. Redelivery moves no money: settling a stream in which events are repeated in any way, also
  across restarts of the consumer, leaves the same wallets, trade history and order projection
  as settling only the first delivery of each event.\<close>

theorem settlement_effectively_once:
  "moved (run_settlement mem_settlement c evs s)
     = moved (run_settlement mem_settlement c (first_seen (set (jr_seen (stJournal s))) evs) s)
   \<and> distinct (map (\<lambda>x. eID (snd x)) (first_seen (set (jr_seen (stJournal s))) evs))"
proof -
  have "distinct (map (\<lambda>x. eID (snd x)) (first_seen A evs)) \<and> (\<lambda>x. eID (snd x)) ` set (first_seen A evs) \<inter> A = {}" for A
    by (induction A evs rule: first_seen.induct) auto
  moreover have "spJournal mem_settlement = mem_journal" by (simp add: mem_settlement_unfold)
  ultimately show ?thesis using mem_marks.run_first_seen [of mem_settlement s s c evs] by simp
qed

text \<open>Settlement fails closed: when the journal cannot answer, whatever the adapter, the event is
  not applied at all, and the failure is logged and reported as a metric.\<close>

theorem journal_failure_skips_event:
  assumes "ej_MarkProcessed (spJournal S) c (eID ev) (stJournal s) = (Inl e, j)"
  shows "moved (handle S c t ev s) = moved s \<and> stLog (handle S c t ev s) = stLog s @ [LogJournalUnavailable (eID ev) e]
    \<and> stMetrics (handle S c t ev s) = stMetrics s @ [MSettlementApplied (eType ev) 0 (Some e)]"
  using assms by (simp add: handle_def moved_def)

theorem journal_failure_skips_event_witness:
  "moved (handle (mem_settlement\<lparr>spJournal := \<lparr>ej_MarkProcessed = (\<lambda>c i j. (Inl (ErrInfra ''down''), j))\<rparr>\<rparr>)
     CtxLive 0 (new_event EventTrade) init_stores) = moved init_stores"
  using journal_failure_skips_event [of "mem_settlement\<lparr>spJournal := \<lparr>ej_MarkProcessed = (\<lambda>c i j. (Inl (ErrInfra ''down''), j))\<rparr>\<rparr>"
    CtxLive "new_event EventTrade" init_stores "ErrInfra ''down''" "stJournal init_stores" 0] by simp

definition ex_trade :: trade where
  "ex_trade = \<lparr>tID = ''VIB-1'', tSymbol = ''VIB'', tPrice = 10, tQuantity = 3, tBuyOrderID = ''b'', tSellOrderID = ''s'',
     tBuyerID = ''eve'', tSellerID = ''ann'', tSequence = 1, tExecutedAt = 0\<rparr>"

definition ex_stores :: "(WalletStore, Journal, TradeStore, OrderStore) stores" where
  "ex_stores = init_stores\<lparr>stWallets := fold store_step [OpUpsert ex_wallet, OpUpsert
     \<lparr>wUserID = ''ann'', COPAvailable = 0, COPLocked = 0, VibraniumAvailable = 0, VibraniumLocked = 3\<rparr>] NewWalletStore\<rparr>"

text \<open>The two legs of a trade are separate updates: when the buyer has nothing locked, its leg fails
  and is logged, yet the seller is still paid and the trade recorded. What keeps this from
  happening is that locked funds always cover what is owed.\<close>

theorem trade_legs_not_atomic:
  "(let s' = applyTrade mem_settlement CtxLive (Some ex_trade) ex_stores
    in stLog s' = [LogSettleBuyFailed ''VIB-1'' ''eve'' ErrInsufficientLocked]
     \<and> ws_view (stWallets s') ''eve'' = Some ex_wallet
     \<and> map_option COPAvailable (ws_view (stWallets s') ''ann'') = Some 30
     \<and> ts_trades (stTrades s') = [ex_trade])"
  by code_simp

subsection \<open>Seeding and reconciliation\<close>

text \<open>Seeding checks its arguments and then replaces the wallet of exactly that user; what the user
  had locked is gone, and the other wallets stay. Bad arguments change nothing.\<close>

theorem seed_replaces_wallet:
  "case Wallets_Seed mem_wallets c u cop vib s of (r, s') \<Rightarrow>
     (case r of
        Inl e \<Rightarrow> ws_view s' = ws_view s \<and> (u = [] \<and> e = ErrMissingUser \<or> u \<noteq> [] \<and> (cop < 0 \<or> vib < 0) \<and> e = ErrInvalidBalance)
      | Inr w \<Rightarrow> u \<noteq> [] \<and> 0 \<le> cop \<and> 0 \<le> vib \<and> ws_view s' = (ws_view s)(u \<mapsto> w)
          \<and> (COPAvailable w, COPLocked w, VibraniumAvailable w, VibraniumLocked w) = (cop, 0, vib, 0))"
  by (auto simp: Wallets_Seed_def WalletStore_Upsert_def ws_view_def map_of_update Let_def)

text \<open>Reconciliation speaks up exactly when the totals moved: with a baseline, a sample adds a line to
  the log if and only if the COP or Vibranium total differs from the last one, always reports the
  totals as a metric, and takes them as the new baseline; it never changes a wallet.\<close>

theorem sample_detects_change:
  assumes "haveBase r" and "fst (WalletStore_List c s) = Inr ws"
  shows "(rcLog (snd (sample mem_wallets c s r)) = rcLog r \<longleftrightarrow> totals ws = (baselineCOP r, baselineVib r))
    \<and> (let r' = snd (sample mem_wallets c s r) in (baselineCOP r', baselineVib r') = totals ws
        \<and> rcMetrics r' = rcMetrics r @ [MMoneySupply (fst (totals ws)) (snd (totals ws))])
    \<and> fst (sample mem_wallets c s r) = s"
proof -
  have l: "wr_List mem_wallets c s = (Inr ws, s)" using assms(2) by (auto simp: WalletStore_List_def)
  show ?thesis
    using sample_reports [OF assms(1) l] assms(1) l by (auto simp: sample_def Let_def case_prod_beta)
qed

theorem sample_detects_change_witness:
  "rcLog (snd (sample mem_wallets CtxLive (stWallets ex_stores)
      (NewReconciliation\<lparr>haveBase := True, baselineCOP := 100, baselineVib := 8\<rparr>))) = []"
proof -
  let ?r = "NewReconciliation\<lparr>haveBase := True, baselineCOP := 100, baselineVib := 8\<rparr>"
  obtain ws where l: "fst (WalletStore_List CtxLive (stWallets ex_stores)) = Inr ws" by (simp add: WalletStore_List_def)
  have "(case fst (WalletStore_List CtxLive (stWallets ex_stores)) of Inl e \<Rightarrow> None | Inr ws \<Rightarrow> Some (totals ws)) = Some (100, 8)"
    by code_simp
  with l have "totals ws = (100, 8)" by simp
  moreover have "haveBase ?r" "rcLog ?r = []" by (simp_all add: NewReconciliation_def)
  ultimately show ?thesis using sample_detects_change [of ?r CtxLive "stWallets ex_stores" ws] l by simp
qed

end
