(* ===== verification/Store_Claims.thy ===== *)
theory Store_Claims
  imports Rediscache Delivery Pipeline Service_Claims
begin

section \<open>Claims about the durable adapters\<close>

text \<open>
  Postgres, the Redis cache and the Kafka log: what they keep when a part fails, and what a
  crash or a lost answer costs.
\<close>

subsection \<open>Postgres\<close>

text \<open>C30. An update of a wallet on Postgres has three outcomes, whatever the database answers to the
  statements of the transaction: it reports an error and no wallet changed; or the domain
  function accepted, the check constraints hold and exactly this row is written, and it reports
  success; or the same is written and the reported error is that the answer of the commit was
  lost.\<close>

theorem postgres_update_outcomes:
  assumes "PgWallets_Update orc c u f db = (r, db')" and "keeps_user f"
  shows "pg_view db' = pg_view db \<and> r \<noteq> None
    \<or> (\<exists>w. pg_view db u = Some w \<and> fst (f w) = None \<and> wallet_check (snd (f w))
        \<and> pg_view db' = (pg_view db)(u \<mapsto> snd (f w))
        \<and> (r = None \<or> (\<exists>n e. orc n = PgLost e \<and> r = Some (Errorf (''commit wallet '' @ u) e))))"
  by (rule PgWallets_Update_cases [OF assms])

definition ex_pg :: pg where
  "ex_pg = \<lparr>pgWallets = [(''eve'', ex_wallet)], pgTrades = [], pgOrders = [], pgEvents = [], pgCalls = 0\<rparr>"

theorem postgres_update_outcomes_witness:
  "\<exists>r db'. PgWallets_Update (\<lambda>n. PgOk) CtxLive ''eve'' (ReserveCOP 36) ex_pg = (r, db') \<and> r = None
    \<and> pg_view db' = (pg_view ex_pg)(''eve'' \<mapsto> ex_wallet\<lparr>COPAvailable := 64, COPLocked := 36\<rparr>)"
proof -
  obtain r db' where u: "PgWallets_Update (\<lambda>n. PgOk) CtxLive ''eve'' (ReserveCOP 36) ex_pg = (r, db')" by fastforce
  have "fst (PgWallets_Update (\<lambda>n. PgOk) CtxLive ''eve'' (ReserveCOP 36) ex_pg) = None"
    "pg_view ex_pg ''eve'' = Some ex_wallet" "ReserveCOP 36 ex_wallet = (None, ex_wallet\<lparr>COPAvailable := 64, COPLocked := 36\<rparr>)"
    by code_simp+
  with postgres_update_outcomes [OF u] u show ?thesis by auto
qed

text \<open>A lost answer locks funds for nobody: when the commit of a reservation happens but its answer is
  lost, \<open>PlaceOrder\<close> reports that the reservation failed, gives the order to no one, and the
  36 COP of the order stay locked, since only a failure of the engine is compensated.\<close>

definition pg_trading :: "pg_oracle \<Rightarrow> (pg, Log engine_adapter, OrderStore, BookSnapshot) Trading" where
  "pg_trading orc = \<lparr>tdSymbol = ''VIB'', tdEngine = engine_port mem_log, tdWallets = pg_wallets orc, tdOrders = mem_orders\<rparr>"

definition ex_pg_state :: "(pg, Log engine_adapter, OrderStore) trading_state" where
  "ex_pg_state = \<lparr>tsWallets = ex_pg,
     tsEngine = \<lparr>ea_engine = NewEngine ''VIB'' ''p'' ex_clock ex_clock, ea_log = NewLog 0, ea_fate = (\<lambda>_. Replied), ea_calls = 0\<rparr>,
     tsOrders = NewOrderStore, tsMetrics = []\<rparr>"

theorem lost_commit_locks_funds:
  "\<exists>err s'. PlaceOrder (pg_trading (\<lambda>n. if n = 3 then PgLost ErrContext else PgOk)) CtxLive [1] ex_clock ex_cmd ex_pg_state
      = Some ((None, Some err), s')
    \<and> errors_Is err ErrReservationFailed \<and> tsEngine s' = tsEngine ex_pg_state
    \<and> map_option COPLocked (pg_view (tsWallets s') ''eve'') = Some 36"
proof -
  let ?r = "PlaceOrder (pg_trading (\<lambda>n. if n = 3 then PgLost ErrContext else PgOk)) CtxLive [1] ex_clock ex_cmd ex_pg_state"
  have 1: "map_option (\<lambda>x. map_option COPLocked (pg_view (tsWallets (snd x)) ''eve'')) ?r = Some (Some 36)"
    "map_option (\<lambda>x. fst (fst x)) ?r = Some None"
    "map_option (\<lambda>x. map_option (\<lambda>e. errors_Is e ErrReservationFailed) (snd (fst x))) ?r = Some (Some True)"
    by code_simp+
  have "fst (accept (pg_trading (\<lambda>n. if n = 3 then PgLost ErrContext else PgOk)) CtxLive [1] (ex_clock 1) ex_cmd ex_pg_state)
      = Inl (None, Some (ErrWrap ErrReservationFailed (Errorf ''commit wallet eve'' ErrContext)))"
    by code_simp
  then obtain s1 where a: "accept (pg_trading (\<lambda>n. if n = 3 then PgLost ErrContext else PgOk)) CtxLive [1] (ex_clock 1) ex_cmd ex_pg_state
      = (Inl (None, Some (ErrWrap ErrReservationFailed (Errorf ''commit wallet eve'' ErrContext))), s1)"
    by (metis prod.collapse)
  then have "tsEngine s1 = tsEngine ex_pg_state"
    by (auto simp: accept_def reserve_def observe_def Let_def split: option.splits prod.splits if_splits)
  with 1 a show ?thesis by (auto simp: PlaceOrder_def)
qed

lemma handle_lost_mark:
  assumes "spJournal S = pg_journal orc" and "orc (pgCalls (stJournal s)) = PgLost e"
  shows "moved (handle S c t ev s) = moved s" and "eID ev \<in> set (pgEvents (stJournal (handle S c t ev s)))"
  using assms by (auto simp: handle_def PgJournal_MarkProcessed_def pg_exec_def pg_next_def moved_def Let_def)

lemma redeliveries_move_nothing:
  assumes "spJournal S = pg_journal orc" and "eID ev \<in> set (pgEvents (stJournal s))"
    and "list_all (\<lambda>x. eID (snd x) = eID ev) evs"
  shows "moved (run_settlement S c evs s) = moved s"
  using assms(2,3)
proof (induction evs arbitrary: s)
  case (Cons x evs)
  obtain t ev' where x: "x = (t, ev')" by (cases x)
  with Cons.prems have i: "eID ev' \<in> set (pgEvents (stJournal s))" by simp
  have "eID ev \<in> set (pgEvents (stJournal (handle S c t ev' s)))"
    using pg_marks.handle_processed_mono [OF assms(1), of s c t ev'] Cons.prems(1) by auto
  from Cons.IH [OF this] Cons.prems pg_marks.handle_duplicate [OF assms(1) i, of c t] show ?case
    by (simp add: x moved_def)
qed simp

text \<open>The journal marks an event before it is applied, in a statement of its own: when the answer to a
  mark is lost, the event is neither applied then nor on any of its redeliveries, so no wallet,
  trade or order ever shows it.\<close>

theorem lost_mark_loses_event:
  assumes "spJournal S = pg_journal orc" and "orc (pgCalls (stJournal s)) = PgLost e"
    and "list_all (\<lambda>x. eID (snd x) = eID ev) redelivered"
  shows "moved (run_settlement S c ((t, ev) # redelivered) s) = moved s"
  using redeliveries_move_nothing [OF assms(1) handle_lost_mark(2) assms(3), OF assms(1,2)] handle_lost_mark(1) [OF assms(1,2)]
  by simp

definition ex_pg_settlement :: "pg_oracle \<Rightarrow> (WalletStore, pg, TradeStore, OrderStore) Settlement" where
  "ex_pg_settlement orc = \<lparr>spJournal = pg_journal orc, spWallets = mem_wallets, spTrades = mem_trades, spOrders = mem_orders\<rparr>"

definition ex_pg_stores :: "(WalletStore, pg, TradeStore, OrderStore) stores" where
  "ex_pg_stores = \<lparr>stWallets = stWallets ex_stores, stJournal = ex_pg, stTrades = NewTradeStore, stOrders = NewOrderStore,
     stMetrics = [], stLog = []\<rparr>"

definition ex_trade_event :: event where
  "ex_trade_event = (new_event EventTrade)\<lparr>eID := ''p-1'', eTrade := Some ex_trade\<rparr>"

theorem lost_mark_loses_event_witness:
  "let S = ex_pg_settlement (\<lambda>n. if n = 0 then PgLost ErrContext else PgOk)
   in moved (run_settlement S CtxLive ((1, ex_trade_event) # [(2, ex_trade_event), (3, ex_trade_event)]) ex_pg_stores)
      = moved ex_pg_stores"
  unfolding Let_def
  by (rule lost_mark_loses_event [where orc = "\<lambda>n. if n = 0 then PgLost ErrContext else PgOk" and e = ErrContext])
    (simp_all add: ex_pg_settlement_def ex_pg_stores_def ex_pg_def)

text \<open>The order projection on Postgres keeps the row of the higher sequence number and otherwise the
  row written last: of two snapshots of one order, which carry the same sequence number, the
  one that arrives last wins, however old it is. What identifies the order never changes.\<close>

theorem order_row_last_write_wins:
  assumes "\<And>n. orc n = PgOk" and "oID y = oID x" and "map_of (pgOrders db) (oID x) = None"
  shows "\<exists>r db'. PgOrders_Get orc c (oID x) (snd (PgOrders_Upsert tz orc c y (snd (PgOrders_Upsert tz orc c x db)))) = (Inr (Some r), db')
    \<and> oStatus r = (if oSequence x \<le> oSequence y then oStatus y else oStatus x)
    \<and> oFilledQuantity r = (if oSequence x \<le> oSequence y then oFilledQuantity y else oFilledQuantity x)
    \<and> oSequence r = max (oSequence x) (oSequence y)
    \<and> oUserID r = oUserID x \<and> oSide r = oSide x \<and> oPrice r = oPrice x \<and> oQuantity r = oQuantity x"
  using assms
  by (auto simp: PgOrders_Get_def PgOrders_Upsert_def pg_query_def pg_exec_def pg_next_def map_of_update order_row_def merge_order_def Let_def)

theorem order_row_last_write_wins_witness:
  "\<exists>r db'. PgOrders_Get (\<lambda>n. PgOk) CtxLive ''s1''
      (snd (PgOrders_Upsert id (\<lambda>n. PgOk) CtxLive (ex_s1\<lparr>oSequence := 1, oStatus := StatusPartiallyFilled, oFilledQuantity := 2\<rparr>)
        (snd (PgOrders_Upsert id (\<lambda>n. PgOk) CtxLive (ex_s1\<lparr>oSequence := 1, oStatus := StatusFilled, oFilledQuantity := 5\<rparr>) ex_pg))))
      = (Inr (Some r), db') \<and> oStatus r = StatusPartiallyFilled \<and> oFilledQuantity r = 2"
proof -
  have i: "oID ex_s1 = ''s1''" by code_simp
  let ?x = "ex_s1\<lparr>oSequence := 1, oStatus := StatusFilled, oFilledQuantity := 5\<rparr>"
  let ?y = "ex_s1\<lparr>oSequence := 1, oStatus := StatusPartiallyFilled, oFilledQuantity := 2\<rparr>"
  have "map_of (pgOrders ex_pg) (oID ?x) = None" by (simp add: ex_pg_def)
  from order_row_last_write_wins [OF refl, of ?y ?x ex_pg CtxLive id] this i show ?thesis by auto
qed

text \<open>After a restart of the engine the trade history loses trades: trade identifiers are the symbol
  and a counter that starts again at 1, and the insert ignores an identifier that is there. The
  trade of the new run is dropped without an error.\<close>

theorem restarted_engine_trades_dropped:
  assumes "\<And>n. orc n = PgOk" and "bSymbol b' = bSymbol b" and "tradeSeq b' = tradeSeq b"
  shows "fst (PgTrades_Append tz orc c (mk_trade b' taker' maker' qty' at') (snd (PgTrades_Append tz orc c (mk_trade b taker maker qty at) db))) = None
    \<and> pgTrades (snd (PgTrades_Append tz orc c (mk_trade b' taker' maker' qty' at') (snd (PgTrades_Append tz orc c (mk_trade b taker maker qty at) db))))
      = pgTrades (snd (PgTrades_Append tz orc c (mk_trade b taker maker qty at) db))"
proof -
  have "tID (mk_trade b' taker' maker' qty' at') = tID (mk_trade b taker maker qty at)"
    using assms(2,3) by (simp add: mk_trade_def Let_def)
  then show ?thesis using assms(1) by (auto simp: PgTrades_Append_def pg_exec_def pg_next_def)
qed

theorem restarted_engine_trades_dropped_witness:
  "let first = mk_trade (ex_new\<lparr>tradeSeq := 1\<rparr>) ex_b1 ex_s1 5 1; second = mk_trade (ex_new\<lparr>tradeSeq := 1\<rparr>) ex_b2 ex_s2 4 9;
       db = snd (PgTrades_Append id (\<lambda>n. PgOk) CtxLive first ex_pg)
   in fst (PgTrades_Append id (\<lambda>n. PgOk) CtxLive second db) = None
      \<and> pgTrades (snd (PgTrades_Append id (\<lambda>n. PgOk) CtxLive second db)) = pgTrades db \<and> first \<noteq> second"
proof -
  have "mk_trade (ex_new\<lparr>tradeSeq := 1\<rparr>) ex_b1 ex_s1 5 1 \<noteq> mk_trade (ex_new\<lparr>tradeSeq := 1\<rparr>) ex_b2 ex_s2 4 9"
    by (simp add: mk_trade_def Let_def)
  with restarted_engine_trades_dropped [OF refl, of "ex_new\<lparr>tradeSeq := 1\<rparr>" "ex_new\<lparr>tradeSeq := 1\<rparr>"] show ?thesis
    unfolding Let_def by simp
qed

subsection \<open>The Redis cache\<close>

text \<open>C31. As long as Redis does what it is told (answers may get lost) and requests come one at a time, the
  cache is invisible: any list of calls gets the same answers with the cache in front of the
  in-memory store as without it, and leaves the same wallets.\<close>

theorem cache_transparent:
  assumes "redis_does env"
  shows "fst (wallet_calls (wallet_cache env ttl mem_wallets) calls (NewWalletCache s)) = fst (wallet_calls mem_wallets calls s)
    \<and> wcInner (snd (wallet_calls (wallet_cache env ttl mem_wallets) calls (NewWalletCache s))) = snd (wallet_calls mem_wallets calls s)"
proof -
  have "coherent ws_view (NewWalletCache s)" by (simp add: coherent_def NewWalletCache_def)
  from cached_calls [OF this assms] show ?thesis by (simp add: NewWalletCache_def)
qed

definition ex_redis :: redis_env where
  "ex_redis = \<lparr>rdFate = (\<lambda>_. RedisOk), rdTime = ex_clock\<rparr>"

definition ex_calls :: "(ctx \<times> wallet_call) list" where
  "ex_calls = [(CtxLive, CallUpsert ex_wallet), (CtxLive, CallGet ''eve''), (CtxLive, CallUpdate ''eve'' (ReserveCOP 36)),
     (CtxLive, CallGet ''eve'')]"

theorem cache_transparent_witness:
  "fst (wallet_calls (wallet_cache ex_redis 0 mem_wallets) ex_calls (NewWalletCache NewWalletStore))
    = [AnswerDone None, AnswerWallet (Inr ex_wallet), AnswerDone None,
       AnswerWallet (Inr (ex_wallet\<lparr>COPAvailable := 64, COPLocked := 36\<rparr>))]"
proof -
  have "redis_does ex_redis" by (simp add: redis_does_def ex_redis_def is_done_def)
  moreover have "fst (wallet_calls mem_wallets ex_calls NewWalletStore) = [AnswerDone None, AnswerWallet (Inr ex_wallet), AnswerDone None,
       AnswerWallet (Inr (ex_wallet\<lparr>COPAvailable := 64, COPLocked := 36\<rparr>))]"
    by code_simp
  ultimately show ?thesis using cache_transparent by metis
qed

text \<open>Two requests at a time can leave a stale wallet in the cache: a \<open>Get\<close> that missed and asked the
  repository before an \<open>Update\<close>, and that fills the cache after the \<open>Update\<close> invalidated it,
  puts back the old balance. The next \<open>Get\<close> answers it although the repository has 36 COP less
  available.\<close>

theorem cache_race_reads_stale:
  "let s0 = NewWalletCache (snd (WalletStore_Upsert CtxLive ex_wallet NewWalletStore));
       (miss, s1) = cache_lookup ex_redis ''eve'' s0;
       (old, i1) = WalletStore_Get CtxLive ''eve'' (wcInner s1);
       (done, s2) = WalletCache_Update ex_redis mem_wallets CtxLive ''eve'' (ReserveCOP 36) (s1\<lparr>wcInner := i1\<rparr>);
       s3 = cache_fill ex_redis 0 ''eve'' (projr old) s2
   in miss = None \<and> done = None
      \<and> fst (WalletCache_Get ex_redis 0 mem_wallets CtxLive ''eve'' s3) = Inr ex_wallet
      \<and> ws_view (wcInner s3) ''eve'' = Some (ex_wallet\<lparr>COPAvailable := 64, COPLocked := 36\<rparr>)"
  by code_simp

subsection \<open>The Kafka log\<close>

text \<open>C32. The durable log delivers in order and drops nothing by itself: however publishing, producing,
  delivery to the broker, consuming, receiving and commits interleave, what settlement
  received, followed by what is on its way, is what the engine published, in the same order. If
  the broker refuses records, those are missing and the rest is still in order.\<close>

theorem kafka_delivers_in_order:
  assumes "codec_ok c" and "krun c steps (new_klog buffer [] 0) = Some l" and "list_all (\<lambda>x. x \<noteq> KCrash) steps"
  shows "subseq (in_flight c l) (filter (marshals c) (kPublished l))
    \<and> (list_all faultless steps \<longrightarrow> in_flight c l = filter (marshals c) (kPublished l))
    \<and> prefix (kSettled l) (in_flight c l)"
proof -
  have "offsets_ok (new_klog buffer [] 0)" by (simp add: offsets_ok_def new_klog_def)
  from krun_in_flight [OF assms(1) this assms(2,3)] show ?thesis
    by (auto simp: in_flight_def new_klog_def)
qed

definition ex_steps :: "kstep list" where
  "ex_steps = [KStart, KPublish ex_trade_event, KProduce, KDeliver, KPublish (ex_trade_event\<lparr>eID := ''p-2''\<rparr>), KConsume,
     KReceive, KProduce, KCommit]"

lemma map_option_Some_elim: "map_option f x = Some y \<Longrightarrow> (\<And>z. x = Some z \<Longrightarrow> f z = y \<Longrightarrow> P) \<Longrightarrow> P"
  by auto

theorem kafka_delivers_in_order_witness:
  "\<exists>l. krun ex_codec ex_steps (new_klog 8 [] 0) = Some l \<and> kSettled l = [ex_trade_event]
    \<and> in_flight ex_codec l = [ex_trade_event, ex_trade_event\<lparr>eID := ''p-2''\<rparr>]"
proof -
  have "map_option (\<lambda>l. (kSettled l, kPublished l)) (krun ex_codec ex_steps (new_klog 8 [] 0))
      = Some ([ex_trade_event], [ex_trade_event, ex_trade_event\<lparr>eID := ''p-2''\<rparr>])"
    by code_simp
  then obtain l where l: "krun ex_codec ex_steps (new_klog 8 [] 0) = Some l" "kSettled l = [ex_trade_event]"
    "kPublished l = [ex_trade_event, ex_trade_event\<lparr>eID := ''p-2''\<rparr>]" by auto
  have "list_all (\<lambda>x. x \<noteq> KCrash) ex_steps" "list_all faultless ex_steps" by (simp_all add: ex_steps_def faultless_def)
  with kafka_delivers_in_order [OF ex_codec_ok(1) l(1)] l ex_codec_ok(2) show ?thesis by auto
qed




text \<open>A crash loses events that were handed over but not settled: records are marked when they enter the
  channel to settlement, not when settlement is done with them. After the commit and a crash
  the event is in the topic, but the consumer resumes behind it: nothing is on its way and
  settlement has not seen it.\<close>

theorem crash_loses_handed_event:
  "\<exists>l. krun ex_codec [KStart, KPublish ex_trade_event, KProduce, KDeliver, KConsume, KCommit, KCrash] (new_klog 8 [] 0) = Some l
    \<and> decoded ex_codec (kTopic l) = [ex_trade_event] \<and> kPublished l = [ex_trade_event]
    \<and> kSettled l = [] \<and> in_flight ex_codec l = []"
proof -
  have "map_option (\<lambda>l. (decoded ex_codec (kTopic l), kPublished l, kSettled l, kOut l, drop (kPos l) (kTopic l), kBuffer l, kIn l))
      (krun ex_codec [KStart, KPublish ex_trade_event, KProduce, KDeliver, KConsume, KCommit, KCrash] (new_klog 8 [] 0))
      = Some ([ex_trade_event], [ex_trade_event], [], [], [], [], [])"
    by code_simp
  then show ?thesis unfolding in_flight_def by (elim map_option_Some_elim) (auto simp del: krun.simps)
qed



end
