(* ===== verification/Rest.thy ===== *)
theory Rest
  imports System
begin

section \<open>The HTTP adapter\<close>

text \<open>
  \<open>internal/adapter/driving/rest\<close>: each handler as a function from the decoded request and
  the state of the services to the response and the new state. What \<open>net/http\<close> and
  \<open>encoding/json\<close> do is the boundary: a request body is the result of decoding it
  (\<open>None\<close> when that fails), a query string is the map of its values, and a response is its
  status and the value that is encoded as its body. An error message is its prefix and the
  error whose text follows.
\<close>

datatype body =
    BodyHealth string string "int option" "goerr option"
  | BodyOrder "order option"
  | BodyWallet wallet
  | BodyWallets "wallet list"
  | BodyBook BookSnapshot
  | BodyTrades "trade list"
  | BodyError string "goerr option"
  | BodyMetrics
  | BodyNone

record response =
  rsStatus :: int
  rsBody :: body

definition writeJSON :: "int \<Rightarrow> body \<Rightarrow> response" where
  "writeJSON status b = \<lparr>rsStatus = status, rsBody = b\<rparr>"

text \<open>\<open>errorResponse{Error: msg}\<close>, with \<open>msg\<close> a text and possibly the text of an error behind it.\<close>

definition writeError :: "int \<Rightarrow> string \<Rightarrow> goerr option \<Rightarrow> response" where
  "writeError status msg err = writeJSON status (BodyError msg err)"

subsection \<open>Numbers in a query\<close>

text \<open>\<open>strconv.Atoi\<close>: an optional sign, at least one digit, nothing else, and in range.\<close>

definition is_digit :: "char \<Rightarrow> bool" where
  "is_digit c \<longleftrightarrow> 48 \<le> (of_char c :: nat) \<and> (of_char c :: nat) \<le> 57"

definition parse_digits :: "string \<Rightarrow> nat option" where
  "parse_digits s = (if s \<noteq> [] \<and> list_all is_digit s then Some (digits_value s) else None)"

definition Atoi :: "string \<Rightarrow> int option" where
  "Atoi s =
     (let (neg, ds) = (case s of c # cs \<Rightarrow> if c = CHR ''-'' then (True, cs) else if c = CHR ''+'' then (False, cs) else (False, s)
                       | [] \<Rightarrow> (False, s))
      in case parse_digits ds of
           None \<Rightarrow> None
         | Some n \<Rightarrow> (let v = (if neg then - int n else int n) in if i64 v then Some v else None))"

text \<open>\<open>url.Values.Get\<close>: the first value of the key, the empty string when there is none.\<close>

type_synonym url_values = "(string \<times> string list) list"

definition query_Get :: "url_values \<Rightarrow> string \<Rightarrow> string" where
  "query_Get q key = (case map_of q key of Some (v # vs) \<Rightarrow> v | _ \<Rightarrow> [])"

definition queryInt :: "url_values \<Rightarrow> string \<Rightarrow> int \<Rightarrow> int" where
  "queryInt q key def =
     (let v = query_Get q key
      in if v \<noteq> [] then (case Atoi v of Some n \<Rightarrow> n | None \<Rightarrow> def) else def)"

subsection \<open>Handlers\<close>

record placeOrderRequest =
  rqUserID :: string
  rqSide :: string
  rqPrice :: int
  rqQuantity :: int
  rqClientRequestID :: string

definition Side_of :: "string \<Rightarrow> side" where
  "Side_of s = (if s = ''BUY'' then Buy else if s = ''SELL'' then Sell else OtherSide s)"

definition writePlaceError :: "order option \<Rightarrow> goerr \<Rightarrow> response" where
  "writePlaceError order err =
     (if errors_Is err ErrInsufficientCOP \<or> errors_Is err ErrInsufficientVibranium then writeJSON 422 (BodyOrder order)
      else if errors_Is err ErrWalletNotFound then writeError 404 ''wallet not found for user'' None
      else if errors_Is err ErrReservationFailed then writeError 503 ''wallet store unavailable: '' (Some err)
      else if errors_Is err ErrInvalidSide \<or> errors_Is err ErrInvalidPrice \<or> errors_Is err ErrInvalidQuantity
              \<or> errors_Is err ErrMissingUser \<or> errors_Is err ErrMissingSymbol then writeError 400 [] (Some err)
      else writeError 503 ''engine unavailable: '' (Some err))"

definition handlePlaceOrder :: "('w, 'e, 'o, 'b) Trading \<Rightarrow> ctx \<Rightarrow> nat list \<Rightarrow> (nat \<Rightarrow> time) \<Rightarrow> placeOrderRequest option
    \<Rightarrow> ('w, 'e, 'o) trading_state \<Rightarrow> (response \<times> ('w, 'e, 'o) trading_state) option" where
  "handlePlaceOrder T c bytes now body s =
     (case body of
        None \<Rightarrow> Some (writeError 400 ''invalid JSON body'' None, s)
      | Some req \<Rightarrow>
          (let cmd = \<lparr>pcUserID = rqUserID req, pcSide = Side_of (rqSide req), pcPrice = rqPrice req,
                      pcQuantity = rqQuantity req\<rparr>
           in case PlaceOrder T c bytes now cmd s of
                None \<Rightarrow> None
              | Some ((result, err), s') \<Rightarrow>
                  Some (case err of Some e \<Rightarrow> writePlaceError result e | None \<Rightarrow> writeJSON 201 (BodyOrder result), s')))"

definition handleCancelOrder :: "('w, 'e, 'o, 'b) Trading \<Rightarrow> ctx \<Rightarrow> string \<Rightarrow> ('w, 'e, 'o) trading_state
    \<Rightarrow> (response \<times> ('w, 'e, 'o) trading_state) option" where
  "handleCancelOrder T c i s =
     map_option (\<lambda>(r, s').
       (case r of
          Inl e \<Rightarrow> if errors_Is e ErrOrderNotFound then writeError 404 ''order not found or no longer resting'' None
                   else writeError 503 ''engine unavailable: '' (Some e)
        | Inr result \<Rightarrow> writeJSON 200 (BodyOrder (Some result)), s'))
       (CancelOrder T c i s)"

definition handleGetOrder :: "('w, 'e, 'o, 'b) Trading \<Rightarrow> ctx \<Rightarrow> string \<Rightarrow> ('w, 'e, 'o) trading_state
    \<Rightarrow> response \<times> ('w, 'e, 'o) trading_state" where
  "handleGetOrder T c i s =
     (let (r, s') = GetOrder T c i s
      in (case r of
            Inl e \<Rightarrow> writeError 503 ''order store unavailable: '' (Some e)
          | Inr None \<Rightarrow> writeError 404 ''order not found'' None
          | Inr (Some o') \<Rightarrow> writeJSON 200 (BodyOrder (Some o')), s'))"

record upsertWalletRequest =
  uwUserID :: string
  uwCOPAvailable :: int
  uwVibraniumAvailable :: int

definition handleUpsertWallet :: "'w WalletRepository \<Rightarrow> ctx \<Rightarrow> upsertWalletRequest option \<Rightarrow> 'w \<Rightarrow> response \<times> 'w" where
  "handleUpsertWallet repo c body ws =
     (case body of
        None \<Rightarrow> (writeError 400 ''invalid JSON body'' None, ws)
      | Some req \<Rightarrow>
          (let (r, ws') = Wallets_Seed repo c (uwUserID req) (uwCOPAvailable req) (uwVibraniumAvailable req) ws
           in (case r of
                 Inl e \<Rightarrow> if errors_Is e ErrMissingUser then writeError 400 ''userId is required'' None
                          else if errors_Is e ErrInvalidBalance then writeError 400 ''balances must be non-negative'' None
                          else writeError 503 ''wallet store unavailable: '' (Some e)
               | Inr w \<Rightarrow> writeJSON 201 (BodyWallet w), ws')))"

definition handleGetWallet :: "'w WalletRepository \<Rightarrow> ctx \<Rightarrow> string \<Rightarrow> 'w \<Rightarrow> response \<times> 'w" where
  "handleGetWallet repo c i ws =
     (let (r, ws') = Wallets_Get repo c i ws
      in (case r of
            Inl e \<Rightarrow> if errors_Is e ErrWalletNotFound then writeError 404 ''wallet not found'' None
                     else writeError 503 ''wallet store unavailable: '' (Some e)
          | Inr w \<Rightarrow> writeJSON 200 (BodyWallet w), ws'))"

definition handleListWallets :: "'w WalletRepository \<Rightarrow> ctx \<Rightarrow> 'w \<Rightarrow> response \<times> 'w" where
  "handleListWallets repo c ws =
     (let (r, ws') = Wallets_List repo c ws
      in (case r of Inl e \<Rightarrow> writeError 503 ''wallet store unavailable: '' (Some e)
                  | Inr wallets \<Rightarrow> writeJSON 200 (BodyWallets wallets), ws'))"

definition handleGetBook :: "('e, BookSnapshot) MatchingEngine \<Rightarrow> ctx \<Rightarrow> url_values \<Rightarrow> 'e \<Rightarrow> (response \<times> 'e) option" where
  "handleGetBook eng c q s =
     (let depth = queryInt q ''depth'' 10
      in map_option (\<lambda>(r, s').
           (case r of Inl e \<Rightarrow> writeError 503 ''engine unavailable: '' (Some e)
                    | Inr snap \<Rightarrow> writeJSON 200 (BodyBook snap), s'))
           (MarketData_Book eng c depth s))"

definition handleGetTrades :: "'t TradeRepository \<Rightarrow> ctx \<Rightarrow> url_values \<Rightarrow> 't \<Rightarrow> response \<times> 't" where
  "handleGetTrades repo c q s =
     (let limit = queryInt q ''limit'' 50;
          (r, s') = MarketData_RecentTrades repo c limit s
      in (case r of Inl e \<Rightarrow> writeError 503 ''trade store unavailable: '' (Some e)
                  | Inr trades \<Rightarrow> writeJSON 200 (BodyTrades trades), s'))"

definition handleHealth :: "string \<Rightarrow> 't TradeRepository \<Rightarrow> ctx \<Rightarrow> 't \<Rightarrow> response \<times> 't" where
  "handleHealth symbol repo c s =
     (let (r, s') = MarketData_TradeCount repo c s
      in (case r of Inl e \<Rightarrow> writeJSON 503 (BodyHealth ''degraded'' symbol None (Some e))
                  | Inr trades \<Rightarrow> writeJSON 200 (BodyHealth ''ok'' symbol (Some trades) None), s'))"

subsection \<open>Routes\<close>

text \<open>
  The patterns registered in \<open>Handler\<close>. In the patterns of \<open>http.ServeMux\<close> \<open>GET\<close> serves \<open>HEAD\<close>
  too, and \<open>{id}\<close> matches one path segment. The path is the cleaned and unescaped one.
\<close>

datatype route =
    RHealth | RPlaceOrder | RCancelOrder string | RGetOrder string
  | RUpsertWallet | RListWallets | RGetWallet string | RGetBook | RGetTrades | RMetrics

definition HasPrefix :: "string \<Rightarrow> string \<Rightarrow> bool" where
  "HasPrefix s p \<longleftrightarrow> take (length p) s = p"

definition segment_after :: "string \<Rightarrow> string \<Rightarrow> string option" where
  "segment_after p s =
     (if HasPrefix s p \<and> drop (length p) s \<noteq> [] \<and> CHR ''/'' \<notin> set (drop (length p) s)
      then Some (drop (length p) s) else None)"

definition is_get :: "string \<Rightarrow> bool" where
  "is_get meth \<longleftrightarrow> meth = ''GET'' \<or> meth = ''HEAD''"

definition route_of :: "bool \<Rightarrow> string \<Rightarrow> string \<Rightarrow> route option" where
  "route_of metrics meth path =
     (if path = ''/health'' \<and> is_get meth then Some RHealth
      else if path = ''/orders'' \<and> meth = ''POST'' then Some RPlaceOrder
      else if path = ''/wallets'' \<and> meth = ''POST'' then Some RUpsertWallet
      else if path = ''/wallets'' \<and> is_get meth then Some RListWallets
      else if path = ''/book'' \<and> is_get meth then Some RGetBook
      else if path = ''/trades'' \<and> is_get meth then Some RGetTrades
      else if path = ''/metrics'' \<and> is_get meth \<and> metrics then Some RMetrics
      else case segment_after ''/orders/'' path of
             Some i \<Rightarrow> if meth = ''DELETE'' then Some (RCancelOrder i)
                       else if is_get meth then Some (RGetOrder i) else None
           | None \<Rightarrow> (case segment_after ''/wallets/'' path of
                        Some i \<Rightarrow> if is_get meth then Some (RGetWallet i) else None
                      | None \<Rightarrow> None))"

fun pattern_of :: "route \<Rightarrow> string" where
  "pattern_of RHealth = ''/health''"
| "pattern_of RPlaceOrder = ''/orders''"
| "pattern_of (RCancelOrder i) = ''/orders/{id}''"
| "pattern_of (RGetOrder i) = ''/orders/{id}''"
| "pattern_of RUpsertWallet = ''/wallets''"
| "pattern_of RListWallets = ''/wallets''"
| "pattern_of (RGetWallet i) = ''/wallets/{id}''"
| "pattern_of RGetBook = ''/book''"
| "pattern_of RGetTrades = ''/trades''"
| "pattern_of RMetrics = ''/metrics''"

definition routePattern :: "string \<Rightarrow> string" where
  "routePattern path =
     (if path = ''/orders'' then ''/orders''
      else if HasPrefix path ''/orders/'' then ''/orders/{id}''
      else if path = ''/wallets'' then ''/wallets''
      else if HasPrefix path ''/wallets/'' then ''/wallets/{id}''
      else if path = ''/book'' \<or> path = ''/trades'' then path
      else [])"

text \<open>The name of the span of a request, and whether it has one, when tracing is on.\<close>

definition span_name :: "string \<Rightarrow> string \<Rightarrow> string" where
  "span_name meth path = (if routePattern path \<noteq> [] then meth @ '' '' @ routePattern path else meth)"

definition span_filter :: "string \<Rightarrow> bool" where
  "span_filter path \<longleftrightarrow> path \<noteq> ''/metrics'' \<and> path \<noteq> ''/health''"

subsection \<open>The access log\<close>

text \<open>\<open>statusWriter\<close> remembers the status that passes through it; without one it is 200.\<close>

record statusWriter =
  swStatus :: int
  swSent :: "int list"

definition statusWriter_new :: statusWriter where
  "statusWriter_new = \<lparr>swStatus = 200, swSent = []\<rparr>"

definition WriteHeader :: "int \<Rightarrow> statusWriter \<Rightarrow> statusWriter" where
  "WriteHeader code w = w\<lparr>swStatus := code, swSent := swSent w @ [code]\<rparr>"

definition logging :: "string \<Rightarrow> string \<Rightarrow> response option \<Rightarrow> string \<times> string \<times> int" where
  "logging meth path r =
     (let sw = (case r of None \<Rightarrow> statusWriter_new | Some rs \<Rightarrow> WriteHeader (rsStatus rs) statusWriter_new)
      in (meth, path, swStatus sw))"

subsection \<open>Lemmas\<close>

lemma digits_all: "list_all is_digit (digits n)"
proof (induction n rule: digits.induct)
  case (1 n)
  have "n mod 10 < 10" by simp
  then have "is_digit (char_of (48 + n mod 10))" "n < 10 \<Longrightarrow> is_digit (char_of (48 + n))"
    by (auto simp: is_digit_def of_char_digit)
  with 1 show ?case by (subst digits.simps) auto
qed

lemma digits_nonempty: "digits n \<noteq> []"
  by (subst digits.simps) simp

lemma parse_digits_digits: "parse_digits (digits n) = Some n"
  by (simp add: parse_digits_def digits_all digits_nonempty digits_value_digits del: digits_value.simps)

lemma digits_head: "digits n = c # cs \<Longrightarrow> c \<noteq> CHR ''-'' \<and> c \<noteq> CHR ''+''"
  using digits_all [of n] by (auto simp: is_digit_def)

lemma Atoi_itoa:
  assumes "i64 n"
  shows "Atoi (itoa n) = Some n"
proof (cases "n < 0")
  case True
  then show ?thesis using assms by (simp add: Atoi_def itoa_def parse_digits_digits)
next
  case False
  obtain c cs where d: "digits (nat n) = c # cs" using digits_nonempty by (cases "digits (nat n)") auto
  with False assms digits_head [OF d] parse_digits_digits [of "nat n"] show ?thesis
    by (simp add: Atoi_def itoa_def)
qed

lemma errors_Is_simple [simp]:
  "errors_Is ErrContext e = (e = ErrContext)" by simp

lemma segment_after_prefix: "segment_after p s = Some i \<Longrightarrow> HasPrefix s p"
  by (auto simp: segment_after_def split: if_splits)

end
