(* ===== verification/Bootstrap.thy ===== *)
theory Bootstrap
  imports Config Rediscache Kafkalog
begin

section \<open>The composition root\<close>

text \<open>
  \<open>internal/bootstrap/bootstrap.go\<close>: which adapters the configuration selects, which resources
  are opened for them and which are closed again when the assembly fails. What the services
  behind the drivers answer is \<open>services\<close>; an assembly that waits for ever is \<open>None\<close>. An
  adapter is named by its constructor and what it is built from.
\<close>

datatype resource = ResPool | ResRedis | ResKafka

datatype wallets_impl = MemWallets | PgWallets | CachedWallets wallets_impl int
datatype trades_impl = MemTrades | PgTrades
datatype orders_impl = MemOrders | PgOrders
datatype journal_impl = MemJournal | PgJournal
datatype log_impl = MemEvents int | KafkaEvents "string list" string int

text \<open>\<open>inOpen\<close> are the resources the process holds: the pool, the Redis client, the Kafka client.\<close>

record Infrastructure =
  inLog :: "log_impl option"
  inJournal :: "journal_impl option"
  inWallets :: "wallets_impl option"
  inTrades :: "trades_impl option"
  inOrders :: "orders_impl option"
  inDescribe :: "(string \<times> string) list"
  inPool :: bool
  inRdb :: bool
  inOpen :: "resource list"

record services =
  svPgx :: pgx
  svRedis :: go_redis
  svKafka :: kafka_world

datatype build_error = BuildFailed goerr | UnknownDriver string string

definition describe :: "string \<Rightarrow> string \<Rightarrow> Infrastructure \<Rightarrow> Infrastructure" where
  "describe k v i = i\<lparr>inDescribe := inDescribe i @ [(k, v)]\<rparr>"

definition empty_infra :: Infrastructure where
  "empty_infra = \<lparr>inLog = None, inJournal = None, inWallets = None, inTrades = None, inOrders = None,
     inDescribe = [], inPool = False, inRdb = False, inOpen = []\<rparr>"

text \<open>A failed assembly is the error and what is still open.\<close>

type_synonym 'a built = "((build_error \<times> resource list) + 'a) option"

definition fail_with :: "build_error \<Rightarrow> Infrastructure \<Rightarrow> Infrastructure built" where
  "fail_with e i = Some (Inl (e, inOpen i))"

text \<open>\<open>Close\<close> releases the Redis client and the pool, if there are any.\<close>

definition Infra_Close :: "Infrastructure \<Rightarrow> Infrastructure" where
  "Infra_Close i =
     (let i1 = (if inRdb i then i\<lparr>inOpen := remove1 ResRedis (inOpen i), inRdb := False\<rparr> else i)
      in if inPool i1 then i1\<lparr>inOpen := remove1 ResPool (inOpen i1), inPool := False\<rparr> else i1)"

definition build_postgres :: "services \<Rightarrow> 'f Config \<Rightarrow> Infrastructure built" where
  "build_postgres sv cfg =
     (if UsesPostgres cfg then
        (case postgres_Connect (svPgx sv) (cfDatabaseURL cfg) (cfDBMaxConns cfg) (cfInfraWaitTimeout cfg) of
           None \<Rightarrow> None
         | Some (Inl e, left) \<Rightarrow> Some (Inl (BuildFailed e, if left then [ResPool] else []))
         | Some (Inr conns, left) \<Rightarrow>
             (case postgres_Migrate (svPgx sv) of
                Some e \<Rightarrow> Some (Inl (BuildFailed e, []))
              | None \<Rightarrow> Some (Inr (empty_infra\<lparr>inPool := True, inOpen := [ResPool]\<rparr>))))
      else Some (Inr empty_infra))"

definition build_wallets :: "'f Config \<Rightarrow> Infrastructure \<Rightarrow> Infrastructure built" where
  "build_wallets cfg i =
     (if cfWalletStoreDriver cfg = DriverPostgres then Some (Inr (describe ''wallets'' ''postgres'' (i\<lparr>inWallets := Some PgWallets\<rparr>)))
      else if cfWalletStoreDriver cfg = DriverMemory then Some (Inr (describe ''wallets'' ''memory'' (i\<lparr>inWallets := Some MemWallets\<rparr>)))
      else fail_with (UnknownDriver ''WALLET_STORE_DRIVER'' (cfWalletStoreDriver cfg)) i)"

definition build_trades :: "'f Config \<Rightarrow> Infrastructure \<Rightarrow> Infrastructure built" where
  "build_trades cfg i =
     (if cfTradeStoreDriver cfg = DriverPostgres then Some (Inr (describe ''trades'' ''postgres'' (i\<lparr>inTrades := Some PgTrades\<rparr>)))
      else if cfTradeStoreDriver cfg = DriverMemory then Some (Inr (describe ''trades'' ''memory'' (i\<lparr>inTrades := Some MemTrades\<rparr>)))
      else fail_with (UnknownDriver ''TRADE_STORE_DRIVER'' (cfTradeStoreDriver cfg)) i)"

definition build_orders :: "'f Config \<Rightarrow> Infrastructure \<Rightarrow> Infrastructure built" where
  "build_orders cfg i =
     (if cfOrderStoreDriver cfg = DriverPostgres then Some (Inr (describe ''orders'' ''postgres'' (i\<lparr>inOrders := Some PgOrders\<rparr>)))
      else if cfOrderStoreDriver cfg = DriverMemory then Some (Inr (describe ''orders'' ''memory'' (i\<lparr>inOrders := Some MemOrders\<rparr>)))
      else fail_with (UnknownDriver ''ORDER_STORE_DRIVER'' (cfOrderStoreDriver cfg)) i)"

definition build_journal :: "Infrastructure \<Rightarrow> Infrastructure" where
  "build_journal i = (if inPool i then describe ''journal'' ''postgres'' (i\<lparr>inJournal := Some PgJournal\<rparr>)
     else describe ''journal'' ''memory'' (i\<lparr>inJournal := Some MemJournal\<rparr>))"

definition build_cache :: "services \<Rightarrow> 'f Config \<Rightarrow> Infrastructure \<Rightarrow> Infrastructure built" where
  "build_cache sv cfg i =
     (if UsesRedis cfg then
        (case redis_Connect (svRedis sv) (cfRedisURL cfg) (cfInfraWaitTimeout cfg) of
           None \<Rightarrow> None
         | Some (Some e, left) \<Rightarrow> fail_with (BuildFailed e) (Infra_Close i)
         | Some (None, left) \<Rightarrow>
             Some (Inr (describe ''cache'' ''redis''
               (i\<lparr>inRdb := True, inOpen := inOpen i @ [ResRedis],
                  inWallets := map_option (\<lambda>w. CachedWallets w (cache_ttl (cfRedisTTL cfg))) (inWallets i)\<rparr>))))
      else Some (Inr (describe ''cache'' ''none'' i)))"

definition build_log :: "services \<Rightarrow> 'f Config \<Rightarrow> Infrastructure \<Rightarrow> Infrastructure built" where
  "build_log sv cfg i =
     (if cfEventLogDriver cfg = DriverKafka then
        (case kafka_New (svKafka sv) (cfKafkaBrokers cfg) (cfKafkaEventsTopic cfg) (cfEngineBuffer cfg)
                (cfInfraWaitTimeout cfg) ([] :: string krecord list) 0 of
           None \<Rightarrow> None
         | Some (Inl e, left) \<Rightarrow> fail_with (BuildFailed e) (Infra_Close i)
         | Some (Inr kl, left) \<Rightarrow>
             Some (Inr (describe ''eventLog'' (''kafka:'' @ cfKafkaEventsTopic cfg)
               (i\<lparr>inLog := Some (KafkaEvents (cfKafkaBrokers cfg) (cfKafkaEventsTopic cfg) (kInCap kl)),
                  inOpen := inOpen i @ [ResKafka]\<rparr>))))
      else if cfEventLogDriver cfg = DriverMemory then
        Some (Inr (describe ''eventLog'' ''memory'' (i\<lparr>inLog := Some (MemEvents (lg_cap (NewLog (cfEngineBuffer cfg))))\<rparr>)))
      else fail_with (UnknownDriver ''EVENT_LOG_DRIVER'' (cfEventLogDriver cfg)) (Infra_Close i))"

definition and_then :: "'a built \<Rightarrow> ('a \<Rightarrow> 'b built) \<Rightarrow> 'b built" where
  "and_then r k = (case r of None \<Rightarrow> None | Some (Inl e) \<Rightarrow> Some (Inl e) | Some (Inr x) \<Rightarrow> k x)"

definition Build :: "services \<Rightarrow> 'f Config \<Rightarrow> Infrastructure built" where
  "Build sv cfg =
     and_then (build_postgres sv cfg) (\<lambda>i.
     and_then (build_wallets cfg i) (\<lambda>i.
     and_then (build_trades cfg i) (\<lambda>i.
     and_then (build_orders cfg i) (\<lambda>i.
     and_then (build_cache sv cfg (build_journal i)) (build_log sv cfg)))))"

subsection \<open>Lemmas\<close>

lemma and_then_Some: "and_then r k = Some y \<longleftrightarrow>
    (\<exists>e. r = Some (Inl e) \<and> y = Inl e) \<or> (\<exists>x. r = Some (Inr x) \<and> k x = Some y)"
  by (auto simp: and_then_def split: option.splits sum.splits)

lemma describe_fields [simp]:
  "inLog (describe k v i) = inLog i" "inJournal (describe k v i) = inJournal i" "inWallets (describe k v i) = inWallets i"
  "inTrades (describe k v i) = inTrades i" "inOrders (describe k v i) = inOrders i" "inPool (describe k v i) = inPool i"
  "inRdb (describe k v i) = inRdb i" "inOpen (describe k v i) = inOpen i"
  by (simp_all add: describe_def)

text \<open>The connecting functions leave a client open exactly when they succeed.\<close>

lemma postgres_Connect_open: "postgres_Connect d url mc wait = Some (r, left) \<Longrightarrow> left \<longleftrightarrow> (\<exists>n. r = Inr n)"
  by (auto simp: postgres_Connect_def Let_def split: sum.splits option.splits)

lemma redis_Connect_open: "redis_Connect d url wait = Some (r, left) \<Longrightarrow> left \<longleftrightarrow> r = None"
  by (auto simp: redis_Connect_def split: option.splits)

text \<open>The clients open at each stage are those that the struct knows of.\<close>

definition accounted :: "Infrastructure \<Rightarrow> bool" where
  "accounted i \<longleftrightarrow> inOpen i = (if inPool i then [ResPool] else []) @ (if inRdb i then [ResRedis] else [])"

lemma accounted_Close: "accounted i \<Longrightarrow> inOpen (Infra_Close i) = []"
  by (auto simp: accounted_def Infra_Close_def Let_def split: if_splits)

lemma build_postgres_cases:
  assumes "build_postgres sv cfg = Some r"
  shows "case r of Inl (e, left) \<Rightarrow> left = [] \<and> (\<exists>x. e = BuildFailed x)
    | Inr i \<Rightarrow> i = empty_infra\<lparr>inPool := UsesPostgres cfg, inOpen := (if UsesPostgres cfg then [ResPool] else [])\<rparr>"
  using assms
  by (auto simp: build_postgres_def empty_infra_def dest!: postgres_Connect_open split: if_splits option.splits sum.splits prod.splits)

text \<open>The stages behind the selection of the stores.\<close>

lemma build_cache_cases:
  assumes "build_cache sv cfg i = Some r" and "accounted i" and "\<not> inRdb i"
  shows "case r of Inl (e, left) \<Rightarrow> left = []
    | Inr i' \<Rightarrow> inWallets i' = (if UsesRedis cfg then map_option (\<lambda>w. CachedWallets w (cache_ttl (cfRedisTTL cfg))) (inWallets i) else inWallets i)
        \<and> inTrades i' = inTrades i \<and> inOrders i' = inOrders i \<and> inJournal i' = inJournal i \<and> accounted i'
        \<and> inOpen i' = inOpen i @ (if UsesRedis cfg then [ResRedis] else [])"
proof (cases "UsesRedis cfg")
  case False
  then show ?thesis using assms by (auto simp: build_cache_def accounted_def)
next
  case True
  then obtain err left where c: "redis_Connect (svRedis sv) (cfRedisURL cfg) (cfInfraWaitTimeout cfg) = Some (err, left)"
    using assms(1) by (cases "redis_Connect (svRedis sv) (cfRedisURL cfg) (cfInfraWaitTimeout cfg)") (auto simp: build_cache_def)
  show ?thesis
  proof (cases err)
    case None
    then show ?thesis using assms True c by (auto simp: build_cache_def accounted_def)
  next
    case (Some e)
    then show ?thesis using assms True c accounted_Close [OF assms(2)] by (auto simp: build_cache_def fail_with_def)
  qed
qed

lemma build_log_cases:
  assumes "build_log sv cfg i = Some r" and "accounted i"
  shows "case r of Inl (e, left) \<Rightarrow> left = []
    | Inr i' \<Rightarrow> inWallets i' = inWallets i \<and> inTrades i' = inTrades i \<and> inOrders i' = inOrders i \<and> inJournal i' = inJournal i
        \<and> inOpen i' = inOpen i @ (if UsesKafka cfg then [ResKafka] else [])"
proof (cases "UsesKafka cfg")
  case False
  then have "cfEventLogDriver cfg \<noteq> DriverKafka" by (simp add: UsesKafka_def)
  then show ?thesis using assms(1) accounted_Close [OF assms(2)] False
    by (cases "cfEventLogDriver cfg = DriverMemory") (auto simp: build_log_def fail_with_def)
next
  case True
  then have k: "cfEventLogDriver cfg = DriverKafka" by (simp add: UsesKafka_def)
  obtain x left where c: "kafka_New (svKafka sv) (cfKafkaBrokers cfg) (cfKafkaEventsTopic cfg) (cfEngineBuffer cfg)
      (cfInfraWaitTimeout cfg) ([] :: string krecord list) 0 = Some (x, left)"
    using assms(1) k by (cases "kafka_New (svKafka sv) (cfKafkaBrokers cfg) (cfKafkaEventsTopic cfg) (cfEngineBuffer cfg)
      (cfInfraWaitTimeout cfg) ([] :: string krecord list) 0") (auto simp: build_log_def)
  show ?thesis using assms(1) k c True accounted_Close [OF assms(2)]
    by (cases x) (auto simp: build_log_def fail_with_def)
qed

subsection \<open>The stages together\<close>

text \<open>The three stores are the configured ones, and nothing else changed.\<close>

definition stores_selected :: "'f Config \<Rightarrow> Infrastructure \<Rightarrow> Infrastructure \<Rightarrow> bool" where
  "stores_selected cfg i0 i \<longleftrightarrow>
     inWallets i = Some (if cfWalletStoreDriver cfg = DriverPostgres then PgWallets else MemWallets)
     \<and> inTrades i = Some (if cfTradeStoreDriver cfg = DriverPostgres then PgTrades else MemTrades)
     \<and> inOrders i = Some (if cfOrderStoreDriver cfg = DriverPostgres then PgOrders else MemOrders)
     \<and> inPool i = inPool i0 \<and> inRdb i = inRdb i0 \<and> inOpen i = inOpen i0"

lemma stores_or_unknown:
  assumes "and_then (build_wallets cfg i0) (\<lambda>i. and_then (build_trades cfg i) (\<lambda>i. and_then (build_orders cfg i) k)) = Some res"
  shows "(\<exists>name v. res = Inl (UnknownDriver name v, inOpen i0)
        \<and> (name = ''WALLET_STORE_DRIVER'' \<or> name = ''TRADE_STORE_DRIVER'' \<or> name = ''ORDER_STORE_DRIVER''))
    \<or> (\<exists>i. stores_selected cfg i0 i \<and> k i = Some res)"
proof (cases "\<exists>i. and_then (build_wallets cfg i0) (\<lambda>i. and_then (build_trades cfg i) (build_orders cfg)) = Some (Inr i)")
  case False
  with assms show ?thesis
    by (intro disjI1) (auto simp: build_wallets_def build_trades_def build_orders_def fail_with_def and_then_def split: if_splits)
next
  case True
  then obtain i where i: "and_then (build_wallets cfg i0) (\<lambda>i. and_then (build_trades cfg i) (build_orders cfg)) = Some (Inr i)" by blast
  have "stores_selected cfg i0 i"
    using i by (auto simp: build_wallets_def build_trades_def build_orders_def fail_with_def and_then_def stores_selected_def split: if_splits)
  moreover have "k i = Some res" using assms i by (auto simp: and_then_def split: option.splits sum.splits)
  ultimately show ?thesis by blast
qed

lemma built_from_stores:
  defines "i0 u \<equiv> empty_infra\<lparr>inPool := u, inOpen := (if u then [ResPool] else [])\<rparr>"
  assumes sel: "stores_selected cfg (i0 (UsesPostgres cfg)) i"
    and res: "and_then (build_cache sv cfg (build_journal i)) (build_log sv cfg) = Some res"
  shows "case res of
      Inr i' \<Rightarrow>
        inWallets i' = Some (let w = (if cfWalletStoreDriver cfg = DriverPostgres then PgWallets else MemWallets)
                             in if UsesRedis cfg then CachedWallets w (cache_ttl (cfRedisTTL cfg)) else w)
        \<and> inTrades i' = Some (if cfTradeStoreDriver cfg = DriverPostgres then PgTrades else MemTrades)
        \<and> inOrders i' = Some (if cfOrderStoreDriver cfg = DriverPostgres then PgOrders else MemOrders)
        \<and> inJournal i' = Some (if UsesPostgres cfg then PgJournal else MemJournal)
        \<and> inOpen i' = (if UsesPostgres cfg then [ResPool] else []) @ (if UsesRedis cfg then [ResRedis] else [])
            @ (if UsesKafka cfg then [ResKafka] else [])
    | Inl (e, left) \<Rightarrow> left = []"
proof -
  let ?j = "build_journal i"
  have j: "accounted ?j" "\<not> inRdb ?j" "inJournal ?j = Some (if UsesPostgres cfg then PgJournal else MemJournal)"
    "inWallets ?j = inWallets i" "inTrades ?j = inTrades i" "inOrders ?j = inOrders i" "inOpen ?j = (if UsesPostgres cfg then [ResPool] else [])"
    using sel by (simp_all add: stores_selected_def i0_def build_journal_def accounted_def empty_infra_def)
  from res consider (err) e where "build_cache sv cfg ?j = Some (Inl e)" "res = Inl e"
    | (log) i5 where "build_cache sv cfg ?j = Some (Inr i5)" "build_log sv cfg i5 = Some res"
    unfolding and_then_Some by blast
  then show ?thesis
  proof cases
    case err
    with build_cache_cases [OF err(1) j(1,2)] show ?thesis by auto
  next
    case log
    note c = build_cache_cases [OF log(1) j(1,2), simplified]
    then have "accounted i5" by simp
    note l = build_log_cases [OF log(2) this]
    show ?thesis
    proof (cases res)
      case (Inl x)
      with l show ?thesis by auto
    next
      case (Inr i')
      with l c j sel show ?thesis by (simp add: stores_selected_def Let_def)
    qed
  qed
qed

end
