(* ===== verification/Telemetry.thy ===== *)
theory Telemetry
  imports Polling
begin

section \<open>Telemetry\<close>

text \<open>
  \<open>internal/adapter/driven/telemetry\<close>: the two implementations of the \<open>Metrics\<close> port. A sink
  is a function on its state for each call. The instruments of OpenTelemetry are what they
  aggregate: a counter a sum and a histogram a list of values for each set of attributes, a
  gauge the last value. A latency is recorded in milliseconds as a float; it is kept here as
  the number of microseconds that is divided by 1000.
\<close>

type_synonym attrs = "(string \<times> string) list"
type_synonym series = "string \<times> attrs"

record otel_state =
  otSums :: "series \<Rightarrow> int"
  otValues :: "series \<Rightarrow> int list"
  otGauges :: "series \<rightharpoonup> int"

definition otel_empty :: otel_state where
  "otel_empty = \<lparr>otSums = (\<lambda>_. 0), otValues = (\<lambda>_. []), otGauges = Map.empty\<rparr>"

definition counter_Add :: "string \<Rightarrow> int \<Rightarrow> attrs \<Rightarrow> otel_state \<Rightarrow> otel_state" where
  "counter_Add name n a s = s\<lparr>otSums := (otSums s)((name, a) := add64 (otSums s (name, a)) n)\<rparr>"

definition histogram_Record :: "string \<Rightarrow> int \<Rightarrow> attrs \<Rightarrow> otel_state \<Rightarrow> otel_state" where
  "histogram_Record name v a s = s\<lparr>otValues := (otValues s)((name, a) := otValues s (name, a) @ [v])\<rparr>"

definition gauge_Record :: "string \<Rightarrow> int \<Rightarrow> attrs \<Rightarrow> otel_state \<Rightarrow> otel_state" where
  "gauge_Record name v a s = s\<lparr>otGauges := (otGauges s)((name, a) \<mapsto> v)\<rparr>"

subsection \<open>Texts of the enumerations\<close>

primrec side_string :: "side \<Rightarrow> string" where
  "side_string Buy = ''BUY''"
| "side_string Sell = ''SELL''"
| "side_string (OtherSide s) = s"

primrec status_string :: "order_status \<Rightarrow> string" where
  "status_string StatusNone = []"
| "status_string StatusOpen = ''OPEN''"
| "status_string StatusPartiallyFilled = ''PARTIALLY_FILLED''"
| "status_string StatusFilled = ''FILLED''"
| "status_string StatusCancelled = ''CANCELLED''"
| "status_string StatusRejected = ''REJECTED''"

primrec event_type_string :: "event_type \<Rightarrow> string" where
  "event_type_string EventOrderAccepted = ''ORDER_ACCEPTED''"
| "event_type_string EventTrade = ''TRADE''"
| "event_type_string EventOrderUpdated = ''ORDER_UPDATED''"

text \<open>\<open>Duration.Microseconds\<close> cuts off towards zero.\<close>

definition Microseconds :: "int \<Rightarrow> int" where
  "Microseconds d = (if d < 0 then - (- d div 1000) else d div 1000)"

subsection \<open>The port\<close>

definition Otel_OrderPlaced :: "string \<Rightarrow> side \<Rightarrow> order_status \<Rightarrow> int \<Rightarrow> otel_state \<Rightarrow> otel_state" where
  "Otel_OrderPlaced symbol sd status d s =
     (let a = [(''symbol'', symbol), (''side'', side_string sd), (''status'', status_string status)]
      in histogram_Record ''orderbook.order.accept.duration'' (Microseconds d) a (counter_Add ''orderbook.orders'' 1 a s))"

definition Otel_OrderRejected :: "string \<Rightarrow> string \<Rightarrow> otel_state \<Rightarrow> otel_state" where
  "Otel_OrderRejected symbol reason s =
     counter_Add ''orderbook.orders.rejected'' 1 [(''symbol'', symbol), (''reason'', reason)] s"

definition Otel_TradeExecuted :: "string \<Rightarrow> trade \<Rightarrow> otel_state \<Rightarrow> otel_state" where
  "Otel_TradeExecuted symbol tr s =
     (let a = [(''symbol'', symbol)];
          s1 = counter_Add ''orderbook.trades'' 1 a s;
          s2 = counter_Add ''orderbook.traded.quantity'' (tQuantity tr) a s1
      in counter_Add ''orderbook.traded.notional'' (Notional tr) a s2)"

definition Otel_SettlementApplied :: "string \<Rightarrow> event_type \<Rightarrow> int \<Rightarrow> goerr option \<Rightarrow> otel_state \<Rightarrow> otel_state" where
  "Otel_SettlementApplied symbol ty lag err s =
     (let a = [(''symbol'', symbol), (''event.type'', event_type_string ty)]
      in if err \<noteq> None then counter_Add ''orderbook.settlement.failures'' 1 a s
         else (let s1 = counter_Add ''orderbook.settlement.events'' 1 a s
               in if lag > 0 then histogram_Record ''orderbook.settlement.lag'' (Microseconds lag) a s1 else s1))"

definition Otel_MoneySupply :: "string \<Rightarrow> int \<Rightarrow> int \<Rightarrow> otel_state \<Rightarrow> otel_state" where
  "Otel_MoneySupply symbol cop vibranium s =
     (let a = [(''symbol'', symbol)]
      in gauge_Record ''orderbook.supply.vibranium'' vibranium a (gauge_Record ''orderbook.supply.cop'' cop a s))"

text \<open>A call on the port, dispatched to the implementation.\<close>

primrec otel_call :: "string \<Rightarrow> metric \<Rightarrow> otel_state \<Rightarrow> otel_state" where
  "otel_call symbol (MOrderPlaced sd st d) s = Otel_OrderPlaced symbol sd st d s"
| "otel_call symbol (MOrderRejected reason) s = Otel_OrderRejected symbol reason s"
| "otel_call symbol (MTradeExecuted t) s = Otel_TradeExecuted symbol t s"
| "otel_call symbol (MSettlementApplied ty lag err) s = Otel_SettlementApplied symbol ty lag err s"
| "otel_call symbol (MMoneySupply cop vib) s = Otel_MoneySupply symbol cop vib s"

text \<open>\<open>Noop\<close> discards every measurement.\<close>

definition noop_call :: "metric \<Rightarrow> unit \<Rightarrow> unit" where
  "noop_call m s = s"

subsection \<open>Building the providers\<close>

text \<open>
  The instruments in the order of \<open>initInstruments\<close>, each with the label of its error;
  \<open>create\<close> is what the meter answers to a name.
\<close>

definition instruments :: "(string \<times> string) list" where
  "instruments =
    [(''orderbook.orders'', ''orders''), (''orderbook.orders.rejected'', ''orders.rejected''),
     (''orderbook.order.accept.duration'', ''order.accept.duration''), (''orderbook.trades'', ''trades''),
     (''orderbook.traded.quantity'', ''traded.quantity''), (''orderbook.traded.notional'', ''traded.notional''),
     (''orderbook.settlement.events'', ''settlement.events''), (''orderbook.settlement.failures'', ''settlement.failures''),
     (''orderbook.settlement.lag'', ''settlement.lag''), (''orderbook.supply.cop'', ''supply.cop''),
     (''orderbook.supply.vibranium'', ''supply.vibranium'')]"

fun create_all :: "(string \<Rightarrow> goerr option) \<Rightarrow> (string \<times> string) list \<Rightarrow> goerr option" where
  "create_all create [] = None"
| "create_all create ((name, label) # rest) =
     (case create name of
        Some e \<Rightarrow> Some (Errorf (''create instrument '' @ label) e)
      | None \<Rightarrow> create_all create rest)"

definition initInstruments :: "(string \<Rightarrow> goerr option) \<Rightarrow> goerr option" where
  "initInstruments create = create_all create instruments"

record 'f telemetry_config =
  tcServiceName :: string
  tcServiceVersion :: string
  tcSymbol :: string
  tcOTLPEndpoint :: string
  tcTraceSampleRatio :: 'f

text \<open>What the libraries answer while the providers are built.\<close>

record telemetry_world =
  twResource :: "string \<Rightarrow> string \<Rightarrow> goerr option"
  twPrometheus :: "goerr option"
  twCreate :: "string \<Rightarrow> goerr option"
  twExporter :: "string \<Rightarrow> goerr option"

text \<open>The built telemetry: its symbol, and the sample ratio when there is a trace provider.\<close>

record 'f telemetry =
  tlSymbol :: string
  tlTraceRatio :: "'f option"

definition telemetry_New :: "telemetry_world \<Rightarrow> 'f::{linorder,zero} \<Rightarrow> 'f telemetry_config \<Rightarrow> goerr + 'f telemetry" where
  "telemetry_New w float005 cfg =
     (let name = (if tcServiceName cfg = [] then ''orderbook'' else tcServiceName cfg)
      in case twResource w name (tcServiceVersion cfg) of
           Some e \<Rightarrow> Inl (Errorf ''build otel resource'' e)
         | None \<Rightarrow>
             (case twPrometheus w of
                Some e \<Rightarrow> Inl (Errorf ''build prometheus exporter'' e)
              | None \<Rightarrow>
                  (case initInstruments (twCreate w) of
                     Some e \<Rightarrow> Inl e
                   | None \<Rightarrow>
                       if tcOTLPEndpoint cfg \<noteq> [] then
                         (case twExporter w (tcOTLPEndpoint cfg) of
                            Some e \<Rightarrow> Inl (Errorf ''build OTLP trace exporter'' e)
                          | None \<Rightarrow> Inr \<lparr>tlSymbol = tcSymbol cfg,
                              tlTraceRatio = Some (if tcTraceSampleRatio cfg \<le> 0 then float005 else tcTraceSampleRatio cfg)\<rparr>)
                       else Inr \<lparr>tlSymbol = tcSymbol cfg, tlTraceRatio = None\<rparr>)))"

text \<open>\<open>Shutdown\<close>: the errors it logs, of the trace provider (if there is one) and the meter provider.\<close>

definition telemetry_Shutdown :: "'f telemetry \<Rightarrow> goerr option \<Rightarrow> goerr option \<Rightarrow> goerr list" where
  "telemetry_Shutdown t trace_err meter_err =
     (if tlTraceRatio t \<noteq> None then (case trace_err of Some e \<Rightarrow> [e] | None \<Rightarrow> []) else [])
     @ (case meter_err of Some e \<Rightarrow> [e] | None \<Rightarrow> [])"

subsection \<open>What the counters count\<close>

text \<open>Only instruments that were created are ever used, and only their attributes vary.\<close>

definition series_of :: "otel_state \<Rightarrow> series set" where
  "series_of s = {x. otSums s x \<noteq> 0 \<or> otValues s x \<noteq> [] \<or> otGauges s x \<noteq> None}"

definition known :: "otel_state \<Rightarrow> bool" where
  "known s \<longleftrightarrow> (\<forall>n a. (n, a) \<in> series_of s \<longrightarrow> n \<in> fst ` set instruments)"

lemma known_record:
  assumes "known s" and "n \<in> fst ` set instruments"
  shows "known (counter_Add n v a s)" and "known (histogram_Record n v a s)" and "known (gauge_Record n v a s)"
proof -
  have "series_of (counter_Add n v a s) \<subseteq> insert (n, a) (series_of s)"
    "series_of (histogram_Record n v a s) \<subseteq> insert (n, a) (series_of s)"
    "series_of (gauge_Record n v a s) \<subseteq> insert (n, a) (series_of s)"
    by (auto simp: series_of_def counter_Add_def histogram_Record_def gauge_Record_def split: if_splits)
  with assms show "known (counter_Add n v a s)" "known (histogram_Record n v a s)" "known (gauge_Record n v a s)"
    unfolding known_def by blast+
qed

lemma instrument_names:
  "fst ` set instruments = {''orderbook.orders'', ''orderbook.orders.rejected'', ''orderbook.order.accept.duration'',
     ''orderbook.trades'', ''orderbook.traded.quantity'', ''orderbook.traded.notional'', ''orderbook.settlement.events'',
     ''orderbook.settlement.failures'', ''orderbook.settlement.lag'', ''orderbook.supply.cop'', ''orderbook.supply.vibranium''}"
  unfolding instruments_def by (simp only: list.set image_insert image_empty fst_conv)

lemma call_known:
  assumes "known s"
  shows "known (otel_call symbol m s)"
  unfolding otel_call_def
  by (cases m; simp only: metric.rec Otel_OrderPlaced_def Otel_OrderRejected_def Otel_TradeExecuted_def
      Otel_SettlementApplied_def Otel_MoneySupply_def Let_def split: if_split)
    (intro conjI impI known_record assms; simp only: instrument_names insert_iff simp_thms)+

lemma run_known: "known (foldl (\<lambda>s m. otel_call symbol m s) otel_empty ms)"
proof -
  have "known s \<Longrightarrow> known (foldl (\<lambda>s m. otel_call symbol m s) s ms)" for s
    by (induction ms arbitrary: s) (simp_all add: call_known)
  moreover have "known otel_empty" by (simp add: known_def series_of_def otel_empty_def)
  ultimately show ?thesis .
qed

lemma other_counter: "otSums (counter_Add n v a s) (k, b) = (if k = n \<and> b = a then add64 (otSums s (k, b)) v else otSums s (k, b))"
  by (auto simp: counter_Add_def)

lemma other_instrument: "otSums (histogram_Record n v a s) = otSums s" "otSums (gauge_Record n v a s) = otSums s"
  by (simp_all add: histogram_Record_def gauge_Record_def)

text \<open>The trade counter is the number of trades reported, up to the range of an \<open>int64\<close>.\<close>

lemma trades_counted:
  "otSums (foldl (\<lambda>s m. otel_call symbol m s) s ms) (''orderbook.trades'', [(''symbol'', symbol)])
   = foldl (\<lambda>n m. case m of MTradeExecuted t \<Rightarrow> add64 n 1 | _ \<Rightarrow> n)
       (otSums s (''orderbook.trades'', [(''symbol'', symbol)])) ms"
proof (induction ms arbitrary: s)
  case (Cons m ms)
  have "otSums (otel_call symbol m s) (''orderbook.trades'', [(''symbol'', symbol)])
    = (case m of MTradeExecuted t \<Rightarrow> add64 (otSums s (''orderbook.trades'', [(''symbol'', symbol)])) 1
       | _ \<Rightarrow> otSums s (''orderbook.trades'', [(''symbol'', symbol)]))"
    by (cases m) (simp_all add: other_counter other_instrument Otel_OrderPlaced_def Otel_OrderRejected_def Otel_TradeExecuted_def
      Otel_SettlementApplied_def Otel_MoneySupply_def Let_def)
  with Cons.IH [of "otel_call symbol m s"] show ?case by (simp split: metric.split)
qed simp

end
