(* ===== verification/Server.thy ===== *)
theory Server
  imports Rest
begin

section \<open>The HTTP server: options, dispatch, access log and spans\<close>

text \<open>
  \<open>internal/adapter/driving/rest/server.go\<close>. \<open>Handler\<close> registers the patterns of \<open>Rest\<close> with the
  handlers, wraps the router in the access log and, if asked to, in tracing. What the router
  of the library answers by itself (no such route, no such method) and the page of metrics
  are an argument: a response for each request.
\<close>

datatype rest_option = WithMetricsEndpoint | WithTracing

record Server =
  svrSymbol :: string
  svrMetrics :: bool
  svrTracing :: bool

primrec apply_option :: "rest_option \<Rightarrow> Server \<Rightarrow> Server" where
  "apply_option WithMetricsEndpoint s = s\<lparr>svrMetrics := True\<rparr>"
| "apply_option WithTracing s = s\<lparr>svrTracing := True\<rparr>"

definition NewServer :: "string \<Rightarrow> rest_option list \<Rightarrow> Server" where
  "NewServer symbol opts = foldl (\<lambda>s opt. apply_option opt s) \<lparr>svrSymbol = symbol, svrMetrics = False, svrTracing = False\<rparr> opts"

text \<open>A request, with what its body decodes to as an order and as a wallet.\<close>

record http_request =
  hrMethod :: string
  hrPath :: string
  hrQuery :: url_values
  hrOrder :: "placeOrderRequest option"
  hrWallet :: "upsertWalletRequest option"

record ('w, 'e, 'o, 't) service_state =
  ssTrading :: "('w, 'e, 'o) trading_state"
  ssTrades :: 't

definition with_wallets :: "response \<times> 'w \<Rightarrow> ('w, 'e, 'o, 't) service_state \<Rightarrow> response \<times> ('w, 'e, 'o, 't) service_state" where
  "with_wallets x s = (fst x, s\<lparr>ssTrading := (ssTrading s)\<lparr>tsWallets := snd x\<rparr>\<rparr>)"

definition with_trades :: "response \<times> 't \<Rightarrow> ('w, 'e, 'o, 't) service_state \<Rightarrow> response \<times> ('w, 'e, 'o, 't) service_state" where
  "with_trades x s = (fst x, s\<lparr>ssTrades := snd x\<rparr>)"

definition with_trading :: "response \<times> ('w, 'e, 'o) trading_state \<Rightarrow> ('w, 'e, 'o, 't) service_state
    \<Rightarrow> response \<times> ('w, 'e, 'o, 't) service_state" where
  "with_trading x s = (fst x, s\<lparr>ssTrading := snd x\<rparr>)"

text \<open>The handler that a pattern is registered with. \<open>None\<close>: the engine panicked and the process is gone.\<close>

fun serve_route :: "Server \<Rightarrow> ('w, 'e, 'o, BookSnapshot) Trading \<Rightarrow> 't TradeRepository \<Rightarrow> (http_request \<Rightarrow> response)
    \<Rightarrow> ctx \<Rightarrow> nat list \<Rightarrow> (nat \<Rightarrow> time) \<Rightarrow> http_request \<Rightarrow> route \<Rightarrow> ('w, 'e, 'o, 't) service_state
    \<Rightarrow> (response \<times> ('w, 'e, 'o, 't) service_state) option" where
  "serve_route srv T R lib c bytes now req RHealth s = Some (with_trades (handleHealth (svrSymbol srv) R c (ssTrades s)) s)"
| "serve_route srv T R lib c bytes now req RPlaceOrder s =
     map_option (\<lambda>x. with_trading x s) (handlePlaceOrder T c bytes now (hrOrder req) (ssTrading s))"
| "serve_route srv T R lib c bytes now req (RCancelOrder i) s =
     map_option (\<lambda>x. with_trading x s) (handleCancelOrder T c i (ssTrading s))"
| "serve_route srv T R lib c bytes now req (RGetOrder i) s = Some (with_trading (handleGetOrder T c i (ssTrading s)) s)"
| "serve_route srv T R lib c bytes now req RUpsertWallet s =
     Some (with_wallets (handleUpsertWallet (tdWallets T) c (hrWallet req) (tsWallets (ssTrading s))) s)"
| "serve_route srv T R lib c bytes now req RListWallets s =
     Some (with_wallets (handleListWallets (tdWallets T) c (tsWallets (ssTrading s))) s)"
| "serve_route srv T R lib c bytes now req (RGetWallet i) s =
     Some (with_wallets (handleGetWallet (tdWallets T) c i (tsWallets (ssTrading s))) s)"
| "serve_route srv T R lib c bytes now req RGetBook s =
     map_option (\<lambda>(r, eng). (r, s\<lparr>ssTrading := (ssTrading s)\<lparr>tsEngine := eng\<rparr>\<rparr>))
       (handleGetBook (tdEngine T) c (hrQuery req) (tsEngine (ssTrading s)))"
| "serve_route srv T R lib c bytes now req RGetTrades s = Some (with_trades (handleGetTrades R c (hrQuery req) (ssTrades s)) s)"
| "serve_route srv T R lib c bytes now req RMetrics s = Some (lib req, s)"

definition serve :: "Server \<Rightarrow> ('w, 'e, 'o, BookSnapshot) Trading \<Rightarrow> 't TradeRepository \<Rightarrow> (http_request \<Rightarrow> response)
    \<Rightarrow> ctx \<Rightarrow> nat list \<Rightarrow> (nat \<Rightarrow> time) \<Rightarrow> http_request \<Rightarrow> ('w, 'e, 'o, 't) service_state
    \<Rightarrow> (response \<times> ('w, 'e, 'o, 't) service_state) option" where
  "serve srv T R lib c bytes now req s =
     (case route_of (svrMetrics srv) (hrMethod req) (hrPath req) of
        None \<Rightarrow> Some (lib req, s)
      | Some rt \<Rightarrow> serve_route srv T R lib c bytes now req rt s)"

text \<open>What is seen of a request: the response, the line of the access log, the span.\<close>

record served =
  sdResponse :: response
  sdLine :: "string \<times> string \<times> int"
  sdSpan :: "string option"

definition Handler :: "Server \<Rightarrow> ('w, 'e, 'o, BookSnapshot) Trading \<Rightarrow> 't TradeRepository \<Rightarrow> (http_request \<Rightarrow> response)
    \<Rightarrow> ctx \<Rightarrow> nat list \<Rightarrow> (nat \<Rightarrow> time) \<Rightarrow> http_request \<Rightarrow> ('w, 'e, 'o, 't) service_state
    \<Rightarrow> (served \<times> ('w, 'e, 'o, 't) service_state) option" where
  "Handler srv T R lib c bytes now req s =
     map_option (\<lambda>(r, s').
       (\<lparr>sdResponse = r, sdLine = logging (hrMethod req) (hrPath req) (Some r),
         sdSpan = (if svrTracing srv \<and> span_filter (hrPath req) then Some (span_name (hrMethod req) (hrPath req)) else None)\<rparr>, s'))
       (serve srv T R lib c bytes now req s)"

subsection \<open>Reading requests\<close>

text \<open>What a client can see of the state of the services.\<close>

definition visible :: "('w, 'l engine_adapter, 'o, 't) service_state \<Rightarrow> 'w \<times> engine \<times> 'l \<times> 'o \<times> 't \<times> metric list" where
  "visible s = (tsWallets (ssTrading s), ea_engine (tsEngine (ssTrading s)), ea_log (tsEngine (ssTrading s)),
     tsOrders (ssTrading s), ssTrades s, tsMetrics (ssTrading s))"

primrec reading :: "route \<Rightarrow> bool" where
  "reading RHealth = True"
| "reading RPlaceOrder = False"
| "reading (RCancelOrder i) = False"
| "reading (RGetOrder i) = True"
| "reading RUpsertWallet = False"
| "reading RListWallets = True"
| "reading (RGetWallet i) = True"
| "reading RGetBook = True"
| "reading RGetTrades = True"
| "reading RMetrics = True"

lemma get_is_reading: "route_of m meth path = Some rt \<Longrightarrow> is_get meth \<Longrightarrow> reading rt"
  by (auto simp: route_of_def is_get_def split: if_splits option.splits)

lemma Depth_reads:
  "Engine_Depth L c d a = Some (r, a') \<Longrightarrow> ea_engine a' = ea_engine a \<and> ea_log a' = ea_log a"
  by (auto simp: Engine_Depth_def submit_def handleSnapshot_def Let_def split: if_splits option.splits prod.splits)

lemma mem_reads:
  "snd (WalletStore_Get c u ws) = ws" "snd (WalletStore_List c ws) = ws" "snd (OrderStore_Get c i os) = os"
  "snd (TradeStore_Recent c n t) = t" "snd (TradeStore_Count c t) = t"
  by (simp_all add: WalletStore_Get_def WalletStore_List_def OrderStore_Get_def TradeStore_Recent_def TradeStore_Count_def Let_def
      split: option.split)

lemma reading_changes_nothing:
  assumes "serve_route srv (mem_trading symbol) mem_trades lib c bytes now req rt s = Some (r, s')" and "reading rt"
  shows "visible s' = visible s"
  using assms mem_reads
  by (cases rt)
    (auto simp: with_trades_def with_trading_def with_wallets_def visible_def handleHealth_def MarketData_TradeCount_def
      handleGetOrder_def GetOrder_def mem_trading_unfold handleListWallets_def Wallets_List_def handleGetWallet_def Wallets_Get_def
      handleGetTrades_def MarketData_RecentTrades_def handleGetBook_def MarketData_Book_def engine_port_def case_prod_beta Let_def
      dest: Depth_reads)

end
