(* ===== verification/Startup.thy ===== *)
theory Startup
  imports Bootstrap Telemetry Server Settlement Queries
begin

section \<open>The entry point: logging, health check, telemetry, shutdown\<close>

text \<open>
  \<open>cmd/orderbook/main.go\<close>. \<open>main\<close> wires what the other theories model; here are its own
  decisions: the level of the logger, the exit code of the health check, what happens when
  telemetry cannot be built, and the order of the shutdown.
\<close>

datatype slog_level = LevelDebug | LevelInfo | LevelWarn | LevelError

definition newLogger :: "string \<Rightarrow> slog_level" where
  "newLogger level =
     (if level = ''debug'' then LevelDebug else if level = ''warn'' then LevelWarn
      else if level = ''error'' then LevelError else LevelInfo)"

text \<open>\<open>get\<close> is the HTTP client: an error, or the status of the answer.\<close>

definition runHealthcheck :: "(string \<Rightarrow> goerr + int) \<Rightarrow> string \<Rightarrow> int" where
  "runHealthcheck get addr =
     (case get (''http://'' @ addr @ ''/health'') of
        Inl err \<Rightarrow> 1
      | Inr status \<Rightarrow> if status \<noteq> 200 then 1 else 0)"

subsection \<open>Telemetry\<close>

datatype 'f sink = NoopSink | OtelSink "'f telemetry"
datatype main_line =
    TelemetryDisabled
  | TelemetryUnavailable goerr
  | TelemetryEnabled bool string
  | InfraUnavailable build_error
  | OrderbookListening string string "(string \<times> string) list"
  | HttpServerError goerr
  | ShuttingDown
  | HttpShutdownError goerr
  | Bye

definition buildTelemetry :: "telemetry_world \<Rightarrow> 'f::{linorder,zero} \<Rightarrow> 'f Config
    \<Rightarrow> 'f sink \<times> 'f telemetry option \<times> rest_option list \<times> main_line" where
  "buildTelemetry w float005 cfg =
     (if \<not> cfTelemetryEnabled cfg then (NoopSink, None, [], TelemetryDisabled)
      else case telemetry_New w float005
             \<lparr>tcServiceName = cfServiceName cfg, tcServiceVersion = cfServiceVersion cfg, tcSymbol = cfSymbol cfg,
              tcOTLPEndpoint = cfOTLPEndpoint cfg, tcTraceSampleRatio = cfTraceSampleRatio cfg\<rparr> of
             Inl e \<Rightarrow> (NoopSink, None, [], TelemetryUnavailable e)
           | Inr tel \<Rightarrow>
               (OtelSink tel, Some tel,
                [WithMetricsEndpoint] @ (if cfOTLPEndpoint cfg \<noteq> [] then [WithTracing] else []),
                TelemetryEnabled (cfOTLPEndpoint cfg \<noteq> []) (cfServiceName cfg)))"

subsection \<open>The function main\<close>

text \<open>
  The process is the infrastructure with its open clients, what telemetry and the server were
  built as, and what was done and logged so far. The calls of \<open>main\<close> that stop something are
  steps in the order they are made; what the goroutines do is modelled in the theories of
  their components.
\<close>

datatype goroutine = GoEngine | GoSettlement | GoReconciliation | GoHttp

datatype main_step =
    Go goroutine
  | HttpShutdown
  | CancelCtx goroutine
  | CloseLog
  | Sleep int
  | CancelShutdown
  | FlushTelemetry
  | CloseInfra

text \<open>
  The wiring: the arguments that the constructors of the engine and the services are called
  with. What a service does with its ports is in the theory of the service.
\<close>

record 'f wiring =
  wrEngine :: "string \<times> log_impl option \<times> int"
  wrTrading :: "string \<times> wallets_impl option \<times> orders_impl option \<times> 'f sink"
  wrMarket :: "trades_impl option"
  wrWallets :: "wallets_impl option"
  wrSettlement :: "log_impl option \<times> journal_impl option \<times> wallets_impl option \<times> trades_impl option \<times> orders_impl option \<times> 'f sink"
  wrReconciliation :: "wallets_impl option \<times> 'f sink \<times> int"

definition wire :: "'f Config \<Rightarrow> Infrastructure \<Rightarrow> 'f sink \<Rightarrow> 'f wiring" where
  "wire cfg infra metrics =
     \<lparr>wrEngine = (cfSymbol cfg, inLog infra, cfEngineBuffer cfg),
      wrTrading = (cfSymbol cfg, inWallets infra, inOrders infra, metrics),
      wrMarket = inTrades infra,
      wrWallets = inWallets infra,
      wrSettlement = (inLog infra, inJournal infra, inWallets infra, inTrades infra, inOrders infra, metrics),
      wrReconciliation = (inWallets infra, metrics, cfReconcileInterval cfg)\<rparr>"

record 'f process =
  psInfra :: Infrastructure
  psWiring :: "'f wiring option"
  psMetrics :: "'f sink"
  psServer :: Server
  psSteps :: "main_step list"
  psLines :: "main_line list"

text \<open>
  The context of \<open>Build\<close> ends after the waiting time and thirty seconds more; what the services
  answer to it is in \<open>services\<close>. What the world decides: the flag, the answer to the health check, the services, and how
  serving ends. Either \<open>ListenAndServe\<close> fails, or a signal arrives and \<open>Shutdown\<close> of the HTTP
  server returns nil or an error.
\<close>

datatype serving = ListenFailed goerr | Signalled "goerr option"

record main_world =
  mwHealthcheck :: bool
  mwGet :: "string \<Rightarrow> goerr + int"
  mwServices :: services
  mwTelemetry :: telemetry_world
  mwServing :: serving

text \<open>A process ends by a call of \<open>os.Exit\<close>, without its deferred calls, or by the return of \<open>main\<close>.\<close>

datatype 'f main_end = Exited int "'f process" | Returned "'f process"

definition did :: "main_step \<Rightarrow> 'f process \<Rightarrow> 'f process" where
  "did a p = p\<lparr>psSteps := psSteps p @ [a]\<rparr>"

definition say :: "main_line \<Rightarrow> 'f process \<Rightarrow> 'f process" where
  "say m p = p\<lparr>psLines := psLines p @ [m]\<rparr>"

text \<open>\<open>infra.Log.Close()\<close> closes the client of Kafka; the log in memory has none.\<close>

definition close_event_log :: "Infrastructure \<Rightarrow> Infrastructure" where
  "close_event_log i =
     (case inLog i of
        Some (KafkaEvents brokers topic buffer) \<Rightarrow> i\<lparr>inOpen := remove1 ResKafka (inOpen i)\<rparr>
      | _ \<Rightarrow> i)"

definition close_log :: "'f process \<Rightarrow> 'f process" where
  "close_log p = did CloseLog (p\<lparr>psInfra := close_event_log (psInfra p)\<rparr>)"

definition close_infra :: "'f process \<Rightarrow> 'f process" where
  "close_infra p = did CloseInfra (p\<lparr>psInfra := Infra_Close (psInfra p)\<rparr>)"

text \<open>Deferred calls run in the reverse of their order.\<close>

definition run_defers :: "('f process \<Rightarrow> 'f process) list \<Rightarrow> 'f process \<Rightarrow> 'f process" where
  "run_defers ds p = foldr (\<lambda>d q. d q) ds p"

definition start_process :: "'f process" where
  "start_process = \<lparr>psInfra = empty_infra, psWiring = None, psMetrics = NoopSink, psServer = NewServer [] [], psSteps = [], psLines = []\<rparr>"

definition graceful_shutdown :: "goerr option \<Rightarrow> 'f process \<Rightarrow> 'f process" where
  "graceful_shutdown err p =
     (let p1 = did HttpShutdown (say ShuttingDown p);
          p2 = (case err of None \<Rightarrow> p1 | Some e \<Rightarrow> say (HttpShutdownError e) p1);
          p3 = close_log (did (CancelCtx GoEngine) p2)
      in say Bye (did (CancelCtx GoSettlement) (did (Sleep 500000000) p3)))"

definition main :: "main_world \<Rightarrow> 'f::{linorder,zero} \<Rightarrow> 'f Config \<Rightarrow> 'f main_end option" where
  "main w float005 cfg =
     (if mwHealthcheck w then Some (Exited (runHealthcheck (mwGet w) (''127.0.0.1:'' @ cfPort cfg)) start_process)
      else case Build (mwServices w) cfg of
             None \<Rightarrow> None
           | Some (Inl (e, left)) \<Rightarrow>
               Some (Exited 1 (say (InfraUnavailable e) (start_process\<lparr>psInfra := empty_infra\<lparr>inOpen := left\<rparr>\<rparr>)))
           | Some (Inr infra) \<Rightarrow>
               (let (metrics, sdk, opts, m) = buildTelemetry (mwTelemetry w) float005 cfg;
                    flush = (if sdk \<noteq> None then [did FlushTelemetry] else []);
                    p1 = say m (start_process\<lparr>psInfra := infra, psWiring := Some (wire cfg infra metrics), psMetrics := metrics,
                      psServer := NewServer (cfSymbol cfg) opts\<rparr>);
                    p2 = did (Go GoReconciliation) (did (Go GoSettlement) (did (Go GoEngine) p1));
                    p3 = say (OrderbookListening (Addr cfg) (cfSymbol cfg) (inDescribe infra)) (did (Go GoHttp) p2)
                in case mwServing w of
                     ListenFailed e \<Rightarrow> Some (Exited 1 (say (HttpServerError e) p3))
                   | Signalled err \<Rightarrow>
                       Some (Returned (run_defers ([close_infra] @ flush @ [did (CancelCtx GoReconciliation)] @ [did CancelShutdown])
                         (graceful_shutdown err p3)))))"

subsection \<open>Shutdown\<close>

text \<open>
  \<open>stopEngine\<close> only cancels the context: the engine notices it in the next \<open>select\<close>, which may
  still choose a queued command, and a command it is working on goes on. \<open>late\<close> are the
  commands the engine handles after the log was closed; a panic of the engine is \<open>None\<close>.
\<close>

definition shutdown :: "'l EventLog \<Rightarrow> command list \<Rightarrow> engine \<times> 'l \<Rightarrow> (commandReply list \<times> engine \<times> 'l) option" where
  "shutdown L late x =
     (case x of (e, l) \<Rightarrow> (case el_Close L l of None \<Rightarrow> None | Some l' \<Rightarrow> run_commands L late (e, l')))"

context event_sink
begin

text \<open>On a closed log no event can be published, and every placed order publishes at least one.\<close>

lemma publish_panics: "closed l \<Longrightarrow> publish elog ev (e, l) = None"
  by (simp add: publish_def publish_closed)

lemma place_panics:
  assumes "closed l"
  shows "handle_command elog (cmdPlace o') (e, l) = None"
proof -
  have "publish_fills elog fs (e', l) = None \<or> publish_fills elog fs (e', l) = Some (e', l) \<and> fs = []" for fs e'
    by (cases fs) (simp_all add: publish_panics [OF assms])
  then show ?thesis
    by (auto simp: handlePlace_def publish_panics [OF assms] split: option.split prod.split) (metis option.distinct(1) option.inject publish_panics [OF assms])
qed

lemma command_keeps_closed:
  assumes "closed l" and "handle_command elog cmd (e, l) = Some (r, e', l')"
  shows "closed l'"
proof (cases cmd)
  case (cmdPlace o')
  with place_panics [OF assms(1)] assms(2) show ?thesis by simp
next
  case (cmdCancel i)
  with assms show ?thesis
    by (auto simp: handleCancel_def publish_panics split: option.splits prod.splits)
next
  case (cmdSnapshot d)
  with assms show ?thesis by (auto simp: handleSnapshot_def)
qed

lemma late_order_panics:
  assumes "closed l" and "cmdPlace o' \<in> set late"
  shows "run_commands elog late (e, l) = None"
  using assms
proof (induction late arbitrary: e l)
  case (Cons c cs)
  show ?case
  proof (cases "handle_command elog c (e, l)")
    case (Some x)
    then obtain r e' l' where x: "handle_command elog c (e, l) = Some (r, e', l')" by (cases x) auto
    then have "c \<noteq> cmdPlace o'" using place_panics [OF Cons.prems(1)] by auto
    with Cons.prems(2) have "cmdPlace o' \<in> set cs" by auto
    from Cons.IH [OF command_keeps_closed [OF Cons.prems(1) x] this] x show ?thesis by simp
  qed simp
qed simp

lemma shutdown_panics: "cmdPlace o' \<in> set late \<Longrightarrow> shutdown elog late (e, l) = None"
  by (auto simp: shutdown_def close_closes intro: late_order_panics split: option.split)

end

subsection \<open>The end of the process\<close>

definition clocks_run :: "services \<Rightarrow> bool" where
  "clocks_run sv \<longleftrightarrow> clock_runs (pgPings (svPgx sv)) \<and> clock_runs (rdPings (svRedis sv)) \<and> clock_runs (kwPings (svKafka sv))"

lemma clients_connect:
  assumes "clocks_run sv"
  shows "postgres_Connect (svPgx sv) url maxConns wait \<noteq> None" "redis_Connect (svRedis sv) url wait \<noteq> None"
    "kafka_New (svKafka sv) brokers topic buffer wait stored committed \<noteq> None"
  using assms
  by (auto simp: clocks_run_def postgres_Connect_def redis_Connect_def kafka_New_def waitForBrokers_def Let_def poll_returns
      simp del: not_None_eq split: sum.split option.split)

lemma and_then_returns: "r \<noteq> None \<Longrightarrow> (\<And>x. k x \<noteq> None) \<Longrightarrow> and_then r k \<noteq> None"
  by (cases r) (auto simp: and_then_def split: sum.split)

lemma Build_returns:
  assumes "clocks_run sv"
  shows "Build sv cfg \<noteq> None"
proof -
  have "build_postgres sv cfg \<noteq> None"
    using clients_connect(1) [OF assms] by (auto simp: build_postgres_def simp del: not_None_eq split: option.split sum.split prod.split)
  moreover have "build_cache sv cfg i \<noteq> None" for i
    using clients_connect(2) [OF assms] by (auto simp: build_cache_def fail_with_def simp del: not_None_eq split: option.split prod.split)
  moreover have "build_log sv cfg i \<noteq> None" for i
    by (auto simp: build_log_def fail_with_def clients_connect(3) [OF assms] simp del: not_None_eq split: option.split sum.split prod.split)
  moreover have "build_wallets cfg i \<noteq> None" "build_trades cfg i \<noteq> None" "build_orders cfg i \<noteq> None" for i
    by (simp_all add: build_wallets_def build_trades_def build_orders_def fail_with_def)
  ultimately show ?thesis unfolding Build_def by (intro and_then_returns) auto
qed

text \<open>What holds of the result of a stage; an error leaves nothing open or is an unknown driver.\<close>

definition ensures :: "('a \<Rightarrow> bool) \<Rightarrow> 'a built \<Rightarrow> bool" where
  "ensures P r = (case r of None \<Rightarrow> True
     | Some (Inl (e, left)) \<Rightarrow> left = [] \<or> (\<exists>name v. e = UnknownDriver name v)
     | Some (Inr x) \<Rightarrow> P x)"

lemma ensures_and_then: "ensures P r \<Longrightarrow> (\<And>x. P x \<Longrightarrow> ensures Q (k x)) \<Longrightarrow> ensures Q (and_then r k)"
proof (cases "\<exists>x. r = Some (Inr x)")
  case True
  assume "ensures P r" and k: "\<And>x. P x \<Longrightarrow> ensures Q (k x)"
  with True obtain x where "r = Some (Inr x)" "P x" by (auto simp: ensures_def)
  with k show ?thesis by (simp add: and_then_def)
next
  case False
  assume "ensures P r"
  with False show ?thesis by (auto simp: ensures_def and_then_def split: option.splits sum.splits)
qed

definition before_cache :: "Infrastructure \<Rightarrow> bool" where
  "before_cache i \<longleftrightarrow> accounted i \<and> \<not> inRdb i"

lemma postgres_ensures: "ensures before_cache (build_postgres sv cfg)"
proof (cases "build_postgres sv cfg")
  case (Some r)
  from build_postgres_cases [OF this] Some show ?thesis
    by (auto simp: ensures_def before_cache_def accounted_def empty_infra_def split: sum.splits)
qed (simp add: ensures_def)

lemma stores_ensure:
  assumes "before_cache i"
  shows "ensures before_cache (build_wallets cfg i)" "ensures before_cache (build_trades cfg i)"
    "ensures before_cache (build_orders cfg i)"
  using assms
  by (simp_all add: ensures_def before_cache_def accounted_def build_wallets_def build_trades_def build_orders_def fail_with_def)

lemma cache_ensures:
  assumes "before_cache i"
  shows "ensures accounted (build_cache sv cfg (build_journal i))"
proof (cases "build_cache sv cfg (build_journal i)")
  case (Some r)
  have "accounted (build_journal i)" "\<not> inRdb (build_journal i)"
    using assms by (simp_all add: before_cache_def accounted_def build_journal_def)
  from build_cache_cases [OF Some this] Some show ?thesis by (auto simp: ensures_def split: sum.splits)
qed (simp add: ensures_def)

lemma log_ensures:
  assumes "accounted i"
  shows "ensures (\<lambda>i. inOpen (Infra_Close (close_event_log i)) = []) (build_log sv cfg i)"
proof (cases "cfEventLogDriver cfg = DriverKafka")
  case True
  with assms show ?thesis
    by (cases "inPool i"; cases "inRdb i")
      (auto simp: ensures_def build_log_def fail_with_def accounted_Close close_event_log_def accounted_def Infra_Close_def Let_def
        split: option.split sum.split prod.split)
next
  case False
  then show ?thesis
    using assms accounted_Close [of i]
    by (cases "cfEventLogDriver cfg = DriverMemory")
      (auto simp: ensures_def build_log_def fail_with_def close_event_log_def accounted_def Infra_Close_def Let_def)
qed

lemma Build_ensures: "ensures (\<lambda>i. inOpen (Infra_Close (close_event_log i)) = []) (Build sv cfg)"
  unfolding Build_def
  by (intro ensures_and_then [OF postgres_ensures] ensures_and_then [OF stores_ensure(1)] ensures_and_then [OF stores_ensure(2)]
      ensures_and_then [OF stores_ensure(3)] ensures_and_then [OF cache_ensures] log_ensures)

lemma process_fields [simp]:
  "psInfra (did a p) = psInfra p" "psInfra (say m p) = psInfra p" "psSteps (did a p) = psSteps p @ [a]" "psSteps (say m p) = psSteps p"
  "psLines (did a p) = psLines p" "psLines (say m p) = psLines p @ [m]"
  by (simp_all add: did_def say_def)

lemma shutdown_fields:
  "psInfra (graceful_shutdown err p) = close_event_log (psInfra p)"
  "psSteps (graceful_shutdown err p) = psSteps p @ [HttpShutdown, CancelCtx GoEngine, CloseLog, Sleep 500000000, CancelCtx GoSettlement]"
  by (simp_all add: graceful_shutdown_def close_log_def Let_def split: option.split)

lemma defers_fields:
  "psInfra (run_defers ([close_infra] @ (if flush then [did FlushTelemetry] else []) @ [did (CancelCtx GoReconciliation)] @ [did CancelShutdown]) p)
     = Infra_Close (psInfra p)"
  "psSteps (run_defers ([close_infra] @ (if flush then [did FlushTelemetry] else []) @ [did (CancelCtx GoReconciliation)] @ [did CancelShutdown]) p)
     = psSteps p @ [CancelShutdown, CancelCtx GoReconciliation] @ (if flush then [FlushTelemetry] else []) @ [CloseInfra]"
  by (simp_all add: run_defers_def close_infra_def)

end
