(* ===== verification/Loadtest.thy ===== *)
theory Loadtest
  imports Queries Polling
begin

section \<open>The load test\<close>

text \<open>
  \<open>scripts/loadtest/main.go\<close>: the client that drives the service and then checks that no money
  was created or destroyed. What the server answers is an argument, round by round where the
  client polls: an error, or a status and what the body decodes to (\<open>None\<close> when it does not).
  \<open>log.Fatalf\<close> ends the process, which is an outcome of its own.
\<close>

type_synonym 'a http_answer = "goerr + int \<times> 'a option"

record load_world =
  lwNow :: "nat \<Rightarrow> time"
  lwHealth :: "nat \<Rightarrow> int http_answer"

definition decode_error :: goerr where
  "decode_error = ErrInfra ''invalid JSON''"

text \<open>\<open>fetchHealth\<close>: the number of trades and an error.\<close>

definition fetchHealth :: "int http_answer \<Rightarrow> int \<times> goerr option" where
  "fetchHealth r =
     (case r of
        Inl e \<Rightarrow> (0, Some e)
      | Inr (status, None) \<Rightarrow> (0, Some decode_error)
      | Inr (status, Some trades) \<Rightarrow>
          if status \<noteq> 200 then (trades, Some (ErrInfra (''health status '' @ itoa status))) else (trades, None))"

subsection \<open>Waiting\<close>

datatype api_outcome = ApiUp | ApiFatal

partial_function (option) waitForAPI_loop :: "load_world \<Rightarrow> time \<Rightarrow> nat \<Rightarrow> (api_outcome \<times> nat) option" where
  "waitForAPI_loop w deadline i =
     (if snd (fetchHealth (lwHealth w i)) = None then Some (ApiUp, i)
      else if lwNow w i > deadline then Some (ApiFatal, i)
      else waitForAPI_loop w deadline (Suc i))"

text \<open>How \<open>waitForSettlement\<close> ends, with the number of trades it returns.\<close>

datatype settle_outcome = Drained int | Stalled int | Incomplete int

primrec settled_trades :: "settle_outcome \<Rightarrow> int" where
  "settled_trades (Drained n) = n"
| "settled_trades (Stalled n) = n"
| "settled_trades (Incomplete n) = n"

partial_function (option) settle_loop :: "load_world \<Rightarrow> int \<Rightarrow> time \<Rightarrow> int \<Rightarrow> int \<Rightarrow> nat \<Rightarrow> (settle_outcome \<times> nat) option" where
  "settle_loop w expected deadline last' stableFor i =
     (if lwNow w i < deadline then
        (case fetchHealth (lwHealth w i) of
           (trades, None) \<Rightarrow>
             if trades \<ge> expected then Some (Drained trades, i)
             else (let steady = (if trades = last' then stableFor + 1 else 0)
                   in if steady \<ge> 12 then Some (Stalled trades, i)
                      else settle_loop w expected deadline trades steady (Suc i))
         | (trades, Some e) \<Rightarrow> settle_loop w expected deadline last' stableFor (Suc i))
      else Some (Incomplete last', i))"

definition waitForSettlement :: "load_world \<Rightarrow> int \<Rightarrow> time \<Rightarrow> int \<Rightarrow> (settle_outcome \<times> nat) option" where
  "waitForSettlement w expected start wait = settle_loop w expected (start + wait) (- 1) 0 0"

subsection \<open>The requests\<close>

datatype seed_outcome = Seeded | SeedFatal

definition load_seed :: "goerr + int \<Rightarrow> seed_outcome" where
  "load_seed r = (case r of Inl e \<Rightarrow> SeedFatal | Inr status \<Rightarrow> if status \<noteq> 201 then SeedFatal else Seeded)"

text \<open>What is seeded for the pairs: user, COP and Vibranium of each wallet.\<close>

definition seedAll :: "nat \<Rightarrow> int \<Rightarrow> int \<Rightarrow> (string \<times> int \<times> int) list" where
  "seedAll pairs price qty =
     concat (map (\<lambda>i. [(''buyer-'' @ itoa (int i), mul64 price qty, 0), (''seller-'' @ itoa (int i), 0, qty)]) [0..<pairs])"

definition postOrder :: "goerr + int \<Rightarrow> bool" where
  "postOrder r = (case r of Inl e \<Rightarrow> False | Inr status \<Rightarrow> status = 201)"

subsection \<open>The check\<close>

text \<open>The loop of \<open>totals\<close>: COP, Vibranium, and what is still locked.\<close>

fun totals_loop :: "wallet list \<Rightarrow> int \<times> int \<times> int \<Rightarrow> int \<times> int \<times> int" where
  "totals_loop [] acc = acc"
| "totals_loop (w # ws) (cop, vib, locked) =
     totals_loop ws (add64 cop (add64 (COPAvailable w) (COPLocked w)),
                     add64 vib (add64 (VibraniumAvailable w) (VibraniumLocked w)),
                     add64 locked (add64 (COPLocked w) (VibraniumLocked w)))"

definition load_totals :: "wallet list http_answer \<Rightarrow> goerr + int \<times> int \<times> int" where
  "load_totals r =
     (case r of
        Inl e \<Rightarrow> Inl e
      | Inr (status, None) \<Rightarrow> Inl decode_error
      | Inr (status, Some ws) \<Rightarrow> Inr (totals_loop ws (0, 0, 0)))"

datatype verdict = VerdictOK | VerdictConserved | VerdictFail | VerdictFatal

definition verify :: "wallet list http_answer \<Rightarrow> int \<Rightarrow> int \<Rightarrow> int \<Rightarrow> int \<Rightarrow> verdict" where
  "verify r expectedCOP expectedVib settled expectedTrades =
     (case load_totals r of
        Inl e \<Rightarrow> VerdictFatal
      | Inr (totalCOP, totalVib, stillLocked) \<Rightarrow>
          (let conserved = (totalCOP = expectedCOP \<and> totalVib = expectedVib)
           in if conserved \<and> settled = expectedTrades \<and> stillLocked = 0 then VerdictOK
              else if conserved then VerdictConserved else VerdictFail))"

subsection \<open>Lemmas\<close>

text \<open>The client adds up what reconciliation adds up.\<close>

lemma totals_loop_foldl:
  "\<exists>l'. totals_loop ws (cop, vib, l) =
    (fst (foldl (\<lambda>(cop, vib) w. (add64 cop (TotalCOP w), add64 vib (TotalVibranium w))) (cop, vib) ws),
     snd (foldl (\<lambda>(cop, vib) w. (add64 cop (TotalCOP w), add64 vib (TotalVibranium w))) (cop, vib) ws), l')"
  by (induction ws arbitrary: cop vib l) (simp_all add: TotalCOP_def TotalVibranium_def)

lemma load_totals_totals: "\<exists>l. load_totals (Inr (status, Some ws)) = Inr (fst (totals ws), snd (totals ws), l)"
  using totals_loop_foldl [of ws 0 0 0] by (auto simp: load_totals_def totals_def)

definition quarter_second :: time where
  "quarter_second = 250000000"

lemma quarter_clock:
  assumes "\<And>i. lwNow w i + quarter_second \<le> lwNow w (Suc i)"
  shows "lwNow w 0 + int i * quarter_second \<le> lwNow w i"
proof (induction i)
  case (Suc i)
  with assms [of i] show ?case by (simp add: algebra_simps)
qed simp

lemma settle_stops:
  assumes "deadline \<le> lwNow w n" and "i \<le> n"
  shows "\<exists>r k. settle_loop w expected deadline last' steady i = Some (r, k) \<and> k \<le> n
    \<and> (\<forall>t. r = Drained t \<longrightarrow> expected \<le> t \<and> fetchHealth (lwHealth w k) = (t, None))"
  using assms(2)
proof (induction "n - i" arbitrary: i last' steady)
  case 0
  with assms(1) show ?case by (subst settle_loop.simps) auto
next
  case (Suc m)
  have ih: "\<exists>r k. settle_loop w expected deadline l s (Suc i) = Some (r, k) \<and> k \<le> n
    \<and> (\<forall>t. r = Drained t \<longrightarrow> expected \<le> t \<and> fetchHealth (lwHealth w k) = (t, None))" for l s
    using Suc.hyps(1) [of "Suc i"] Suc.hyps(2) Suc.prems by simp
  obtain trades err where h: "fetchHealth (lwHealth w i) = (trades, err)" by fastforce
  show ?case
  proof (cases "lwNow w i < deadline \<and> (err \<noteq> None \<or> trades < expected \<and> (if trades = last' then steady + 1 else 0) < 12)")
    case True
    then show ?thesis using ih h by (subst settle_loop.simps) (auto simp: Let_def split: option.split)
  next
    case False
    then show ?thesis using h Suc.prems by (subst settle_loop.simps) (auto simp: Let_def split: option.split)
  qed
qed

lemma waitForSettlement_ends:
  assumes "\<And>i. lwNow w i + quarter_second \<le> lwNow w (Suc i)" and "start \<le> lwNow w 0" and "0 \<le> wait"
  shows "\<exists>r k. waitForSettlement w expected start wait = Some (r, k) \<and> k \<le> nat (wait div quarter_second) + 1
    \<and> (\<forall>t. r = Drained t \<longrightarrow> expected \<le> t \<and> fetchHealth (lwHealth w k) = (t, None))"
  unfolding waitForSettlement_def
proof (rule settle_stops)
  let ?n = "nat (wait div quarter_second) + 1"
  have "wait < int ?n * quarter_second" using assms(3) by (intro rounds_cover) (simp_all add: quarter_second_def)
  with quarter_clock [OF assms(1), of ?n] assms(2) show "start + wait \<le> lwNow w ?n" by linarith
qed simp

end
