(* ===== verification/Loadtest_Run.thy ===== *)
theory Loadtest_Run
  imports Loadtest Engine_Spec
begin

section \<open>A run of the load test: the workers, and the matching they provoke\<close>

text \<open>
  \<open>main\<close> and \<open>seedAll\<close> of \<open>scripts/loadtest/main.go\<close> share a shape: a closed channel of jobs, a
  number of workers that take jobs from it, and two requests for each job, one after the other.
  The workers interleave in any way, so they are a step relation. \<open>main\<close> itself runs one thing
  after the other; what the server answers to each request is an argument.
\<close>

datatype request =
    SeedRequest string int int
  | OrderRequest string side int int

definition seed_job :: "int \<Rightarrow> int \<Rightarrow> int \<Rightarrow> request list" where
  "seed_job price qty i =
     [SeedRequest (''buyer-'' @ itoa i) (mul64 price qty) 0, SeedRequest (''seller-'' @ itoa i) 0 qty]"

definition order_job :: "int \<Rightarrow> int \<Rightarrow> int \<Rightarrow> request list" where
  "order_job price qty i =
     [OrderRequest (''seller-'' @ itoa i) Sell price qty, OrderRequest (''buyer-'' @ itoa i) Buy price qty]"

text \<open>
  The pool: the jobs left in the channel, what each worker still has to send for its job, the
  requests sent so far, and the two counters.
\<close>

record pool =
  plJobs :: "int list"
  plWorkers :: "request list list"
  plSent :: "request list"
  plPlaced :: int
  plFailed :: int

definition start_pool :: "nat \<Rightarrow> nat \<Rightarrow> pool" where
  "start_pool pairs concurrency = \<lparr>plJobs = map int [0..<pairs], plWorkers = replicate concurrency [],
     plSent = [], plPlaced = 0, plFailed = 0\<rparr>"

text \<open>The answer counts: \<open>if postOrder(...) { placed++ } else { failed++ }\<close>.\<close>

definition tally :: "goerr + int \<Rightarrow> pool \<Rightarrow> pool" where
  "tally answer p = (if postOrder answer then p\<lparr>plPlaced := add64 (plPlaced p) 1\<rparr>
     else p\<lparr>plFailed := add64 (plFailed p) 1\<rparr>)"

inductive pool_step :: "(int \<Rightarrow> request list) \<Rightarrow> pool \<Rightarrow> pool \<Rightarrow> bool" for job where
  Take: "plJobs p = i # is \<Longrightarrow> w < length (plWorkers p) \<Longrightarrow> plWorkers p ! w = [] \<Longrightarrow>
     pool_step job p (p\<lparr>plJobs := is, plWorkers := (plWorkers p)[w := job i]\<rparr>)"
| Send: "w < length (plWorkers p) \<Longrightarrow> plWorkers p ! w = r # rs \<Longrightarrow>
     pool_step job p (tally answer (p\<lparr>plWorkers := (plWorkers p)[w := rs], plSent := plSent p @ [r]\<rparr>))"

inductive pool_run :: "(int \<Rightarrow> request list) \<Rightarrow> pool \<Rightarrow> pool \<Rightarrow> bool" for job p0 where
  pool_start: "pool_run job p0 p0"
| pool_more: "pool_run job p0 p \<Longrightarrow> pool_step job p p' \<Longrightarrow> pool_run job p0 p'"

inductive_cases pool_stepE: "pool_step job p p'"

text \<open>\<open>wg.Wait()\<close> returns: every worker has left its loop over the channel.\<close>

definition pool_done :: "pool \<Rightarrow> bool" where
  "pool_done p \<longleftrightarrow> (plWorkers p \<noteq> [] \<longrightarrow> plJobs p = []) \<and> (\<forall>rs\<in>set (plWorkers p). rs = [])"

lemma tally_simps [simp]:
  "plJobs (tally a p) = plJobs p" "plWorkers (tally a p) = plWorkers p" "plSent (tally a p) = plSent p"
  by (simp_all add: tally_def)

subsection \<open>Every job is done once, whatever the workers do\<close>

lemma concat_update:
  assumes "w < length xss"
  shows "mset (concat (xss[w := ys])) + mset (xss ! w) = mset (concat xss) + mset ys"
proof -
  have "concat (xss[w := ys]) = concat (take w xss) @ ys @ concat (drop (Suc w) xss)"
    using assms by (simp add: upd_conv_take_nth_drop)
  moreover have "concat xss = concat (take w xss) @ (xss ! w) @ concat (drop (Suc w) xss)"
    using assms by (metis concat.simps(2) concat_append id_take_nth_drop)
  ultimately show ?thesis by simp
qed

definition pool_inv :: "(int \<Rightarrow> request list) \<Rightarrow> nat \<Rightarrow> pool \<Rightarrow> bool" where
  "pool_inv job pairs p \<longleftrightarrow>
     mset (plSent p) + mset (concat (plWorkers p)) + mset (concat (map job (plJobs p))) = mset (concat (map job (map int [0..<pairs])))
     \<and> 0 \<le> plPlaced p \<and> 0 \<le> plFailed p \<and> plPlaced p + plFailed p = int (length (plSent p))"

lemma pool_step_inv:
  assumes "pool_step job p p'" and "pool_inv job pairs p" and room: "int (length (concat (map job (map int [0..<pairs])))) \<le> max_i64"
  shows "pool_inv job pairs p'"
  using assms(1,2)
proof (induction rule: pool_step.induct)
  case (Take p i js w)
  from concat_update [OF Take.hyps(2), of "job i"] Take show ?case by (simp add: pool_inv_def ac_simps)
next
  case (Send w p r rs answer)
  let ?p = "p\<lparr>plWorkers := (plWorkers p)[w := rs], plSent := plSent p @ [r]\<rparr>"
  have m: "mset (concat ((plWorkers p)[w := rs])) + {#r#} = mset (concat (plWorkers p))"
    using concat_update [OF Send.hyps(1), of rs] Send.hyps(2) by simp
  have "mset (plSent ?p) + mset (concat (plWorkers ?p)) + mset (concat (map job (plJobs ?p)))
    = mset (plSent p) + (mset (concat ((plWorkers p)[w := rs])) + {#r#}) + mset (concat (map job (plJobs p)))"
    by (simp add: ac_simps)
  also have "\<dots> = mset (concat (map job (map int [0..<pairs])))" using Send.prems unfolding m by (simp add: pool_inv_def)
  finally have sent: "mset (plSent ?p) + mset (concat (plWorkers ?p)) + mset (concat (map job (plJobs ?p)))
    = mset (concat (map job (map int [0..<pairs])))" .
  from arg_cong [OF this, of size]
  have "length (plSent p) + 1 \<le> length (concat (map job (map int [0..<pairs])))" by simp
  then have "int (length (plSent p)) + 1 \<le> max_i64" using room by simp
  with Send.prems have "add64 (plPlaced p) 1 = plPlaced p + 1" "add64 (plFailed p) 1 = plFailed p + 1"
    by (auto simp: pool_inv_def intro!: add64_id i64_nonneg)
  with sent Send.prems show ?case by (simp add: pool_inv_def tally_def)
qed

lemma pool_run_inv:
  assumes "pool_run job (start_pool pairs concurrency) p" and room: "int (length (concat (map job (map int [0..<pairs])))) \<le> max_i64"
  shows "pool_inv job pairs p"
  using assms(1)
proof (induction rule: pool_run.induct)
  case pool_start
  show ?case by (simp add: pool_inv_def start_pool_def)
next
  case (pool_more p p')
  then show ?case using pool_step_inv room by blast
qed

text \<open>When all workers are done each request was sent exactly once, and every answer was counted.\<close>

lemma pool_done_all:
  assumes "pool_inv job pairs p" and "pool_done p" and "plWorkers p \<noteq> []"
  shows "mset (plSent p) = mset (concat (map job (map int [0..<pairs])))"
    and "plPlaced p + plFailed p = int (length (concat (map job (map int [0..<pairs]))))"
proof -
  have "concat (plWorkers p) = []" "plJobs p = []" using assms(2,3) by (auto simp: pool_done_def)
  then have e: "mset (plSent p) = mset (concat (map job (map int [0..<pairs])))"
    using assms(1) unfolding pool_inv_def by (metis concat.simps(1) list.simps(8) mset.simps(1) add.right_neutral)
  then show "mset (plSent p) = mset (concat (map job (map int [0..<pairs])))" .
  show "plPlaced p + plFailed p = int (length (concat (map job (map int [0..<pairs]))))"
    using assms(1) mset_eq_length [OF e] by (simp add: pool_inv_def)
qed

lemma pool_run_workers: "pool_run job p0 p \<Longrightarrow> length (plWorkers p) = length (plWorkers p0)"
  by (induction rule: pool_run.induct) (auto elim!: pool_stepE)

text \<open>When all workers are done nothing more happens.\<close>

lemma pool_done_stops: "pool_done p \<Longrightarrow> \<not> pool_step job p p'"
  by (auto simp: pool_done_def all_set_conv_all_nth elim!: pool_stepE)

text \<open>No deadlock: a pool that is not done takes another step. And every run ends.\<close>

lemma pool_progress:
  assumes "\<not> pool_done p"
  shows "\<exists>p'. pool_step job p p'"
proof (cases "\<exists>rs\<in>set (plWorkers p). rs \<noteq> []")
  case True
  then obtain w where "w < length (plWorkers p)" "plWorkers p ! w \<noteq> []" by (auto simp: in_set_conv_nth)
  then show ?thesis by (cases "plWorkers p ! w") (auto intro: pool_step.Send)
next
  case False
  with assms have ne: "plWorkers p \<noteq> []" "plJobs p \<noteq> []" unfolding pool_done_def by blast+
  then obtain i js where "plJobs p = i # js" "0 < length (plWorkers p)" by (cases "plJobs p") auto
  moreover have "plWorkers p ! 0 = []" using False ne(1) by (cases "plWorkers p") auto
  ultimately show ?thesis by (blast intro: pool_step.Take)
qed

definition pool_left :: "(int \<Rightarrow> request list) \<Rightarrow> pool \<Rightarrow> nat" where
  "pool_left job p = length (plJobs p) + length (concat (map job (plJobs p))) + length (concat (plWorkers p))"

lemma pool_left_decreases: "pool_step job p p' \<Longrightarrow> pool_left job p' < pool_left job p"
proof (induction rule: pool_step.induct)
  case (Take p i js w)
  from arg_cong [OF concat_update [OF Take.hyps(2), of "job i"], of size] Take show ?case by (simp add: pool_left_def)
next
  case (Send w p r rs answer)
  from arg_cong [OF concat_update [OF Send.hyps(1), of rs], of size] Send show ?case by (simp add: pool_left_def)
qed

lemma pool_finishes: "\<exists>p'. pool_run job p0 p' \<and> pool_done p'" if "pool_run job p0 p" for p0 p
  using that
proof (induction "pool_left job p" arbitrary: p rule: less_induct)
  case less
  show ?case
  proof (cases "pool_done p")
    case False
    then obtain p' where "pool_step job p p'" using pool_progress by blast
    with less pool_left_decreases pool_run.pool_more show ?thesis by blast
  qed (use less.prems in blast)
qed

lemma length_jobs:
  "length (concat (map (order_job price qty) is)) = 2 * length is" "length (concat (map (seed_job price qty) is)) = 2 * length is"
  by (induction "is") (simp_all add: order_job_def seed_job_def)

text \<open>What the workers of \<open>seedAll\<close> send is what the sequential loop would send.\<close>

lemma seed_jobs: "map (\<lambda>r. case r of SeedRequest u c v \<Rightarrow> (u, c, v) | _ \<Rightarrow> ([], 0, 0)) (concat (map (seed_job price qty) (map int [0..<pairs])))
  = seedAll pairs price qty"
  by (induction pairs) (simp_all add: seedAll_def seed_job_def)

subsection \<open>\<open>main\<close>\<close>

record load_run =
  lrUp :: load_world
  lrSeeds :: "(goerr + int) list"
  lrBase :: "wallet list http_answer"
  lrBaseHealth :: "int http_answer"
  lrOrders :: pool
  lrSettle :: load_world
  lrFinal :: "wallet list http_answer"

text \<open>
  \<open>lrOrders\<close> is the pool when \<open>wg.Wait()\<close> returns. The run ends with \<open>log.Fatalf\<close>, or with the
  two counters, how the wait for settlement ended, and the verdict.
\<close>

datatype load_outcome =
    LoadFatal
  | LoadDone int int settle_outcome verdict

definition waitForAPI :: "load_world \<Rightarrow> time \<Rightarrow> time \<Rightarrow> (api_outcome \<times> nat) option" where
  "waitForAPI w start wait = waitForAPI_loop w (start + wait) 0"

definition base_trades :: "int http_answer \<Rightarrow> int" where
  "base_trades r = (case fetchHealth r of (trades, None) \<Rightarrow> trades | (trades, Some e) \<Rightarrow> 0)"

definition load_main :: "int \<Rightarrow> time \<Rightarrow> time \<Rightarrow> time \<Rightarrow> load_run \<Rightarrow> load_outcome option" where
  "load_main pairs settleWait start settleStart w =
     (case waitForAPI (lrUp w) start 60000000000 of
        None \<Rightarrow> None
      | Some (ApiFatal, _) \<Rightarrow> Some LoadFatal
      | Some (ApiUp, _) \<Rightarrow>
          if list_ex (\<lambda>r. load_seed r = SeedFatal) (lrSeeds w) then Some LoadFatal
          else case load_totals (lrBase w) of
            Inl e \<Rightarrow> Some LoadFatal
          | Inr (baseCOP, baseVib, _) \<Rightarrow>
              (let baseTrades = base_trades (lrBaseHealth w)
               in case waitForSettlement (lrSettle w) (baseTrades + pairs) settleStart settleWait of
                    None \<Rightarrow> None
                  | Some (r, _) \<Rightarrow>
                      (let v = verify (lrFinal w) baseCOP baseVib (settled_trades r - baseTrades) pairs
                       in Some (if v = VerdictFatal then LoadFatal
                                else LoadDone (plPlaced (lrOrders w)) (plFailed (lrOrders w)) r v))))"

text \<open>\<open>waitForAPI\<close> ends: its clock passes the deadline.\<close>

lemma waitForAPI_stops:
  assumes "deadline < lwNow w n" and "i \<le> n"
  shows "\<exists>r k. waitForAPI_loop w deadline i = Some (r, k) \<and> k \<le> n \<and> (r = ApiUp \<longleftrightarrow> snd (fetchHealth (lwHealth w k)) = None)"
  using assms(2)
proof (induction "n - i" arbitrary: i)
  case 0
  with assms(1) show ?case by (subst waitForAPI_loop.simps) auto
next
  case (Suc m)
  then have "\<exists>r k. waitForAPI_loop w deadline (Suc i) = Some (r, k) \<and> k \<le> n \<and> (r = ApiUp \<longleftrightarrow> snd (fetchHealth (lwHealth w k)) = None)"
    using Suc.hyps(1) [of "Suc i"] by simp
  with Suc.prems show ?case by (subst waitForAPI_loop.simps) auto
qed

text \<open>The whole run ends, whatever the server answers, as long as the clocks go on.\<close>

lemma load_main_ends:
  assumes up: "\<And>i. lwNow (lrUp w) i + half_second \<le> lwNow (lrUp w) (Suc i)" "start \<le> lwNow (lrUp w) 0"
    and settle: "\<And>i. lwNow (lrSettle w) i + quarter_second \<le> lwNow (lrSettle w) (Suc i)" "settleStart \<le> lwNow (lrSettle w) 0"
      "0 \<le> settleWait"
  shows "\<exists>out. load_main pairs settleWait start settleStart w = Some out
    \<and> (\<forall>placed failed n v. out = LoadDone placed failed (Drained n) v \<longrightarrow> base_trades (lrBaseHealth w) + pairs \<le> n)"
proof -
  have c: "lwNow (lrUp w) 0 + int i * half_second \<le> lwNow (lrUp w) i" for i
  proof (induction i)
    case (Suc i)
    with up(1) [of i] show ?case by (simp add: algebra_simps)
  qed simp
  have "start + 60000000000 < lwNow (lrUp w) 121" using c [of 121] up(2) by (simp add: half_second_def)
  from waitForAPI_stops [OF this, of 0] obtain r k where 1: "waitForAPI (lrUp w) start 60000000000 = Some (r, k)"
    by (auto simp: waitForAPI_def)
  show ?thesis
  proof (cases r)
    case ApiUp
    show ?thesis
    proof (cases "list_ex (\<lambda>r. load_seed r = SeedFatal) (lrSeeds w)")
      case False
      show ?thesis
      proof (cases "load_totals (lrBase w)")
        case (Inr b)
        obtain baseCOP baseVib l where b: "b = (baseCOP, baseVib, l)" by (cases b) auto
        obtain o' k' where s: "waitForSettlement (lrSettle w) (base_trades (lrBaseHealth w) + pairs) settleStart settleWait = Some (o', k')"
          "\<forall>t. o' = Drained t \<longrightarrow> base_trades (lrBaseHealth w) + pairs \<le> t"
          using waitForSettlement_ends [OF settle] by blast
        then show ?thesis by (simp add: load_main_def 1 ApiUp False Inr b Let_def)
      qed (simp add: load_main_def 1 ApiUp False)
    qed (simp add: load_main_def 1 ApiUp)
  qed (simp add: load_main_def 1)
qed

subsection \<open>Every pair matches\<close>

text \<open>
  The comment at the head of the file: a fully matched run of \<open>pairs\<close> pairs makes exactly
  \<open>pairs\<close> trades. All orders have one price and one quantity, so a book that starts empty never
  holds more than one side, and each order of the other side takes the oldest one whole.
  \<open>flat p q k B\<close>: there are \<open>k\<close> bids, or \<open>- k\<close> asks, all of them alike.
\<close>

definition flat :: "int \<Rightarrow> int \<Rightarrow> int \<Rightarrow> abook \<Rightarrow> bool" where
  "flat p q k B \<longleftrightarrow> length (aBids B) = nat k \<and> length (aAsks B) = nat (- k)
     \<and> (\<forall>x\<in>set (aorders B). aPrice x = p \<and> arem x = q)"

primrec is_trade :: "aevent \<Rightarrow> bool" where
  "is_trade (ATrade b s p q) = True"
| "is_trade (AUpdate x rc rv) = False"

definition trades_in :: "aevent list \<Rightarrow> int" where
  "trades_in evs = int (length (filter is_trade evs))"

lemma trades_in_simps [simp]:
  "trades_in [] = 0" "trades_in (xs @ ys) = trades_in xs + trades_in ys" "trades_in (afill_events t fs) = int (length fs)"
  "trades_in (AUpdate x rc rv # xs) = trades_in xs"
proof -
  show "trades_in (afill_events t fs) = int (length fs)"
    by (induction fs) (auto simp: trades_in_def afill_events_def)
qed (simp_all add: trades_in_def)

lemma length_ainsert [simp]: "length (ainsert bid x xs) = Suc (length xs)"
  using arg_cong [OF mset_ainsert [of bid x xs], of size] by simp

text \<open>A taker with an equal order in front of it is filled by it; without one it rests.\<close>

lemma amatch_done_taker: "arem t = 0 \<Longrightarrow> amatch t ms = (t, [], ms)"
  by (cases ms) (simp_all add: amatch_stop)

lemma flat_match:
  assumes x: "aPrice x = p" "arem x = q" "0 < q" and m: "aPrice m = p" "arem m = q"
  shows "amatch x (m # ms) = (afill q x, [(m, q)], ms)"
proof -
  have "acrosses x (aPrice m)" using x m by (simp add: crosses_def)
  then show ?thesis using x m by (simp add: amatch_full amatch_done_taker)
qed

lemma flat_place:
  assumes B: "flat p q k B" and x: "aPrice x = p" "arem x = q" "0 < q" and sd: "aSide x = Buy \<or> aSide x = Sell"
    and pl: "aPlace x B = (x', fs, rel, B')"
  defines "k' \<equiv> (if aSide x = Buy then k + 1 else k - 1)"
  shows "flat p q k' B'" and "2 * int (length fs) + \<bar>k'\<bar> = \<bar>k\<bar> + 1"
proof -
  have "flat p q k' B' \<and> 2 * int (length fs) + \<bar>k'\<bar> = \<bar>k\<bar> + 1"
  proof (cases "aopposite x B")
    case Nil
    then have "k' = (if aSide x = Buy then k + 1 else k - 1)" "if aSide x = Buy then 0 \<le> k else k \<le> 0"
      using B sd by (auto simp: k'_def flat_def aopposite_def split: if_splits)
    moreover have "fs = []" "B' = arest x (aset_opposite x [] B)" using pl x Nil by (auto simp: aPlace_def)
    ultimately show ?thesis
      using B x sd Nil by (auto simp: flat_def arest_def aset_opposite_def aopposite_def aorders_def split: if_splits)
  next
    case (Cons m ms)
    then have m: "aPrice m = p" "arem m = q" using B sd by (auto simp: flat_def aopposite_def aorders_def split: if_splits)
    have "fs = [(m, q)]" "B' = aset_opposite x ms B"
      using pl x by (auto simp: aPlace_def Cons flat_match [OF x m] Let_def)
    then show ?thesis
      using B sd Cons by (auto simp: k'_def flat_def aset_opposite_def aopposite_def aorders_def split: if_splits)
  qed
  then show "flat p q k' B'" "2 * int (length fs) + \<bar>k'\<bar> = \<bar>k\<bar> + 1" by auto
qed

definition side_count :: "side \<Rightarrow> order list \<Rightarrow> int" where
  "side_count sd os = int (length (filter (\<lambda>o'. oSide o' = sd) os))"

lemma flat_run:
  assumes "flat p q k B" and "0 < q" and "asteps (map cmdPlace os) B = (evs, B')"
    and "\<And>o'. o' \<in> set os \<Longrightarrow> valid_new o' \<and> oPrice o' = p \<and> oQuantity o' = q"
  shows "flat p q (k + side_count Buy os - side_count Sell os) B'
    \<and> 2 * trades_in evs + \<bar>k + side_count Buy os - side_count Sell os\<bar> = \<bar>k\<bar> + int (length os)"
  using assms
proof (induction os arbitrary: B k evs)
  case Nil
  then show ?case by (simp add: side_count_def)
next
  case (Cons o' os)
  obtain x' fs rel B1 where pl: "aPlace (absO o') B = (x', fs, rel, B1)" using prod_cases4 by blast
  obtain evs2 where 2: "asteps (map cmdPlace os) B1 = (evs2, B')" and evs: "trades_in evs = int (length fs) + trades_in evs2"
    using Cons.prems(3) by (auto simp: pl Let_def split: prod.splits)
  have vn: "valid_new o'" "oPrice o' = p" "oQuantity o' = q" using Cons.prems(4) [of o'] by auto
  then have x: "aPrice (absO o') = p" "arem (absO o') = q" "aSide (absO o') = oSide o'" "oSide o' = Buy \<or> oSide o' = Sell"
    by (auto simp: valid_new_def Validate_None_iff arem_def)
  let ?k = "if oSide o' = Buy then k + 1 else k - 1"
  note f = flat_place [OF Cons.prems(1) x(1,2) Cons.prems(2) _ pl, unfolded x(3), OF x(4)]
  have "flat p q (?k + side_count Buy os - side_count Sell os) B'
    \<and> 2 * trades_in evs2 + \<bar>?k + side_count Buy os - side_count Sell os\<bar> = \<bar>?k\<bar> + int (length os)"
    using Cons.prems(4) by (intro Cons.IH [OF f(1) Cons.prems(2) 2]) auto
  moreover have "?k + side_count Buy os - side_count Sell os = k + side_count Buy (o' # os) - side_count Sell (o' # os)"
    using x(4) by (auto simp: side_count_def)
  ultimately show ?case using f(2) evs by simp
qed

text \<open>The same for the engine: what is on its log after the orders of a run, and what its book looks like.\<close>

definition trade_count :: "event list \<Rightarrow> int" where
  "trade_count evs = int (length (filter (\<lambda>ev. eTrade ev \<noteq> None) evs))"

lemma trade_count_abs: "trades_in (map abs_event evs) = trade_count evs"
  by (induction evs) (auto simp: trade_count_def trades_in_def abs_event_def split: option.split)

lemma trade_count_stamped: "trade_count (stamp_events e evs) = trade_count evs"
  by (simp add: trade_count_abs [symmetric])

lemma cmds_ok_orders:
  "distinct (map oID os) \<Longrightarrow> ids \<inter> set (map oID os) = {} \<Longrightarrow> \<forall>o'\<in>set os. valid_new o' \<Longrightarrow> cmds_ok ids (map cmdPlace os)"
proof (induction os arbitrary: ids)
  case (Cons o' os)
  have "cmds_ok (insert (oID o') ids) (map cmdPlace os)"
    using Cons.prems by (intro Cons.IH) (auto simp: image_iff)
  with Cons.prems show ?case by auto
qed simp

lemma empty_sides:
  assumes "book_wf b" and "absB b = \<lparr>aBids = [], aAsks = []\<rparr>"
  shows "best (bids b) = None" and "best (asks b) = None"
proof -
  have w: "side_wf True (\<lambda>r. oPrice (heap b r)) (bids b)" "side_wf False (\<lambda>r. oPrice (heap b r)) (asks b)"
    using assms(1) by (auto simp: book_wf_def book_core_def)
  have "side_refs (bids b) = []" "side_refs (asks b) = []" using assms(2) by (auto simp: absB_def)
  then show "best (bids b) = None" "best (asks b) = None" using best_refs [OF w(1)] best_refs [OF w(2)] by simp_all
qed

lemma engine_pairs:
  assumes os: "\<And>o'. o' \<in> set os \<Longrightarrow> valid_new o' \<and> oPrice o' = p \<and> oQuantity o' = q" "distinct (map oID os)" and q: "0 < q"
  obtains rs e' l' where "run_commands mem_log (map cmdPlace os) (NewEngine symbol producer now booknow, NewLog buffer) = Some (rs, e', l')"
    and "length rs = length os"
    and "trade_count (lg_ch l') = min (side_count Buy os) (side_count Sell os)"
    and "side_count Buy os = side_count Sell os \<Longrightarrow> best (bids (eBook e')) = None \<and> best (asks (eBook e')) = None"
proof -
  let ?e = "NewEngine symbol producer now booknow" and ?l = "NewLog buffer"
  have e0: "book_wf (eBook ?e)" "\<not> lg_closed ?l" "lg_ch ?l = []" "absB (eBook ?e) = \<lparr>aBids = [], aAsks = []\<rparr>"
    by (simp_all add: NewEngine_def book_wf_New NewLog_def) (simp add: absB_def NewOrderBook_def)
  have "aids (absB (eBook ?e)) \<subseteq> {}" by (simp add: e0(4) aids_def aorders_def)
  moreover have "cmds_ok {} (map cmdPlace os)" using os by (intro cmds_ok_orders) auto
  ultimately obtain rs e' l' evs where r: "run_commands mem_log (map cmdPlace os) (?e, ?l) = Some (rs, e', l')"
    and ch: "lg_ch l' = lg_ch ?l @ stamp_events ?e evs" and wf: "book_wf (eBook e')" and n: "length rs = length (map cmdPlace os)"
    and as: "asteps (map cmdPlace os) (absB (eBook ?e)) = (map abs_event evs, absB (eBook e'))"
    using mem_sink.run_commands_works [OF e0(1,2)] by blast
  let ?b = "side_count Buy os" and ?s = "side_count Sell os"
  have "flat p q 0 (absB (eBook ?e))" by (simp add: e0(4) flat_def aorders_def)
  from flat_run [OF this q as os(1)] have f: "flat p q (?b - ?s) (absB (eBook e'))"
    "2 * trades_in (map abs_event evs) + \<bar>?b - ?s\<bar> = int (length os)" by simp_all
  have "\<forall>o'\<in>set os. oSide o' = Buy \<or> oSide o' = Sell" using os(1) by (auto simp: valid_new_def Validate_None_iff)
  then have len: "int (length os) = ?b + ?s"
  proof (induction os)
    case (Cons o' os)
    then have "int (length os) = side_count Buy os + side_count Sell os" by simp
    with Cons.prems show ?case by (auto simp: side_count_def)
  qed (simp add: side_count_def)
  have t: "trade_count (lg_ch l') = min ?b ?s"
    using f(2) len by (simp add: ch e0(3) trade_count_stamped trade_count_abs)
  have "best (bids (eBook e')) = None \<and> best (asks (eBook e')) = None" if "?b = ?s"
  proof -
    have "absB (eBook e') = \<lparr>aBids = [], aAsks = []\<rparr>" using f(1) that by (simp add: flat_def)
    from empty_sides [OF wf this] show ?thesis by simp
  qed
  with r n t show ?thesis by (intro that) auto
qed

end
