(* ===== verification/Adapter_Claims.thy ===== *)
theory Adapter_Claims
  imports Server Service_Claims
begin

section \<open>Claims about the adapters\<close>

text \<open>
  The HTTP adapter, configuration and wiring, and the adapters for Postgres, Redis and Kafka.
\<close>

subsection \<open>HTTP\<close>

definition req_cmd :: "placeOrderRequest \<Rightarrow> PlaceOrderCommand" where
  "req_cmd req = \<lparr>pcUserID = rqUserID req, pcSide = Side_of (rqSide req), pcPrice = rqPrice req, pcQuantity = rqQuantity req\<rparr>"

lemma Validate_errors:
  "Validate o' = Some e \<Longrightarrow> e \<in> {ErrInvalidSide, ErrMissingUser, ErrMissingSymbol, ErrInvalidPrice, ErrInvalidQuantity}"
  by (auto simp: Validate_def split: if_splits)

lemma reserve_fn_error: "fst (reserve_fn o' w) = Some e \<Longrightarrow> e \<in> {ErrNegativeAmount, ErrInsufficientCOP, ErrInsufficientVibranium}"
  by (auto simp: reserve_fn_def ReserveCOP_def ReserveVibranium_def split: if_splits)

lemma engine_place_reply:
  assumes "me_Place (tdEngine (mem_trading symbol)) c o' e = Some (r, e')"
  shows "(\<exists>x. r = Inr x) \<longleftrightarrow> call_fate c e = Replied" and "r = Inl x \<Longrightarrow> x = ErrContext"
proof -
  have "(if call_fate c e = Replied then \<exists>x. r = Inr x else r = Inl ErrContext)"
    using assms
    by (cases "call_fate c e"; auto simp: mem_trading_unfold engine_port_def Engine_Place_def submit_def reply_order_def
      handlePlace_def zero_reply_def Let_def split: option.splits if_splits prod.splits)
  then show "(\<exists>x. r = Inr x) \<longleftrightarrow> call_fate c e = Replied" "r = Inl x \<Longrightarrow> x = ErrContext"
    by (auto split: if_splits)
qed

text \<open>The error of a reservation, and the status that a failed one has.\<close>

lemma reserve_error:
  assumes "reserve (mem_trading symbol) c o' s = (Some e, s1)"
  shows "case ws_view (tsWallets s) (oUserID o') of None \<Rightarrow> e = ErrWalletNotFound | Some w \<Rightarrow> fst (reserve_fn o' w) = Some e"
proof -
  have u: "fst (WalletStore_Update c (oUserID o') (reserve_fn o') (tsWallets s)) = Some e"
    using assms by (auto simp: reserve_def mem_trading_unfold split: prod.splits)
  show ?thesis
  proof (cases "ws_view (tsWallets s) (oUserID o')")
    case None
    with u mem_ledger.update_missing [of "tsWallets s"] show ?thesis by simp
  next
    case (Some w)
    with u mem_ledger.update_exact(1) [of "tsWallets s" _ w c "reserve_fn o'"] show ?thesis by simp
  qed
qed

lemma refused_status:
  assumes "case view of None \<Rightarrow> e = ErrWalletNotFound | Some w \<Rightarrow> fst (reserve_fn o' w) = Some e"
    and "err = (if errors_Is e ErrInsufficientCOP \<or> errors_Is e ErrInsufficientVibranium \<or> errors_Is e ErrWalletNotFound then e
      else ErrWrap ErrReservationFailed e)"
  shows "rsStatus (writePlaceError result err) = (case view of None \<Rightarrow> 404
      | Some w \<Rightarrow> if e = ErrInsufficientCOP \<or> e = ErrInsufficientVibranium then 422 else 503)"
proof (cases view)
  case None
  with assms show ?thesis by (simp add: writePlaceError_def writeError_def writeJSON_def)
next
  case (Some w)
  with assms reserve_fn_error [of o' w e] show ?thesis
    by (auto simp: writePlaceError_def writeError_def writeJSON_def)
qed

text \<open>C28. The status of \<open>POST /orders\<close> says what became of the request: 400 exactly for a body that is
  not JSON or an order that is not valid, 404 for a user without a wallet, 422 for insufficient
  funds, 503 when the reservation or the engine failed, and 201 exactly when the engine took the
  order and answered.\<close>

theorem place_order_status:
  assumes "handlePlaceOrder (mem_trading symbol) c bytes now body s = Some (resp, s')"
  shows "rsStatus resp = (case body of None \<Rightarrow> 400
    | Some req \<Rightarrow> (case Validate (new_order symbol bytes (now 1) (req_cmd req)) of Some e \<Rightarrow> 400
      | None \<Rightarrow> (case ws_view (tsWallets s) (rqUserID req) of None \<Rightarrow> 404
        | Some w \<Rightarrow> (case fst (reserve_fn (new_order symbol bytes (now 1) (req_cmd req)) w) of
            Some e \<Rightarrow> if e = ErrInsufficientCOP \<or> e = ErrInsufficientVibranium then 422 else 503
          | None \<Rightarrow> if call_fate c (tsEngine s) = Replied then 201 else 503))))"
proof (cases body)
  case None
  then show ?thesis using assms by (auto simp: handlePlaceOrder_def writeError_def writeJSON_def)
next
  case (Some req)
  let ?T = "mem_trading symbol" and ?o = "new_order symbol bytes (now 1) (req_cmd req)"
  obtain result err where p: "PlaceOrder ?T c bytes now (req_cmd req) s = Some ((result, err), s')"
    and resp: "resp = (case err of Some e \<Rightarrow> writePlaceError result e | None \<Rightarrow> writeJSON 201 (BodyOrder result))"
    using assms Some by (auto simp: handlePlaceOrder_def req_cmd_def Let_def split: option.splits prod.splits)
  have T: "tdSymbol ?T = symbol" "tdWallets ?T = mem_wallets" by (simp_all add: mem_trading_unfold)
  show ?thesis
  proof (cases "Validate ?o")
    case v: (Some e)
    then have "err = Some e" using p T by (auto simp: PlaceOrder_def accept_def)
    with resp Validate_errors [OF v] v Some show ?thesis
      by (auto simp: writePlaceError_def writeError_def writeJSON_def)
  next
    case v: None
    obtain r s1 where res: "reserve ?T c ?o s = (r, s1)" by fastforce
    have upd: "r = fst (WalletStore_Update c (rqUserID req) (reserve_fn ?o) (tsWallets s))"
      and eng: "tsEngine s1 = tsEngine s"
      using res T by (auto simp: reserve_def req_cmd_def split: prod.splits)
    show ?thesis
    proof (cases r)
      case None
      then obtain w where w: "ws_view (tsWallets s) (rqUserID req) = Some w" "fst (reserve_fn ?o w) = None"
        using upd mem_ledger.update_applied [of c "rqUserID req" "reserve_fn ?o" "tsWallets s"]
        by (metis mem_wallets_simps(3) prod.collapse)
      obtain er e' where me: "me_Place (tdEngine ?T) c ?o (tsEngine s1) = Some (er, e')"
        and c: "((result, err), s') = complete ?T ?o er (now 0) (now 2) (s1\<lparr>tsEngine := e'\<rparr>)"
        using p v res None T by (auto simp: PlaceOrder_def accept_def Let_def)
      show ?thesis
        using c resp engine_place_reply [OF me] Some v w eng
        by (cases er) (auto simp: complete_def writePlaceError_def writeError_def writeJSON_def)
    next
      case r: (Some e)
      have e: "case ws_view (tsWallets s) (rqUserID req) of None \<Rightarrow> e = ErrWalletNotFound | Some w \<Rightarrow> fst (reserve_fn ?o w) = Some e"
        using reserve_error [OF res [unfolded r]] by (simp add: req_cmd_def)
      moreover have "err = Some (if errors_Is e ErrInsufficientCOP \<or> errors_Is e ErrInsufficientVibranium \<or> errors_Is e ErrWalletNotFound
          then e else ErrWrap ErrReservationFailed e)"
        using p v res r T by (auto simp: PlaceOrder_def accept_def Let_def split: if_splits)
      ultimately show ?thesis
        using refused_status [OF e refl, of result] resp Some v by (auto split: option.splits)
    qed
  qed
qed

definition ex_req :: placeOrderRequest where
  "ex_req = \<lparr>rqUserID = ''eve'', rqSide = ''BUY'', rqPrice = 9, rqQuantity = 40, rqClientRequestID = []\<rparr>"

theorem place_order_status_witness:
  "\<exists>resp s'. handlePlaceOrder (mem_trading ''VIB'') CtxLive [1] ex_clock (Some ex_req) (ex_state (\<lambda>_. Replied)) = Some (resp, s')
    \<and> rsStatus resp = 422"
proof -
  let ?r = "handlePlaceOrder (mem_trading ''VIB'') CtxLive [1] ex_clock (Some ex_req) (ex_state (\<lambda>_. Replied))"
  have "?r \<noteq> None" "Validate (new_order ''VIB'' [1] (ex_clock 1) (req_cmd ex_req)) = None"
    "ws_view (tsWallets (ex_state (\<lambda>_. Replied))) (rqUserID ex_req) = Some ex_wallet"
    "fst (reserve_fn (new_order ''VIB'' [1] (ex_clock 1) (req_cmd ex_req)) ex_wallet) = Some ErrInsufficientCOP"
    by code_simp+
  moreover from this obtain resp s' where r: "?r = Some (resp, s')" by auto
  ultimately show ?thesis using place_order_status [OF r] by auto
qed

text \<open>A number in a query is read back exactly: whatever \<open>int64\<close> a client writes in decimal as
  \<open>depth\<close> or \<open>limit\<close>, negative or not, is the number the handler gets; and without a readable
  number it gets the default.\<close>

theorem query_numbers_roundtrip:
  assumes "i64 n"
  shows "queryInt [(key, itoa n # vs)] key d = n \<and> queryInt [] key d = d \<and> queryInt [(key, [''1x''])] key d = d"
proof -
  have "itoa n \<noteq> []" using digits_nonempty by (simp add: itoa_def)
  moreover have "Atoi ''1x'' = None" by code_simp
  ultimately show ?thesis using Atoi_itoa [OF assms] by (simp add: queryInt_def query_Get_def)
qed

theorem query_numbers_roundtrip_witness:
  "queryInt [(''depth'', itoa (- 5) # [])] ''depth'' 10 = - 5"
  using query_numbers_roundtrip [of "- 5" "''depth''" "[]" 10] by (simp add: i64_def)

lemma prefix_wallets: "HasPrefix s ''/wallets/'' \<Longrightarrow> \<not> HasPrefix s ''/orders/''"
  by (cases s; cases "tl s") (auto simp: HasPrefix_def)

lemma pattern_nonempty: "pattern_of r \<noteq> []"
  by (cases r) simp_all

lemma route_of_cases:
  assumes "route_of metrics meth path = Some r" and "span_filter path"
  shows "path = pattern_of r \<and> path \<in> {''/orders'', ''/wallets'', ''/book'', ''/trades''}
    \<or> pattern_of r = ''/orders/{id}'' \<and> HasPrefix path ''/orders/''
    \<or> pattern_of r = ''/wallets/{id}'' \<and> HasPrefix path ''/wallets/''"
proof (cases "path \<in> {''/orders'', ''/wallets'', ''/book'', ''/trades''}")
  case True
  moreover have "segment_after ''/orders/'' path = None" "segment_after ''/wallets/'' path = None"
    using True by (elim insertE emptyE; simp; code_simp)+
  ultimately show ?thesis using assms
    by (elim insertE emptyE) (simp_all add: route_of_def split: if_splits)
next
  case False
  then have r: "(case segment_after ''/orders/'' path of
             Some i \<Rightarrow> if meth = ''DELETE'' then Some (RCancelOrder i)
                       else if is_get meth then Some (RGetOrder i) else None
           | None \<Rightarrow> (case segment_after ''/wallets/'' path of
                        Some i \<Rightarrow> if is_get meth then Some (RGetWallet i) else None
                      | None \<Rightarrow> None)) = Some r"
    using assms by (simp add: route_of_def span_filter_def)
  show ?thesis
  proof (cases "segment_after ''/orders/'' path")
    case None
    with r show ?thesis
      by (cases "segment_after ''/wallets/'' path") (auto dest: segment_after_prefix split: if_splits)
  next
    case (Some i)
    with r segment_after_prefix [OF Some] show ?thesis by (auto split: if_splits)
  qed
qed

lemma routePattern_of_route:
  assumes "route_of metrics meth path = Some r" and "span_filter path"
  shows "routePattern path = pattern_of r"
proof -
  have y: "routePattern p = p" if "p \<in> {''/orders'', ''/wallets'', ''/book'', ''/trades''}" for p
    using that by (elim insertE emptyE; simp; code_simp)
  have z: "\<not> HasPrefix ''/orders'' ''/orders/''" "\<not> HasPrefix ''/orders'' ''/wallets/''"
    "\<not> HasPrefix ''/wallets'' ''/wallets/''" by code_simp+
  from route_of_cases [OF assms] y [of path] show ?thesis
    by (elim disjE) (use z prefix_wallets [of path] in \<open>auto simp: routePattern_def\<close>)
qed

text \<open>The names of the spans are the registered patterns: for every request that the router hands to
  a handler and that is traced, the name is the method and the pattern of the route it took, so
  an identifier in the path never gets into a name; and for any path at all there are only
  seven names per method.\<close>

theorem span_names_are_patterns:
  assumes "route_of metrics meth path = Some r" and "span_filter path"
  shows "span_name meth path = meth @ '' '' @ pattern_of r
    \<and> routePattern p \<in> {[], ''/orders'', ''/orders/{id}'', ''/wallets'', ''/wallets/{id}'', ''/book'', ''/trades''}"
proof -
  have "span_name meth path = meth @ '' '' @ pattern_of r"
    using routePattern_of_route [OF assms] pattern_nonempty [of r] by (simp add: span_name_def)
  then show ?thesis by (auto simp: routePattern_def)
qed

theorem span_names_are_patterns_witness:
  "span_name ''DELETE'' ''/orders/ord-7'' = ''DELETE /orders/{id}''"
proof -
  have "route_of True ''DELETE'' ''/orders/ord-7'' = Some (RCancelOrder ''ord-7'')" "span_filter ''/orders/ord-7''" by code_simp+
  from span_names_are_patterns [OF this] show ?thesis by simp
qed

text \<open>C29. A GET or HEAD request changes nothing that anyone can see: whichever path it names, and whatever
  the context and the interleaving with the engine, the wallets, the order book and its
  counters, the event log, the order projection, the trades and the metrics are after the
  request what they were before it.\<close>

theorem get_changes_nothing:
  assumes "Handler srv (mem_trading symbol) mem_trades lib c bytes now req s = Some (seen, s')" and "is_get (hrMethod req)"
  shows "visible s' = visible s"
proof -
  obtain r where "serve srv (mem_trading symbol) mem_trades lib c bytes now req s = Some (r, s')"
    using assms(1) by (auto simp: Handler_def)
  then show ?thesis
    using get_is_reading assms(2)
    by (auto simp: serve_def split: option.splits dest: reading_changes_nothing)
qed

definition ex_get :: http_request where
  "ex_get = \<lparr>hrMethod = ''GET'', hrPath = ''/book'', hrQuery = [], hrOrder = None, hrWallet = None\<rparr>"

definition ex_service :: "(WalletStore, Log engine_adapter, OrderStore, TradeStore) service_state" where
  "ex_service = \<lparr>ssTrading = ex_state (\<lambda>_. Replied), ssTrades = NewTradeStore\<rparr>"

theorem get_changes_nothing_witness:
  "\<exists>seen s'. Handler (NewServer ''VIB'' []) (mem_trading ''VIB'') mem_trades (\<lambda>_. writeJSON 404 BodyNone) CtxLive [1] ex_clock ex_get ex_service
      = Some (seen, s') \<and> rsStatus (sdResponse seen) = 200 \<and> visible s' = visible ex_service"
proof -
  let ?h = "Handler (NewServer ''VIB'' []) (mem_trading ''VIB'') mem_trades (\<lambda>_. writeJSON 404 BodyNone) CtxLive [1] ex_clock ex_get ex_service"
  have "map_option (\<lambda>x. rsStatus (sdResponse (fst x))) ?h = Some 200" by code_simp
  then obtain seen s' where h: "?h = Some (seen, s')" "rsStatus (sdResponse seen) = 200" by auto
  have "is_get (hrMethod ex_get)" by (simp add: is_get_def ex_get_def)
  from get_changes_nothing [OF h(1) this] h show ?thesis by blast
qed

end
