(* ===== verification/Startup_Claims.thy ===== *)
theory Startup_Claims
  imports Startup Loadtest_Run Adapter_Claims Book_Claims
begin

section \<open>Claims about configuration, startup, shutdown and the load test\<close>

text \<open>A list in the environment is read back: whatever texts without a comma, not empty and without
  white space at their ends one joins with commas, each with any white space around it, are
  the list that \<open>getEnvList\<close> returns.\<close>

theorem env_list_roundtrip:
  assumes "parts \<noteq> []" and "list_all (\<lambda>(before, p, after). trimmed p \<and> CHR '','' \<notin> set p
      \<and> list_all is_space before \<and> list_all is_space after) parts"
    and "env key = Some (join_on CHR '','' (map (\<lambda>(before, p, after). before @ p @ after) parts))"
  shows "getEnvList env key def = map (\<lambda>(before, p, after). p) parts"
proof -
  let ?padded = "map (\<lambda>(before, p, after). before @ p @ after) parts"
  have comma: "CHR '','' \<notin> set xs" if "list_all is_space xs" for xs
    using that by (auto simp: list_all_iff is_space_def)
  have "\<forall>p\<in>set ?padded. CHR '','' \<notin> set p" using assms(2) comma by (fastforce simp: list_all_iff)
  then have split: "split_on CHR '','' (join_on CHR '','' ?padded) = ?padded" using assms(1) by (intro split_join) auto
  have trim: "map TrimSpace ?padded = map (\<lambda>(before, p, after). p) parts"
    using assms(2) by (auto simp: list_all_iff TrimSpace_padded)
  have "filter (\<lambda>p. p \<noteq> []) (map (\<lambda>(before, p, after). p) parts) = map (\<lambda>(before, p, after). p) parts"
    using assms(2) by (intro filter_True) (auto simp: list_all_iff trimmed_def)
  then have loop: "list_loop ?padded [] = map (\<lambda>(before, p, after). p) parts"
    unfolding list_loop_filter trim by simp
  have "join_on CHR '','' ?padded \<noteq> []"
    using split split_on.simps(1) [of "CHR '',''"] loop assms(1,2)
    by (cases parts) (auto simp: list_all_iff trimmed_def TrimSpace_def)
  then show ?thesis using assms(1,3) split loop by (simp add: getEnvList_def lookup_set_def)
qed

theorem env_list_roundtrip_witness:
  "getEnvList ((\<lambda>_. None)(''KAFKA_BROKERS'' \<mapsto> ''a:9092, b:9092'')) ''KAFKA_BROKERS'' [''localhost:9092''] = [''a:9092'', ''b:9092'']"
  using env_list_roundtrip [of "[([], ''a:9092'', []), ('' '', ''b:9092'', [])]"
      "(\<lambda>_. None)(''KAFKA_BROKERS'' \<mapsto> ''a:9092, b:9092'')" "''KAFKA_BROKERS''" "[''localhost:9092'']"]
  by (simp add: trimmed_def is_space_def)

text \<open>Waiting for a dependency ends: when at least half a second passes between two pings, connecting
  to Postgres, to Redis and to the Kafka brokers returns, whatever they answer, and a client is
  left open exactly when the last ping succeeded.\<close>

theorem connecting_returns:
  assumes "clock_runs (pgPings d)" and "clock_runs (rdPings r)" and "clock_runs (kwPings k)"
    and "pgStart d \<le> plNow (pgPings d) 0" and "rdStart r \<le> plNow (rdPings r) 0" and "kwStart k \<le> plNow (kwPings k) 0"
    and "0 \<le> wait"
  shows "(\<exists>res left. postgres_Connect d url maxConns wait = Some (res, left) \<and> (left \<longleftrightarrow> (\<exists>n. res = Inr n)))
    \<and> (\<exists>err left. redis_Connect r url wait = Some (err, left) \<and> (left \<longleftrightarrow> err = None))
    \<and> waitForBrokers k wait \<noteq> None"
proof -
  obtain x n where "poll_loop ''postgres unreachable'' (pgPings d) (pgStart d + wait) 0 = Some (x, n)"
    using poll_bounded [OF assms(1,4,7)] by blast
  then have 1: "postgres_Connect d url maxConns wait \<noteq> None"
    by (auto simp: postgres_Connect_def Let_def split: sum.split option.split)
  obtain y m where "poll_loop ''redis unreachable'' (rdPings r) (rdStart r + wait) 0 = Some (y, m)"
    using poll_bounded [OF assms(2,5,7)] by blast
  then have 2: "redis_Connect r url wait \<noteq> None"
    by (auto simp: redis_Connect_def split: option.split)
  obtain z l where "poll_loop ''kafka unreachable'' (kwPings k) (kwStart k + wait) 0 = Some (z, l)"
    using poll_bounded [OF assms(3,6,7)] by blast
  then have 3: "waitForBrokers k wait \<noteq> None" by (simp add: waitForBrokers_def)
  from 1 2 3 show ?thesis by (auto dest: postgres_Connect_open redis_Connect_open)
qed

definition dead :: poll where
  "dead = \<lparr>plPing = (\<lambda>_. Some ErrContext), plNow = (\<lambda>i. int i * half_second), plCtxErr = (\<lambda>_. None), plDone = (\<lambda>_. None)\<rparr>"

definition ex_pgx :: pgx where
  "ex_pgx = \<lparr>pgParseConfig = (\<lambda>_. Inr 4), pgNewPool = (\<lambda>_. None), pgPings = dead\<lparr>plPing := (\<lambda>i. if i < 3 then Some ErrContext else None)\<rparr>,
     pgStart = 0, pgSchema = None\<rparr>"

definition ex_go_redis :: go_redis where
  "ex_go_redis = \<lparr>rdParseURL = (\<lambda>_. None), rdPings = dead, rdStart = 0\<rparr>"

definition ex_kafka :: kafka_world where
  "ex_kafka = \<lparr>kwNewClient = (\<lambda>_. None), kwPings = dead, kwStart = 0, kwAdmin = (\<lambda>_. None), kwCreate = (\<lambda>_. Inr []),
     kwTopicExists = ErrInfra ''TOPIC_ALREADY_EXISTS''\<rparr>"

theorem connecting_returns_witness:
  "waitForBrokers ex_kafka 60000000000 \<noteq> None \<and> redis_Connect ex_go_redis ''redis://r'' 60000000000 \<noteq> None
    \<and> postgres_Connect ex_pgx ''redis://r'' 20 60000000000 \<noteq> None"
proof -
  have d: "clock_runs dead" "plNow dead 0 = 0" by (simp_all add: clock_runs_def dead_def algebra_simps half_second_def)
  then have "clock_runs (pgPings ex_pgx)" "clock_runs (rdPings ex_go_redis)" "clock_runs (kwPings ex_kafka)"
    "pgStart ex_pgx \<le> plNow (pgPings ex_pgx) 0" "rdStart ex_go_redis \<le> plNow (rdPings ex_go_redis) 0"
    "kwStart ex_kafka \<le> plNow (kwPings ex_kafka) 0" "0 \<le> (60000000000::int)"
    by (simp_all add: ex_pgx_def ex_go_redis_def ex_kafka_def clock_runs_def)
  from connecting_returns [OF this, of "''redis://r''" 20] show ?thesis by auto
qed

text \<open>C36. Startup is all or nothing, and never falls back to memory: when \<open>Build\<close> succeeds, every adapter
  is the configured one, the journal is durable exactly with Postgres, and exactly the clients
  of the configured drivers are open. When it fails, nothing is open any more, with one
  exception: an unknown wallet, trade or order driver leaves the Postgres pool open.\<close>

theorem build_all_or_nothing:
  assumes "Build sv cfg = Some res"
  shows "case res of
      Inr i \<Rightarrow>
        inWallets i = Some (let w = (if cfWalletStoreDriver cfg = DriverPostgres then PgWallets else MemWallets)
                            in if UsesRedis cfg then CachedWallets w (cache_ttl (cfRedisTTL cfg)) else w)
        \<and> inTrades i = Some (if cfTradeStoreDriver cfg = DriverPostgres then PgTrades else MemTrades)
        \<and> inOrders i = Some (if cfOrderStoreDriver cfg = DriverPostgres then PgOrders else MemOrders)
        \<and> inJournal i = Some (if UsesPostgres cfg then PgJournal else MemJournal)
        \<and> inOpen i = (if UsesPostgres cfg then [ResPool] else []) @ (if UsesRedis cfg then [ResRedis] else [])
            @ (if UsesKafka cfg then [ResKafka] else [])
    | Inl (e, left) \<Rightarrow> left = []
        \<or> left = [ResPool] \<and> UsesPostgres cfg
          \<and> (\<exists>name v. e = UnknownDriver name v
              \<and> (name = ''WALLET_STORE_DRIVER'' \<or> name = ''TRADE_STORE_DRIVER'' \<or> name = ''ORDER_STORE_DRIVER''))"
proof -
  let ?i0 = "empty_infra\<lparr>inPool := UsesPostgres cfg, inOpen := (if UsesPostgres cfg then [ResPool] else [])\<rparr>"
  from assms consider
      (pg) e where "build_postgres sv cfg = Some (Inl e)" "res = Inl e"
    | (sel) i0 where "build_postgres sv cfg = Some (Inr i0)"
        "and_then (build_wallets cfg i0) (\<lambda>i. and_then (build_trades cfg i) (\<lambda>i. and_then (build_orders cfg i) (\<lambda>i.
           and_then (build_cache sv cfg (build_journal i)) (build_log sv cfg)))) = Some res"
    unfolding Build_def and_then_Some by blast
  then show ?thesis
  proof cases
    case pg
    with build_postgres_cases [OF pg(1)] show ?thesis by auto
  next
    case sel
    then have i0: "i0 = ?i0" using build_postgres_cases [OF sel(1)] by simp
    from stores_or_unknown [OF sel(2)] show ?thesis
    proof
      assume "\<exists>name v. res = Inl (UnknownDriver name v, inOpen i0)
          \<and> (name = ''WALLET_STORE_DRIVER'' \<or> name = ''TRADE_STORE_DRIVER'' \<or> name = ''ORDER_STORE_DRIVER'')"
      then show ?thesis by (auto simp: i0)
    next
      assume "\<exists>i3. stores_selected cfg i0 i3 \<and> and_then (build_cache sv cfg (build_journal i3)) (build_log sv cfg) = Some res"
      then obtain i3 where "stores_selected cfg ?i0 i3" "and_then (build_cache sv cfg (build_journal i3)) (build_log sv cfg) = Some res"
        unfolding i0 by blast
      from built_from_stores [OF this] show ?thesis by (auto split: sum.splits)
    qed
  qed
qed

definition ex_services :: services where
  "ex_services = \<lparr>svPgx = ex_pgx, svRedis = ex_go_redis, svKafka = ex_kafka\<rparr>"

text \<open>A configuration with a misspelt driver.\<close>

definition ex_config :: "int Config" where
  "ex_config = Load (\<lambda>_. None) 0 (\<lambda>_. None)
     ((\<lambda>_. None)(''WALLET_STORE_DRIVER'' \<mapsto> ''postgres'', ''TRADE_STORE_DRIVER'' \<mapsto> ''postgre''))"

theorem build_all_or_nothing_witness:
  "\<exists>e left. Build ex_services ex_config = Some (Inl (e, left)) \<and> e = UnknownDriver ''TRADE_STORE_DRIVER'' ''postgre'' \<and> left = [ResPool]"
proof -
  have pg: "postgres_Connect ex_pgx u n 60000000000 = Some (Inr (if n > 0 then n else 4), True)" for u n
  proof -
    have "poll_loop ''postgres unreachable'' (pgPings ex_pgx) (0 + 60000000000) 0 = Some (None, 3)"
      by (subst poll_loop.simps, simp add: ex_pgx_def dead_def half_second_def)+
    then show ?thesis by (simp add: postgres_Connect_def ex_pgx_def Let_def)
  qed
  have c: "cfInfraWaitTimeout ex_config = 60000000000" "UsesPostgres ex_config" "cfWalletStoreDriver ex_config = DriverPostgres"
    "cfTradeStoreDriver ex_config = ''postgre''"
    by code_simp+
  have "build_postgres ex_services ex_config = Some (Inr (empty_infra\<lparr>inPool := True, inOpen := [ResPool]\<rparr>))"
  proof -
    have "svPgx ex_services = ex_pgx" "postgres_Migrate ex_pgx = None"
      by (simp_all add: ex_services_def postgres_Migrate_def ex_pgx_def)
    with c(1,2) pg show ?thesis by (simp add: build_postgres_def)
  qed
  then obtain e where b: "Build ex_services ex_config = Some (Inl (e, [ResPool]))"
    and e: "e = UnknownDriver ''TRADE_STORE_DRIVER'' ''postgre''"
    using c(3,4) by (auto simp: Build_def and_then_def build_wallets_def build_trades_def fail_with_def driver_defs)
  from build_all_or_nothing [OF b] e have "[ResPool] = [ResPool] \<and> UsesPostgres ex_config" by auto
  with b e show ?thesis by blast
qed

subsection \<open>Shutdown\<close>

text \<open>C37. Shutdown closes the event log without waiting for the engine: whenever the engine still takes an
  order after the log was closed, it panics, with the in-memory log and with Kafka alike.\<close>

theorem late_order_panics_engine:
  assumes "cmdPlace o' \<in> set late"
  shows "shutdown mem_log late (e, l) = None \<and> shutdown (kafka_log c w) late (e, kl) = None"
  using mem_sink.shutdown_panics [OF assms] kafka_sink.shutdown_panics [OF assms] by blast

theorem late_order_panics_engine_witness:
  "shutdown mem_log [cmdSnapshot 5, cmdPlace ex_s1] (NewEngine ''VIB'' ''p'' ex_clock ex_clock, NewLog 0) = None
    \<and> shutdown mem_log [cmdSnapshot 5] (NewEngine ''VIB'' ''p'' ex_clock ex_clock, NewLog 0) \<noteq> None"
proof -
  have "cmdPlace ex_s1 \<in> set [cmdSnapshot 5, cmdPlace ex_s1]" by simp
  moreover have "shutdown mem_log [cmdSnapshot 5] (NewEngine ''VIB'' ''p'' ex_clock ex_clock, NewLog 0) \<noteq> None" by code_simp
  ultimately show ?thesis using late_order_panics_engine by blast
qed




subsection \<open>The load test\<close>

text \<open>The load test does not wait for ever: when at least a quarter of a second passes between two
  polls, \<open>waitForSettlement\<close> returns within the time to wait, and it reports settlement as drained
  only with a trade count, read from a healthy server, that reaches what was expected.\<close>

theorem settlement_wait_ends:
  assumes "\<And>i. lwNow w i + quarter_second \<le> lwNow w (Suc i)" and "start \<le> lwNow w 0" and "0 \<le> wait"
  shows "\<exists>r k. waitForSettlement w expected start wait = Some (r, k) \<and> k \<le> nat (wait div quarter_second) + 1
    \<and> (\<forall>t. r = Drained t \<longrightarrow> expected \<le> t \<and> fetchHealth (lwHealth w k) = (t, None))"
  by (rule waitForSettlement_ends [OF assms])





text \<open>C39. However the workers of the load test share the jobs, each job is done once: a run never gets
  stuck before it is done and always can end; when the last worker is done, every request of
  every pair has been sent exactly once, and the counters of placed and failed orders add up to
  the number of orders.\<close>

theorem workers_do_every_job:
  assumes "pool_run (order_job price qty) (start_pool pairs concurrency) p" and "0 < concurrency" and "2 * int pairs \<le> max_i64"
  shows "(\<exists>p'. pool_run (order_job price qty) (start_pool pairs concurrency) p' \<and> pool_done p')
    \<and> (pool_done p \<or> (\<exists>p'. pool_step (order_job price qty) p p'))
    \<and> (pool_done p \<longrightarrow> mset (plSent p) = mset (concat (map (order_job price qty) (map int [0..<pairs])))
        \<and> plPlaced p + plFailed p = 2 * int pairs)"
proof -
  have room: "int (length (concat (map (order_job price qty) (map int [0..<pairs])))) \<le> max_i64"
    unfolding length_jobs using assms(3) by simp
  have inv: "pool_inv (order_job price qty) pairs p" by (rule pool_run_inv [OF assms(1) room])
  have "plWorkers p \<noteq> []" using pool_run_workers [OF assms(1)] assms(2) by (auto simp: start_pool_def)
  with pool_done_all [OF inv] have "pool_done p \<longrightarrow> mset (plSent p) = mset (concat (map (order_job price qty) (map int [0..<pairs])))
      \<and> plPlaced p + plFailed p = 2 * int pairs"
    unfolding length_jobs by simp
  moreover have "\<exists>p'. pool_run (order_job price qty) (start_pool pairs concurrency) p' \<and> pool_done p'"
    by (rule pool_finishes [OF assms(1)])
  ultimately show ?thesis using pool_progress [of p] by blast
qed

text \<open>Two workers and one pair: the second worker finds the channel empty.\<close>

definition ex_pool :: pool where
  "ex_pool = tally (Inr 500) (tally (Inr 201) \<lparr>plJobs = [], plWorkers = [[], []], plSent = order_job 100 1 0, plPlaced = 0, plFailed = 0\<rparr>)"

theorem workers_do_every_job_witness:
  "plPlaced ex_pool + plFailed ex_pool = 2 \<and> mset (plSent ex_pool) = mset (order_job 100 1 0)"
proof -
  let ?j = "order_job 100 1" and ?p0 = "start_pool 1 2"
  obtain r1 r2 where j: "?j 0 = [r1, r2]" by (simp add: order_job_def)
  let ?p1 = "?p0\<lparr>plJobs := [], plWorkers := (plWorkers ?p0)[0 := ?j 0]\<rparr>"
  let ?p2 = "tally (Inr 201) (?p1\<lparr>plWorkers := (plWorkers ?p1)[0 := [r2]], plSent := plSent ?p1 @ [r1]\<rparr>)"
  let ?p3 = "tally (Inr 500) (?p2\<lparr>plWorkers := (plWorkers ?p2)[0 := []], plSent := plSent ?p2 @ [r2]\<rparr>)"
  have "pool_run ?j ?p0 ?p1"
    by (rule pool_run.pool_more [OF pool_run.pool_start pool_step.Take]) (simp_all add: start_pool_def)
  then have "pool_run ?j ?p0 ?p2"
    by (rule pool_run.pool_more [OF _ pool_step.Send]) (simp_all add: start_pool_def j)
  then have run: "pool_run ?j ?p0 ?p3"
    by (rule pool_run.pool_more [OF _ pool_step.Send]) (simp_all add: start_pool_def j)
  have eq: "?p3 = ex_pool" by (simp add: ex_pool_def start_pool_def j tally_def postOrder_def numeral_2_eq_2)
  have "pool_done ex_pool" by (simp add: ex_pool_def pool_done_def)
  with workers_do_every_job [OF run [unfolded eq]] show ?thesis by simp
qed

text \<open>C40. A fully matched run makes exactly as many trades as there are pairs: whatever order the requests
  of a run reach a fresh engine in, orders of one price and one quantity make one trade for
  each pair of a buy and a sell order, and when there are as many of one as of the other the
  book is empty again.\<close>

theorem every_pair_matches:
  assumes "\<And>o'. o' \<in> set os \<Longrightarrow> valid_new o' \<and> oPrice o' = price \<and> oQuantity o' = qty" and "distinct (map oID os)" and "0 < qty"
  shows "\<exists>rs e' l'. run_commands mem_log (map cmdPlace os) (NewEngine symbol producer now booknow, NewLog buffer) = Some (rs, e', l')
    \<and> length rs = length os \<and> trade_count (lg_ch l') = min (side_count Buy os) (side_count Sell os)
    \<and> (side_count Buy os = side_count Sell os \<longrightarrow> best (bids (eBook e')) = None \<and> best (asks (eBook e')) = None)"
  using engine_pairs [OF assms] by metis

definition ex_pairs :: "order list" where
  "ex_pairs = map (\<lambda>(i, sd). \<lparr>oID = i, oUserID = i, oSymbol = ''VIB'', oSide = sd, oPrice = 100, oQuantity = 2, oStatus = StatusNone,
     oFilledQuantity = 0, oSequence = 0, oCreatedAt = 0, oUpdatedAt = 0\<rparr>) [(''a'', Sell), (''b'', Sell), (''c'', Buy), (''d'', Buy)]"

theorem every_pair_matches_witness:
  "\<exists>rs e' l'. run_commands mem_log (map cmdPlace ex_pairs) (NewEngine ''VIB'' ''p'' ex_clock ex_clock, NewLog 0) = Some (rs, e', l')
    \<and> trade_count (lg_ch l') = 2 \<and> best (bids (eBook e')) = None \<and> best (asks (eBook e')) = None"
proof -
  have os: "list_all (\<lambda>o'. valid_new o' \<and> oPrice o' = 100 \<and> oQuantity o' = 2) ex_pairs" "distinct (map oID ex_pairs)"
    "side_count Buy ex_pairs = 2" "side_count Sell ex_pairs = 2"
    by code_simp+
  have "\<And>o'. o' \<in> set ex_pairs \<Longrightarrow> valid_new o' \<and> oPrice o' = 100 \<and> oQuantity o' = 2"
    using os(1) by (simp add: list_all_iff)
  from every_pair_matches [OF this os(2), of "''VIB''" "''p''" ex_clock ex_clock 0] os(3,4) show ?thesis by auto
qed

end
