(* ===== verification/Spec2Isabelle.thy ===== *)
theory Spec2Isabelle
  imports Crash Projection Session Service_Claims Progress Store_Claims Startup_Claims
begin

text \<open>
  This library models the Vibranium order book, a Go service that matches buy and sell
  orders of one instrument and moves the money of its trades, and proves what makes it
  correct. The sources are under \<open>src/\<close>; a name in this header is a file or a function there.

  \<^bold>\<open>The program.\<close> A request (\<open>adapter/driving/rest\<close>) calls a use case (\<open>core/service\<close>).
  \<open>Trading.PlaceOrder\<close> validates an order, reserves its funds in the wallet of its user
  (\<open>core/domain/wallet.go\<close> through the port \<open>WalletRepository\<close>) and hands the order to the
  engine (\<open>adapter/driven/matching\<close>). The engine is one goroutine that owns the book
  (\<open>core/domain/orderbook.go\<close>); it publishes what happened as events on the log
  (\<open>memlog\<close> or \<open>kafkalog\<close>). \<open>Settlement\<close> consumes the log, skips what its journal has seen,
  and moves the money: both legs of each trade, and the releases of funds that an order no longer
  needs. \<open>Reconciliation\<close> adds up all wallets. The stores are in memory (\<open>memstore\<close>), in
  Postgres (\<open>postgres\<close>), with a Redis cache in front (\<open>rediscache\<close>); \<open>bootstrap\<close> selects
  them by \<open>config\<close>, \<open>cmd/orderbook\<close> starts and stops it all, \<open>scripts/loadtest\<close> drives it and
  checks that no money was created or destroyed.

  \<^bold>\<open>How it is modelled.\<close> A Go struct is a record, an enumeration a datatype, an error a value
  of \<open>goerr\<close> (wrapping is a constructor), a panic \<open>None\<close>. An \<open>int64\<close> is an \<open>int\<close> whose
  operations \<open>add64\<close>, \<open>sub64\<close>, \<open>mul64\<close> write the wrap-around out. A method is a function from
  its receiver's state to the result and the new state. An interface is a record of functions;
  what its clients rely on is a locale, and every locale is interpreted on the adapters that
  provide it. Time, randomness and what the outside world answers are arguments.

  \<^bold>\<open>The theories\<close>, from the bottom up.
  \<^item> \<open>Prelude\<close>: machine integers, decimal and hexadecimal printing, \<open>sort.Search\<close>, generic lemmas and
    the collection \<open>i64_simps\<close>. \<open>Domain\<close>: \<open>order.go\<close>, \<open>trade.go\<close>, \<open>event.go\<close>. \<open>Wallet\<close>:
    \<open>wallet.go\<close>; each rule moves exactly what it says or reports an error and moves nothing.
  \<^item> \<open>Book\<close>: \<open>orderbook.go\<close> on a heap of orders, with levels, sorted slices of prices and the
    matching loop (a \<open>function\<close> whose measure is the number of orders on the opposite side).
    \<open>Book_Spec\<close>: the same as two lists in price-time order. \<open>Book_Side\<close>: the locale
    \<open>price_time_queue\<close> between matching and one side of the book, interpreted for bids and for asks.
    \<open>Book_Refine\<close>: the representation invariant \<open>book_wf\<close>, the abstraction \<open>absB\<close>, and the refinement
    of \<open>Place\<close> and \<open>Cancel\<close>. \<open>Book_Depth\<close>: \<open>Snapshot\<close>.
  \<^item> \<open>Ports\<close>: \<open>core/port\<close>; the locales \<open>wallet_ledger\<close>, \<open>event_journal\<close>, \<open>trade_history\<close>,
    \<open>order_projection\<close>, \<open>event_sink\<close>, and \<open>sound_wallet_ledger\<close>, \<open>reliable_wallet_ledger\<close>,
    \<open>reliable_journal\<close> for providers that do not fail by themselves. \<open>Memstore\<close>: \<open>memstore\<close> and \<open>memlog\<close>, which provide
    them all.
  \<^item> \<open>Engine\<close>, \<open>Engine_Spec\<close>: \<open>engine.go\<close> and its stream as a function of the commands.
    \<open>Trading\<close>, \<open>Settlement\<close>, \<open>Queries\<close>: \<open>trading.go\<close>, \<open>settlement.go\<close>, \<open>query.go\<close> and
    \<open>reconciliation.go\<close>, each as a client of the contracts.
  \<^item> \<open>Collateral\<close>, \<open>System\<close>, \<open>Safety\<close>, \<open>Progress\<close>, \<open>Session\<close>: the running service as a step
    relation \<open>sys_step\<close> in which requests, engine and settlement interleave in any way; its invariant
    \<open>sys_inv\<close>; what follows from it; a session that reaches the states the witnesses need.
  \<^item> \<open>Exchange\<close>: the service as one atomic exchange without goroutines, log or settlement, and the
    refinement of \<open>sys_step\<close> to it. \<open>Projection\<close>: why the order store shows each resting order as it
    is in the book.
  \<^item> \<open>Pipeline\<close>: the locale \<open>event_pipeline\<close>, a log as a queue between the engine and settlement, with
    the channel in memory and the goroutines of Kafka as its interpretations. \<open>Deployment\<close>: the running
    system over any stores and any log that keep their contracts (\<open>dep_step\<close>, locale
    \<open>deployment_ports\<close>), and a forward simulation by \<open>sys_step\<close>; it is interpreted on the stores in
    memory, on Postgres, and on Postgres behind Redis with Kafka. \<open>Crash\<close>: the same service when its
    process dies and is started again any number of times.
  \<^item> \<open>Rest\<close>: the handlers of \<open>adapter/driving/rest\<close>; \<open>Server\<close>: its \<open>server.go\<close>, from a request to
    the handler, the access log and the span. \<open>Config\<close>: \<open>config.go\<close>. \<open>Polling\<close>: the waiting loops
    of \<open>postgres.go\<close>, \<open>rediscache\<close> and \<open>kafkalog\<close>. \<open>Postgres\<close>, \<open>Rediscache\<close>, \<open>Kafkalog\<close>: the
    durable adapters, with interpretations of \<open>wallet_ledger\<close>, \<open>event_journal\<close> and \<open>event_sink\<close>.
    \<open>Delivery\<close>: Kafka, the journal in Postgres and settlement through crashes, and the locale
    \<open>reliable_journal\<close> for that journal.
    \<open>Bootstrap\<close>: \<open>bootstrap.go\<close>. \<open>Telemetry\<close>: \<open>noop.go\<close>, \<open>otel.go\<close>. \<open>Startup\<close>: \<open>main\<close> of
    \<open>cmd/orderbook/main.go\<close>, from the health check and \<open>Build\<close> to the exit code or the last
    deferred call, with the clients that are open. \<open>Loadtest\<close>: the requests, waiting loops and the
    verdict of the load test; \<open>Loadtest_Run\<close>: its \<open>main\<close>, with the pool of workers as a step relation.
  \<^item> \<open>Book_Claims\<close>, \<open>Core_Claims\<close>, \<open>Service_Claims\<close>, \<open>Adapter_Claims\<close>, \<open>Store_Claims\<close>,
    \<open>Startup_Claims\<close> and this theory: the properties, each a few steps over the lemmas below it.

  \<^bold>\<open>What the money claims assume.\<close> The steps of \<open>sys_step\<close> carry the assumptions under which the
  accounts add up, each a gap of the code that a claim or a finding shows to be real: the value of an
  order fits an \<open>int64\<close> (\<open>fits\<close>; \<open>ReservedCOP\<close> wraps otherwise); random order identifiers
  do not collide; the sequence number stays below 2 to the 63; a wallet is seeded only while nothing of it is
  locked, and the supply fits an \<open>int64\<close>; a request whose context ends after the hand-over waits
  for its reply (the code refunds it at once, see \<open>abandoned_order_is_refunded\<close>). In \<open>sys_step\<close> the
  stores are the in-memory ones, which do not fail. \<open>dep_step\<close> weakens that: the port of the requests
  may fail as long as no answer is lost (\<open>lost_commit_locks_funds\<close> shows why) and Redis may fail in any
  way, but settlement and compensation have to be served. \<open>crash_step\<close> adds the crash of the process between
  two events of settlement; what is on the way is lost, and its funds stay locked. A crash inside the handling of
  one event is not covered, for there the code marks the event and does not apply it.

  \<^bold>\<open>Loops and bounds.\<close> The matching loop and every recursion over data are total functions. Loops
  that wait for the world are \<open>partial_function\<close> (option), and that they return is proved: a
  poll loop ends because its clock passes the deadline (every round sleeps at least 250 or 500
  milliseconds). Channels are lists; the capacity of a channel only delays a sender, which a step relation that
  takes steps in any order covers. No fuel is used.

  \<^bold>\<open>Parameters.\<close> Code outside the repository is an argument of the definitions that use it:
  \<open>encoding/json\<close> as a codec with its round trip as the hypothesis \<open>codec_ok\<close>; the answers of
  Postgres, Redis, Kafka and HTTP servers as oracles that may fail at any call; \<open>strconv.ParseFloat\<close>,
  \<open>time.ParseDuration\<close>, random bytes, clocks and contexts as values.

  \<^bold>\<open>Not modelled.\<close> \<open>net/http\<close>, \<open>encoding/json\<close>, OpenTelemetry, pgx, go-redis and franz-go
  themselves; the memory model of Go below the granularity of mutexes and channels; the text of log lines
  and the float arithmetic of printed rates; SQL pools and timeouts other than as
  failures of the oracle; compose files, dashboards and prose.
\<close>

section \<open>Claims about the whole system\<close>

text \<open>What the invariant of the reachable states says of one wallet.\<close>

lemma reachable_wallet:
  assumes "reachable (init_system symbol buffer producer now booknow) st"
    and "ws_view (stWallets (syStores st)) u = Some w"
  shows "COPLocked w = needCOP st u" "VibraniumLocked w = needVIB st u" "wallet_ok w"
proof -
  have l: "ledger_ok (ws_view (stWallets (syStores st))) (needCOP st) (needVIB st)"
    using reachable_inv [OF assms(1)] by (simp add: sys_inv_def)
  show "wallet_ok w" by (rule ledger_wallet_ok [OF l assms(2)])
  have "ledger_bal (ws_view (stWallets (syStores st))) (needCOP st) (needVIB st)" using l by (simp add: ledger_ok_def)
  from ledger_balD(5,6) [OF this, of u w] assms(2)
  show "COPLocked w = needCOP st u" "VibraniumLocked w = needVIB st u" by simp_all
qed

text \<open>C7. In every reachable state of the running system, with requests, the engine and settlement
  interleaved in any way, each wallet has locked exactly what its owner still owes: what the
  orders on their way, the resting orders and the events not yet settled need. No balance is
  negative.\<close>

theorem locked_is_owed:
  assumes "reachable (init_system symbol buffer producer now booknow) st"
    and "ws_view (stWallets (syStores st)) u = Some w"
  shows "COPLocked w = needCOP st u \<and> VibraniumLocked w = needVIB st u
    \<and> 0 \<le> COPAvailable w \<and> 0 \<le> COPLocked w \<and> 0 \<le> VibraniumAvailable w \<and> 0 \<le> VibraniumLocked w"
  using reachable_wallet [OF assms] by (auto simp: wallet_ok_def)

theorem locked_is_owed_witness:
  "\<exists>w. ws_view (stWallets (syStores matched)) ''eve'' = Some w \<and> COPLocked w = 96 \<and> COPLocked w = needCOP matched ''eve''"
proof -
  obtain w where w: "ws_view (stWallets (syStores matched)) ''eve'' = Some w" and l: "COPLocked w = 96"
    using session_values(5) by auto
  from locked_is_owed [OF session_reachable(4) [unfolded start_system_def] w] w l show ?thesis by auto
qed

text \<open>C9. Settlement never fails and never pays an event twice: in every reachable state the log of
  settlement holds nothing but notes of skipped duplicates, and the next event of the stream
  has not been applied before.\<close>

theorem settlement_never_fails:
  assumes "reachable (init_system symbol buffer producer now booknow) st"
  shows "(\<forall>l\<in>set (stLog (syStores st)). duplicate_note l)
    \<and> (\<forall>ev l'. Log_recv (syLog st) = Some (Some ev, l') \<longrightarrow> eID ev \<notin> set (jr_seen (stJournal (syStores st))))"
proof -
  have "sys_events st" using reachable_inv [OF assms] by (simp add: sys_inv_def)
  then have d: "set (map eID (lg_ch (syLog st))) \<inter> set (jr_seen (stJournal (syStores st))) = {}"
    by (simp add: sys_events_def)
  have "eID ev \<notin> set (jr_seen (stJournal (syStores st)))" if "Log_recv (syLog st) = Some (Some ev, l')" for ev l'
    using d Log_recv_Some [OF that] by auto
  then show ?thesis using reachable_log [OF assms] by (auto simp: only_duplicates_def)
qed

theorem settlement_never_fails_witness:
  "list_all duplicate_note (stLog (syStores drained)) \<and> length (jr_seen (stJournal (syStores drained))) = 4"
proof -
  have "length (jr_seen (stJournal (syStores drained))) = 4" by code_simp
  with settlement_never_fails [OF session_reachable(5) [unfolded start_system_def]] show ?thesis
    by (simp add: list_all_iff)
qed

text \<open>The step of the session that settles its second event, an update of the wallet of the buyer.\<close>

lemma second_settle:
  "reachable start_system (do_settle matched)" "sys_step (do_settle matched) (do_settle (do_settle matched))"
  "\<not> seeded (do_settle matched) (do_settle (do_settle matched))"
  "stWallets (syStores (do_settle (do_settle matched))) \<noteq> stWallets (syStores (do_settle matched))"
proof -
  let ?st = "do_settle matched" and ?st' = "do_settle (do_settle matched)"
  have v: "map_option COPLocked (ws_view (stWallets (syStores ?st')) ''eve'') = Some 46"
    "map_option COPLocked (ws_view (stWallets (syStores ?st)) ''eve'') = Some 96" "length (lg_ch (syLog ?st)) = 3"
    by code_simp+
  show "reachable start_system ?st" by (rule reach_settle [OF session_reachable(4)])
  obtain ev l' where r: "Log_recv (syLog ?st) = Some (Some ev, l')"
    using v(3) by (cases "lg_ch (syLog ?st)") (auto simp: Log_recv_def)
  show "sys_step ?st ?st'" using sys_step.Settle [OF r, of CtxLive 0] by (simp add: do_settle_def [of ?st] r)
  show "\<not> seeded ?st ?st'"
  proof
    assume "seeded ?st ?st'"
    then obtain c u cop vib w where sd: "Wallets_Seed mem_wallets c u cop vib (stWallets (syStores ?st)) = (Inr w, stWallets (syStores ?st'))"
      unfolding seeded_def by auto
    then have "ws_view (stWallets (syStores ?st')) = (ws_view (stWallets (syStores ?st)))(u \<mapsto> w)" "COPLocked w = 0"
      using mem_ledger.Seed_view(1) [OF sd] by simp_all
    with v show False by (auto split: if_splits)
  qed
  show "stWallets (syStores ?st') \<noteq> stWallets (syStores ?st)" using v by auto
qed

text \<open>C10. Trading neither creates nor destroys money: a step of the running system leaves the total COP
  and the total Vibranium of all wallets (available and locked) as they are, unless it seeds a
  wallet.\<close>

theorem money_conserved:
  assumes "reachable (init_system symbol buffer producer now booknow) st" and "sys_step st st'" and "\<not> seeded st st'"
  shows "supplyCOP (ws_view (stWallets (syStores st'))) = supplyCOP (ws_view (stWallets (syStores st)))
    \<and> supplyVIB (ws_view (stWallets (syStores st'))) = supplyVIB (ws_view (stWallets (syStores st)))"
  using sys_step_supply [OF assms(2) reachable_inv [OF assms(1)]] assms(3) by (simp add: supply_of_def)

theorem money_conserved_witness:
  "\<exists>st st'. reachable start_system st \<and> sys_step st st' \<and> stWallets (syStores st') \<noteq> stWallets (syStores st)
    \<and> supplyCOP (ws_view (stWallets (syStores st'))) = supplyCOP (ws_view (stWallets (syStores st)))"
  using money_conserved [OF second_settle(1) [unfolded start_system_def] second_settle(2,3)] second_settle by blast

text \<open>The totals of the list of wallets are the money supply.\<close>

lemma list_reads_supply:
  assumes "reachable (init_system symbol buffer producer now booknow) st"
    and "fst (WalletStore_List c (stWallets (syStores st))) = Inr ws"
  shows "totals ws = (supplyCOP (ws_view (stWallets (syStores st))), supplyVIB (ws_view (stWallets (syStores st))))"
proof -
  let ?s = "stWallets (syStores st)" and ?v = "ws_view (stWallets (syStores st))"
  have l: "ledger_ok ?v (needCOP st) (needVIB st)" using reachable_inv [OF assms(1)] by (simp add: sys_inv_def)
  have wf: "ws_wf ?s" by (rule reachable_ws_wf [OF assms(1)])
  have ws: "mset ws = mset (map snd (ws_wallets ?s))" using assms(2) by (auto simp: WalletStore_List_def)
  have ok: "wallet_ok w" if "w \<in> set ws" for w
    using List_sorted(3) [OF assms(2) wf] that ledger_wallet_ok [OF l] by blast
  have sum: "(\<Sum>w\<leftarrow>ws. f w) = (\<Sum>(u, w)\<leftarrow>ws_wallets ?s. f w)" for f :: "wallet \<Rightarrow> int"
  proof -
    have "(\<Sum>w\<leftarrow>ws. f w) = (\<Sum>w\<in>#mset ws. f w)" by (simp add: sum_mset_sum_list [symmetric])
    also have "\<dots> = (\<Sum>w\<leftarrow>map snd (ws_wallets ?s). f w)"
      unfolding ws by (simp only: sum_mset_sum_list [symmetric] mset_map)
    finally show ?thesis by (simp add: comp_def case_prod_unfold)
  qed
  have "(\<Sum>w\<leftarrow>ws. TotalCOP w) = (\<Sum>w\<leftarrow>ws. COPAvailable w + COPLocked w)"
    "(\<Sum>w\<leftarrow>ws. TotalVibranium w) = (\<Sum>w\<leftarrow>ws. VibraniumAvailable w + VibraniumLocked w)"
    using ok by (auto intro!: arg_cong [of _ _ sum_list] map_cong simp: Total_exact)
  then have t: "(\<Sum>w\<leftarrow>ws. TotalCOP w) = supplyCOP ?v" "(\<Sum>w\<leftarrow>ws. TotalVibranium w) = supplyVIB ?v"
    using sum supply_list [of ?s] wf by (simp_all add: ws_wf_def)
  have "0 \<le> supplyCOP ?v" "0 \<le> supplyVIB ?v"
    unfolding t [symmetric] using ok by (auto intro!: sum_list_nonneg_map simp: Total_exact wallet_ok_def)
  then show ?thesis using l by (simp add: totals_wrap t wrap64_id i64_nonneg ledger_ok_def)
qed

text \<open>What reconciliation reads is the money supply: in every reachable state the totals it computes
  from the list of wallets are the exact sums over all wallets, without wrap-around.\<close>

theorem reconciliation_reads_supply:
  assumes "reachable (init_system symbol buffer producer now booknow) st"
    and "fst (WalletStore_List c (stWallets (syStores st))) = Inr ws"
  shows "totals ws = (supplyCOP (ws_view (stWallets (syStores st))), supplyVIB (ws_view (stWallets (syStores st))))"
  by (rule list_reads_supply [OF assms])

theorem reconciliation_reads_supply_witness:
  "\<exists>ws. fst (WalletStore_List CtxLive (stWallets (syStores drained))) = Inr ws
    \<and> totals ws = (supplyCOP (ws_view (stWallets (syStores drained))), supplyVIB (ws_view (stWallets (syStores drained))))"
proof -
  obtain ws where l: "fst (WalletStore_List CtxLive (stWallets (syStores drained))) = Inr ws" by (simp add: WalletStore_List_def)
  with reconciliation_reads_supply [OF session_reachable(5) [unfolded start_system_def] l] show ?thesis by blast
qed

text \<open>C1. The running service refines an atomic exchange: in every reachable state, whatever step a
  request, the engine or settlement takes next is invisible in the exchange, or it is one step of
  it: a user is funded, an order is accepted against free funds, withdrawn, matched and paid for
  at once, or cancelled.\<close>

theorem service_refines_exchange:
  assumes "reachable (init_system symbol buffer producer now booknow) st" and "sys_step st st'"
  shows "exch_of st' = exch_of st \<or> exch_step (exch_of st) (exch_of st')"
  by (rule sys_step_refines [OF assms(2) reachable_inv [OF assms(1)]])

theorem service_refines_exchange_witness:
  "exch_of matched \<noteq> exch_of buying \<and> exch_step (exch_of buying) (exch_of matched)"
proof -
  have v: "length (sySubmitting buying @ placed (syIn buying)) = 1" "length (sySubmitting matched @ placed (syIn matched)) = 0"
    "syIn buying \<noteq> []" "eSeq (syEngine buying) + int (length (lg_ch (syLog matched))) \<le> max_i64"
    by code_simp+
  have "size (xWaiting (exch_of buying)) = 1" "size (xWaiting (exch_of matched)) = 0"
    unfolding exch_of_simps size_mset length_map v by simp_all
  then have ne: "exch_of matched \<noteq> exch_of buying" by (metis zero_neq_one)
  note r = session_reachable(3) [unfolded start_system_def]
  obtain cmd cmds where c: "syIn buying = cmd # cmds" using v(3) by (cases "syIn buying") auto
  obtain x where x: "handle_command mem_log cmd (syEngine buying, syLog buying) = Some x"
    using engine_answers [OF reachable_inv [OF r] c] by auto
  have "sys_step buying matched" using step_engine [OF c x] v(4) by (simp add: matched_def)
  from service_refines_exchange [OF r this] ne show ?thesis by blast
qed

text \<open>C2. When settlement has caught up, the wallets are the accounts of the atomic exchange: the state is
  one that the exchange can reach by itself, each user holds what he holds there, and what his
  wallet shows as available is what the exchange lets him spend.\<close>

theorem settled_wallets_are_accounts:
  assumes "reachable (init_system symbol buffer producer now booknow) st" and "lg_ch (syLog st) = []"
  shows "exch_run (exch_of st) \<and> xHolds (exch_of st) = holdings (ws_view (stWallets (syStores st)))
    \<and> free (exch_of st) u = map_option (\<lambda>w. (COPAvailable w, VibraniumAvailable w)) (ws_view (stWallets (syStores st)) u)"
  using reachable_exch_run [OF assms(1)] settled_free [OF reachable_inv [OF assms(1)] assms(2)] assms(2) by simp

theorem settled_wallets_are_accounts_witness:
  "exch_run (exch_of drained) \<and> free (exch_of drained) ''eve'' = Some (914, 5)"
proof -
  have "map_option (\<lambda>w. (COPAvailable w, VibraniumAvailable w)) (ws_view (stWallets (syStores drained)) ''eve'') = Some (914, 5)"
    by code_simp
  with settled_wallets_are_accounts [OF session_reachable(5) [unfolded start_system_def] session_values(2)] show ?thesis by simp
qed

text \<open>C11. In every reachable state the engine answers the next command without a panic, and the book is
  sound: its best bid is below its best ask.\<close>

theorem engine_never_panics:
  assumes "reachable (init_system symbol buffer producer now booknow) st"
  shows "(syIn st \<noteq> [] \<longrightarrow> handle_command mem_log (hd (syIn st)) (syEngine st, syLog st) \<noteq> None)
    \<and> (\<forall>p q. best (bids (eBook (syEngine st))) = Some p \<longrightarrow> best (asks (eBook (syEngine st))) = Some q \<longrightarrow> p < q)"
proof -
  let ?b = "eBook (syEngine st)"
  have inv: "sys_inv st" by (rule reachable_inv [OF assms])
  then have wf: "book_wf ?b" by (simp add: sys_inv_def)
  then have w: "side_wf True (\<lambda>r. oPrice (heap ?b r)) (bids ?b)" "side_wf False (\<lambda>r. oPrice (heap ?b r)) (asks ?b)"
    and u: "uncrossed (absB ?b)"
    by (auto simp: book_wf_def book_core_def)
  have "p < q" if "best (bids ?b) = Some p" "best (asks ?b) = Some q" for p q
    using that u best_refs [OF w(1)] best_refs [OF w(2)]
    by (auto simp: uncrossed_def absB_def split: list.splits)
  moreover have "syIn st \<noteq> [] \<longrightarrow> handle_command mem_log (hd (syIn st)) (syEngine st, syLog st) \<noteq> None"
    using engine_answers [OF inv] by (cases "syIn st") auto
  ultimately show ?thesis by blast
qed

theorem engine_never_panics_witness:
  "syIn buying \<noteq> [] \<and> handle_command mem_log (hd (syIn buying)) (syEngine buying, syLog buying) \<noteq> None"
proof -
  have "syIn buying \<noteq> []" by code_simp
  with engine_never_panics [OF session_reachable(3) [unfolded start_system_def]] show ?thesis by blast
qed



text \<open>Settlement can always catch up: from every reachable state, settling the events of the log leads
  to a reachable state in which none is left, with the book and the requests as they were, and
  then each wallet has locked just what its owner's requests and resting orders need.\<close>

theorem settlement_catches_up:
  assumes "reachable (init_system symbol buffer producer now booknow) st"
  shows "\<exists>st'. reachable st st' \<and> lg_ch (syLog st') = [] \<and> syEngine st' = syEngine st
    \<and> (\<forall>u w. ws_view (stWallets (syStores st')) u = Some w \<longrightarrow>
        COPLocked w = (\<Sum>o'\<leftarrow>sySubmitting st. cop_of u (absO o')) + (\<Sum>c\<leftarrow>syIn st. cmd_cop u c)
          + restingCOP u (absB (eBook (syEngine st))))"
proof -
  obtain st' where r: "reachable st st'" and d: "lg_ch (syLog st') = []" "syEngine st' = syEngine st" "syIn st' = syIn st"
    "sySubmitting st' = sySubmitting st"
    using settlement_drains by blast
  have "reachable (init_system symbol buffer producer now booknow) st'" using reachable_trans [OF r assms] .
  from reachable_wallet(1) [OF this] r d show ?thesis by (auto simp: needCOP_def book_of_def)
qed

theorem settlement_catches_up_witness:
  "\<exists>st'. reachable matched st' \<and> lg_ch (syLog matched) \<noteq> [] \<and> lg_ch (syLog st') = [] \<and> syEngine st' = syEngine matched"
proof -
  have "lg_ch (syLog matched) \<noteq> []" using session_values(1) by auto
  with settlement_catches_up [OF session_reachable(4) [unfolded start_system_def]] show ?thesis by blast
qed

text \<open>C12. The check of the load test cannot fail against this service: whatever requests, matches and
  settlements happen between the baseline and the final reading, as long as nobody seeds a
  wallet, \<open>verify\<close> finds both totals unchanged.\<close>

theorem loadtest_never_fails:
  assumes "reachable (init_system symbol buffer producer now booknow) st" and "trading_run st st'"
    and "fst (WalletStore_List c (stWallets (syStores st))) = Inr ws"
    and "fst (WalletStore_List c' (stWallets (syStores st'))) = Inr ws'"
    and "load_totals (Inr (status, Some ws)) = Inr (baseCOP, baseVib, locked)"
  shows "verify (Inr (status', Some ws')) baseCOP baseVib settled expected = VerdictOK
    \<or> verify (Inr (status', Some ws')) baseCOP baseVib settled expected = VerdictConserved"
proof -
  have r': "reachable (init_system symbol buffer producer now booknow) st'" "supply_of st' = supply_of st"
    using trading_run_supply [OF assms(2,1)] by simp_all
  have "totals ws = supply_of st" "totals ws' = supply_of st'"
    using list_reads_supply [OF assms(1,3)] list_reads_supply [OF r'(1) assms(4)] by (simp_all add: supply_of_def)
  with r'(2) have eq: "totals ws' = totals ws" by simp
  obtain l where "load_totals (Inr (status', Some ws')) = Inr (fst (totals ws'), snd (totals ws'), l)"
    using load_totals_totals by blast
  moreover have "baseCOP = fst (totals ws)" "baseVib = snd (totals ws)"
    using load_totals_totals [of status ws] assms(5) by auto
  ultimately show ?thesis by (simp add: verify_def eq Let_def)
qed

theorem loadtest_never_fails_witness:
  "\<exists>ws ws' cop vib l. fst (WalletStore_List CtxLive (stWallets (syStores (do_settle matched)))) = Inr ws
    \<and> fst (WalletStore_List CtxLive (stWallets (syStores (do_settle (do_settle matched))))) = Inr ws' \<and> ws \<noteq> ws'
    \<and> load_totals (Inr (200, Some ws)) = Inr (cop, vib, l)
    \<and> (verify (Inr (200, Some ws')) cop vib 1 1 = VerdictOK \<or> verify (Inr (200, Some ws')) cop vib 1 1 = VerdictConserved)"
proof -
  let ?ws = "projr (fst (WalletStore_List CtxLive (stWallets (syStores (do_settle matched)))))"
  let ?ws' = "projr (fst (WalletStore_List CtxLive (stWallets (syStores (do_settle (do_settle matched))))))"
  have l: "fst (WalletStore_List CtxLive (stWallets (syStores (do_settle matched)))) = Inr ?ws"
    "fst (WalletStore_List CtxLive (stWallets (syStores (do_settle (do_settle matched))))) = Inr ?ws'"
    by (simp_all add: WalletStore_List_def)
  have ne: "?ws \<noteq> ?ws'" by code_simp
  obtain k where t: "load_totals (Inr (200, Some ?ws)) = Inr (fst (totals ?ws), snd (totals ?ws), k)"
    using load_totals_totals by blast
  have "trading_run (do_settle matched) (do_settle (do_settle matched))"
    by (rule trading_run.Then [OF trading_run.Here second_settle(2,3)])
  from loadtest_never_fails [OF second_settle(1) [unfolded start_system_def] this l t] l ne t show ?thesis by blast
qed

text \<open>C3. Where the stores and the log are makes no difference to the core: with the wallets in Postgres
  behind a Redis cache that may fail in any way, the journal in Postgres, Kafka as the log and trades
  and orders anywhere, every run of the service, in which requests may meet any failure of the
  database whose answer is not lost, settlement is served and the brokers take every record, is a
  run of the in-memory system: the same requests, commands and book, the same wallets in the
  database, the same identifiers in the journal, and the events that are anywhere between the engine
  and settlement are those of the channel, in order.\<close>

theorem durable_service_runs_like_memory:
  assumes "durable_run env ttl orc trs ods codec w (new_durable symbol buffer producer now booknow t0 o0) g"
    and "codec_ok codec" and "\<forall>ev. marshals codec ev"
  shows "\<exists>st. reachable (init_system symbol buffer producer now booknow) st
    \<and> syEngine st = dpEngine g \<and> syIn st = dpIn g \<and> sySubmitting st = dpSubmitting g \<and> syUsed st = dpUsed g
    \<and> lg_ch (syLog st) = kafka_pending codec (dpLog g)
    \<and> ws_view (stWallets (syStores st)) = durable_view g
    \<and> set (jr_seen (stJournal (syStores st))) = set (pgEvents (stJournal (dpStores g)))"
proof -
  note r = new_durable_ready [OF assms(2,3)]
  from durable_deployment.runs_like_memory [OF assms(1) [unfolded durable_run_def new_durable_def], of buffer] show ?thesis
    by (auto simp: twin_def carries_def durable_view_def r(1-3) r(4) [of w, simplified])
qed

theorem durable_service_runs_like_memory_witness:
  "\<exists>st. reachable (init_system ''VIB'' 8 ''eng'' int int) st \<and> length (lg_ch (syLog st)) = 1
    \<and> map_option COPLocked (ws_view (stWallets (syStores st)) ''bob'') = Some 20"
proof -
  have "length (kafka_pending ex_codec (dpLog durable4)) = 1"
    using durable_values(6-9) by (simp add: kafka_pending_def ex_codec_ok)
  with durable_service_runs_like_memory [OF durable_session [unfolded durable0_def] ex_codec_ok(1)] durable_values(3) ex_codec_ok(2)
  show ?thesis by fastforce
qed

text \<open>C4. The rows of the database are the accounts of the exchange: in every state of the durable service
  each wallet row has locked exactly what its user still owes and no balance is negative, whatever
  Redis does; and when settlement has caught up with Kafka, the rows hold what the users hold in a
  state that the atomic exchange reaches by itself with the same book.\<close>

theorem database_holds_the_accounts:
  assumes "durable_run env ttl orc trs ods codec w (new_durable symbol buffer producer now booknow t0 o0) g"
    and "codec_ok codec" and "\<forall>ev. marshals codec ev"
  shows "(\<forall>u r. durable_view g u = Some r \<longrightarrow>
      COPLocked r = needCOP (inside (kafka_pipe codec w) g) u \<and> VibraniumLocked r = needVIB (inside (kafka_pipe codec w) g) u
      \<and> wallet_nonneg r)
    \<and> (kafka_pending codec (dpLog g) = [] \<longrightarrow>
        (\<exists>X. exch_run X \<and> xBook X = absB (eBook (dpEngine g)) \<and> xHolds X = holdings (durable_view g)))"
proof (intro conjI allI impI)
  note r = new_durable_ready [OF assms(2,3)] and run = assms(1) [unfolded durable_run_def new_durable_def]
  show "COPLocked x = needCOP (inside (kafka_pipe codec w) g) u" "VibraniumLocked x = needVIB (inside (kafka_pipe codec w) g) u"
    "wallet_nonneg x" if "durable_view g u = Some x" for u x
    using durable_deployment.locked_in_store [OF run, of u x] r that by (simp_all add: durable_view_def)
  show "\<exists>X. exch_run X \<and> xBook X = absB (eBook (dpEngine g)) \<and> xHolds X = holdings (durable_view g)"
    if "kafka_pending codec (dpLog g) = []"
    using durable_deployment.settled_store [OF run] r that by (simp add: durable_view_def)
qed

theorem database_holds_the_accounts_witness:
  "needCOP (inside (kafka_pipe ex_codec quiet_close) durable4) ''bob'' = 20"
proof -
  have "\<forall>ev. marshals ex_codec ev" by (simp add: ex_codec_ok)
  from database_holds_the_accounts [OF durable_session [unfolded durable0_def] ex_codec_ok(1) this] durable_values(3)
  show ?thesis by fastforce
qed

text \<open>C5. The durable service can always settle everything: from every state it can reach, the log on Kafka
  and settlement can go on by themselves, without the engine or a request moving, until no event is
  left anywhere between the engine and settlement, whatever Redis does; and then the rows of the
  database are the accounts of a state that the atomic exchange reaches with this book.\<close>

theorem durable_service_settles:
  assumes "durable_run env ttl orc trs ods codec w (new_durable symbol buffer producer now booknow t0 o0) g"
    and "codec_ok codec" and "\<forall>ev. marshals codec ev"
  shows "\<exists>g' X. durable_run env ttl orc trs ods codec w (new_durable symbol buffer producer now booknow t0 o0) g'
    \<and> kafka_pending codec (dpLog g') = []
    \<and> dpEngine g' = dpEngine g \<and> dpIn g' = dpIn g \<and> dpSubmitting g' = dpSubmitting g
    \<and> exch_run X \<and> xBook X = absB (eBook (dpEngine g)) \<and> xHolds X = holdings (durable_view g')"
  using durable_live.catches_up [OF assms(1) [unfolded durable_run_def new_durable_def]] new_durable_ready [OF assms(2,3)]
  unfolding durable_run_def new_durable_def durable_view_def by simp

theorem durable_service_settles_witness:
  "\<exists>g'. durable_run redis_down 0 (\<lambda>_. PgOk) mem_trades mem_orders ex_codec quiet_close durable0 g'
    \<and> kafka_pending ex_codec (dpLog g') = [] \<and> dpEngine g' = dpEngine durable4"
proof -
  have "\<forall>ev. marshals ex_codec ev" by (simp add: ex_codec_ok)
  from durable_service_settles [OF durable_session [unfolded durable0_def] ex_codec_ok(1) this]
  show ?thesis unfolding durable0_def by blast
qed

text \<open>C6. No money is created or lost by crashes: however often the durable service dies between two
  events of settlement and is started again, whatever Redis does, no balance in the database is
  negative, every wallet has locked at least what its user still owes for the orders in the book, the
  requests on their way and the events that wait to be settled, and every step, also a crash, keeps
  the total COP and Vibranium of all wallets, unless it seeds a wallet.\<close>

theorem crashes_keep_the_money:
  assumes "durable_crash_run env ttl orc trs ods codec w (new_durable symbol buffer producer now booknow t0 o0) g"
    and "codec_ok codec" and "\<forall>ev. marshals codec ev"
  shows "(\<forall>u r. durable_view g u = Some r \<longrightarrow> wallet_nonneg r
      \<and> needCOP (durable_unsettled codec w g) u \<le> COPLocked r \<and> needVIB (durable_unsettled codec w g) u \<le> VibraniumLocked r)
    \<and> (\<forall>g'. durable_crash_step env ttl orc trs ods codec w g g' \<longrightarrow>
        supplyCOP (durable_view g') = supplyCOP (durable_view g) \<and> supplyVIB (durable_view g') = supplyVIB (durable_view g)
        \<or> dep_seeded (wallet_cache env ttl (pg_wallets (answered orc))) g g')"
proof (intro conjI allI impI)
  note r = new_durable_ready [OF assms(2,3)] and run = assms(1) [unfolded durable_crash_run_def new_durable_def]
  show "wallet_nonneg x" "needCOP (durable_unsettled codec w g) u \<le> COPLocked x"
    "needVIB (durable_unsettled codec w g) u \<le> VibraniumLocked x" if "durable_view g u = Some x" for u x
    using durable_crashing.crash_locked [OF run, of u x] r that by (simp_all add: durable_view_def durable_unsettled_def)
  show "supplyCOP (durable_view g') = supplyCOP (durable_view g) \<and> supplyVIB (durable_view g') = supplyVIB (durable_view g)
      \<or> dep_seeded (wallet_cache env ttl (pg_wallets (answered orc))) g g'"
    if "durable_crash_step env ttl orc trs ods codec w g g'" for g'
    using durable_crashing.crash_supply [OF run, of g'] r that by (simp add: durable_view_def durable_crash_step_def)
qed

theorem crashes_keep_the_money_witness:
  "map_option COPLocked (durable_view durable5 ''bob'') = Some 20 \<and> needCOP (durable_unsettled ex_codec quiet_close durable5) ''bob'' \<le> 20"
proof -
  have "\<forall>ev. marshals ex_codec ev" by (simp add: ex_codec_ok)
  from crashes_keep_the_money [OF durable_crash_session [unfolded durable0_def] ex_codec_ok(1) this] durable_values(3)
  show ?thesis unfolding durable5_view by fastforce
qed

end
